theory Spec2Isabelle
  imports Complex_Main "HOL-Library.Multiset"
begin

section \<open>Data model of Cesium3DTilesetTraversal\<close>

text \<open>
  Tiles are JavaScript objects that point at each other (\<open>parent\<close>, \<open>children\<close>,
  \<open>_priorityDistanceHolder\<close>, the ancestor links). A tile reference is a natural number and
  the tileset carries the store that maps a reference to the tile's fields. JavaScript
  numbers are modelled as reals, frame numbers and depths as integers.
\<close>

datatype Cesium3DTileRefine = ADD | REPLACE

datatype Intersect = OUTSIDE | INTERSECTING | INSIDE

type_synonym tile_ref = nat

record Cesium3DTile =
  parent :: "tile_ref option"
  children :: "tile_ref list"
  depth :: int
  refine :: Cesium3DTileRefine
  hasEmptyContent :: bool
  hasTilesetContent :: bool
  contentUnloaded :: bool
  contentAvailable :: bool
  contentExpired :: bool
  featurePropertiesDirty :: bool
  boundingSphereRadius :: real
  distanceToCamera :: real
  centerZDepth :: real
  screenSpaceError :: real
  visible :: bool
  inRequestVolume :: bool
  updatedVisibilityFrame :: int
  priorityDistance :: real
  priorityDistanceHolder :: tile_ref
  wasMinChild :: bool
  refines :: bool
  finalResolution :: bool
  shouldSelect :: bool
  selectionDepth :: nat
  stackLength :: nat
  ancestorWithContent :: "tile_ref option"
  ancestorWithContentAvailable :: "tile_ref option"
  visitedFrame :: int
  touchedFrame :: int
  selectedFrame :: int
  requestedFrame :: int
  lastStyleTime :: real

text \<open>
  The tileset: configuration, the output lists, the priority bookkeeping, and the tile
  store. \<open>cacheTouched\<close> records the calls of \<open>tileset._cache.touch\<close> and
  \<open>visibilityUpdates\<close> the calls of the tile method \<open>tile.updateVisibility\<close>, in order.
\<close>

record Cesium3DTileset =
  tiles :: "tile_ref \<Rightarrow> Cesium3DTile"
  rootTile :: tile_ref
  maximumScreenSpaceError :: real
  baseScreenSpaceError :: real
  skipLevelOfDetail :: bool
  immediatelyLoadDesiredLevelOfDetail :: bool
  skipScreenSpaceErrorFactor :: real
  skipLevels :: int
  loadSiblings :: bool
  debugFreezeFrame :: bool
  tilesetUpdatedVisibilityFrame :: int
  selectedTiles :: "tile_ref list"
  selectedTilesToStyle :: "tile_ref list"
  requestedTiles :: "tile_ref list"
  emptyTiles :: "tile_ref list"
  hasMixedContent :: bool
  statisticsVisited :: nat
  cacheTouched :: "tile_ref list"
  visibilityUpdates :: "tile_ref list"
  maxPriorityDistance :: real
  maxPriorityLevel :: int
  minPriorityDistance :: real
  minPriorityLevel :: int
  minDistanceTile :: "tile_ref option"
  minPriorityHolder :: "tile_ref option"

text \<open>
  The frame state. The tile methods that take it (\<open>updateVisibility\<close>,
  \<open>contentVisibility\<close>, \<open>getScreenSpaceError\<close>) live in Cesium3DTile.js; what they answer
  for a tile in this frame is a field of the frame state.
\<close>

record FrameState =
  frameNumber :: int
  tileVisible :: "tile_ref \<Rightarrow> bool"
  tileInRequestVolume :: "tile_ref \<Rightarrow> bool"
  tileContentVisibility :: "tile_ref \<Rightarrow> Intersect"
  tileScreenSpaceErrorWithParentError :: "tile_ref \<Rightarrow> real"

definition upd :: "tile_ref \<Rightarrow> (Cesium3DTile \<Rightarrow> Cesium3DTile) \<Rightarrow> Cesium3DTileset \<Rightarrow> Cesium3DTileset" where
  "upd t f tileset = tileset\<lparr>tiles := (tiles tileset)(t := f (tiles tileset t))\<rparr>"

definition Number_MAX_VALUE :: real where
  "Number_MAX_VALUE = (2 ^ 53 - 1) * 2 ^ 971"

section \<open>The traversal\<close>

definition isVisible :: "Cesium3DTile \<Rightarrow> bool" where
  "isVisible tile = (visible tile \<and> inRequestVolume tile)"

definition skipLevelOfDetail' :: "Cesium3DTileset \<Rightarrow> bool" where
  "skipLevelOfDetail' tileset = skipLevelOfDetail tileset"

definition addEmptyTile :: "Cesium3DTileset \<Rightarrow> tile_ref \<Rightarrow> Cesium3DTileset" where
  "addEmptyTile tileset t = tileset\<lparr>emptyTiles := emptyTiles tileset @ [t]\<rparr>"

definition selectTile :: "Cesium3DTileset \<Rightarrow> tile_ref \<Rightarrow> FrameState \<Rightarrow> Cesium3DTileset" where
  "selectTile tileset t frameState =
     (if tileContentVisibility frameState t \<noteq> OUTSIDE then
        (let ts1 =
               (if featurePropertiesDirty (tiles tileset t) then
                  (upd t (\<lambda>x. x\<lparr>featurePropertiesDirty := False, lastStyleTime := 0\<rparr>) tileset)
                    \<lparr>selectedTilesToStyle := selectedTilesToStyle tileset @ [t]\<rparr>
                else if selectedFrame (tiles tileset t) < frameNumber frameState - 1 then
                  tileset\<lparr>selectedTilesToStyle := selectedTilesToStyle tileset @ [t]\<rparr>
                else tileset);
             ts2 = upd t (\<lambda>x. x\<lparr>selectedFrame := frameNumber frameState\<rparr>) ts1
         in ts2\<lparr>selectedTiles := selectedTiles ts2 @ [t]\<rparr>)
      else tileset)"

definition visitTile :: "Cesium3DTileset \<Rightarrow> tile_ref \<Rightarrow> FrameState \<Rightarrow> Cesium3DTileset" where
  "visitTile tileset t frameState =
     upd t (\<lambda>x. x\<lparr>visitedFrame := frameNumber frameState\<rparr>)
       (tileset\<lparr>statisticsVisited := statisticsVisited tileset + 1\<rparr>)"

definition touchTile :: "Cesium3DTileset \<Rightarrow> tile_ref \<Rightarrow> FrameState \<Rightarrow> Cesium3DTileset" where
  "touchTile tileset t frameState =
     (if touchedFrame (tiles tileset t) = frameNumber frameState then tileset
      else upd t (\<lambda>x. x\<lparr>touchedFrame := frameNumber frameState\<rparr>)
             (tileset\<lparr>cacheTouched := cacheTouched tileset @ [t]\<rparr>))"

text \<open>
  Modelled from the spec: \<open>CesiumMath.clamp\<close> (Core/Math.js is not among the sources).
  The spec says the priority is "clamped to \<open>\<ge> 0\<close>" and the source's comment that "any
  negative z depth will get clamped to 0", so the lower bound is tested first.
\<close>

definition clamp :: "real \<Rightarrow> real \<Rightarrow> real \<Rightarrow> real" where
  "clamp v lo hi = (if v < lo then lo else if v > hi then hi else v)"

definition getPriority :: "Cesium3DTileset \<Rightarrow> Cesium3DTile \<Rightarrow> real" where
  "getPriority tileset tile =
     clamp (centerZDepth tile - boundingSphereRadius tile) 0 (centerZDepth tile)"

definition updateMinMaxPriority :: "Cesium3DTileset \<Rightarrow> tile_ref \<Rightarrow> Cesium3DTileset" where
  "updateMinMaxPriority tileset t =
     (let tile = tiles tileset t;
          holderDistance = priorityDistance (tiles tileset (priorityDistanceHolder tile));
          ts1 = tileset\<lparr>maxPriorityDistance := max holderDistance (maxPriorityDistance tileset)\<rparr>;
          ts2 = (if priorityDistance tile < minPriorityDistance ts1
                 then ts1\<lparr>minPriorityDistance := priorityDistance tile, minDistanceTile := Some t\<rparr>
                 else ts1);
          ts3 = (if holderDistance \<le> minPriorityDistance ts2
                 then ts2\<lparr>minPriorityHolder := Some t\<rparr>
                 else ts2)
      in ts3\<lparr>maxPriorityLevel := max (depth tile) (maxPriorityLevel ts3),
              minPriorityLevel := min (depth tile) (minPriorityLevel ts3)\<rparr>)"

definition hasEmptyContent' :: "Cesium3DTile \<Rightarrow> bool" where
  "hasEmptyContent' tile = (hasEmptyContent tile \<or> hasTilesetContent tile)"

definition hasUnloadedContent :: "Cesium3DTile \<Rightarrow> bool" where
  "hasUnloadedContent tile = (\<not> hasEmptyContent' tile \<and> contentUnloaded tile)"

definition loadTile :: "Cesium3DTileset \<Rightarrow> tile_ref \<Rightarrow> FrameState \<Rightarrow> Cesium3DTileset" where
  "loadTile tileset t frameState =
     (if hasUnloadedContent (tiles tileset t) \<or> contentExpired (tiles tileset t) then
        (let ts1 = upd t (\<lambda>x. x\<lparr>requestedFrame := frameNumber frameState\<rparr>) tileset;
             ts2 = updateMinMaxPriority ts1 t
         in ts2\<lparr>requestedTiles := requestedTiles ts2 @ [t]\<rparr>)
      else tileset)"

text \<open>
  Modelled from the spec: the tile method \<open>tile.updateVisibility(frameState)\<close>
  (Cesium3DTile.js is not among the sources) "sets visible, inRequestVolume". The call is
  recorded in \<open>visibilityUpdates\<close>.
\<close>

definition tile_updateVisibility :: "Cesium3DTileset \<Rightarrow> tile_ref \<Rightarrow> FrameState \<Rightarrow> Cesium3DTileset" where
  "tile_updateVisibility tileset t frameState =
     upd t (\<lambda>x. x\<lparr>visible := tileVisible frameState t,
                   inRequestVolume := tileInRequestVolume frameState t\<rparr>)
       (tileset\<lparr>visibilityUpdates := visibilityUpdates tileset @ [t]\<rparr>)"

text \<open>
  Modelled from the spec: the tile method \<open>tile.updateExpiration()\<close> (Cesium3DTile.js) is
  the tile's "expiration refresh"; the availability flags of a tile are read as the
  frame's inputs, so it leaves the modelled fields as they are.
\<close>

definition tile_updateExpiration :: "Cesium3DTileset \<Rightarrow> tile_ref \<Rightarrow> Cesium3DTileset" where
  "tile_updateExpiration tileset t = tileset"

text \<open>The memoizing helper of the source; no function that \<open>selectTiles\<close> reaches calls it.\<close>

definition updateVisibility :: "Cesium3DTileset \<Rightarrow> tile_ref \<Rightarrow> FrameState \<Rightarrow> Cesium3DTileset" where
  "updateVisibility tileset t frameState =
     (if updatedVisibilityFrame (tiles tileset t) = tilesetUpdatedVisibilityFrame tileset
      then tileset
      else upd t (\<lambda>x. x\<lparr>updatedVisibilityFrame := tilesetUpdatedVisibilityFrame tileset\<rparr>)
             (tile_updateVisibility tileset t frameState))"

text \<open>
  \<open>updateTile\<close>. The three alpha-blending counters that the source resets here are
  written and never read in this file; they are not part of the tile record.
\<close>

definition updateTile :: "Cesium3DTileset \<Rightarrow> tile_ref \<Rightarrow> FrameState \<Rightarrow> Cesium3DTileset" where
  "updateTile tileset t frameState =
     (let ts1 = tile_updateVisibility tileset t frameState;
          ts2 = upd t (\<lambda>x. x\<lparr>priorityDistance := getPriority ts1 x\<rparr>) ts1;
          ts3 = upd t (\<lambda>x. x\<lparr>priorityDistanceHolder := t\<rparr>) ts2;
          ts4 = tile_updateExpiration ts3 t
      in upd t (\<lambda>x. x\<lparr>wasMinChild := False, shouldSelect := False, finalResolution := True\<rparr>) ts4)"

definition updateTileAncestorContentLinks :: "Cesium3DTileset \<Rightarrow> tile_ref \<Rightarrow> FrameState \<Rightarrow> Cesium3DTileset" where
  "updateTileAncestorContentLinks tileset t frameState =
     (case parent (tiles tileset t) of
        None \<Rightarrow> upd t (\<lambda>x. x\<lparr>ancestorWithContent := None, ancestorWithContentAvailable := None\<rparr>) tileset
      | Some p \<Rightarrow>
          (let par = tiles tileset p;
               hasContent = (\<not> hasUnloadedContent par \<or> requestedFrame par = frameNumber frameState)
           in upd t (\<lambda>x. x\<lparr>ancestorWithContent := (if hasContent then Some p else ancestorWithContent par),
                             ancestorWithContentAvailable :=
                               (if contentAvailable par then Some p else ancestorWithContentAvailable par)\<rparr>)
                tileset))"

text \<open>
  \<open>tile._screenSpaceError < ancestor._screenSpaceError / tileset.skipScreenSpaceErrorFactor\<close>.
  A JavaScript division by zero gives an infinity or NaN where HOL gives 0; that case is
  written out (a finite number is below \<open>+Infinity\<close> only).
\<close>

definition belowQuotient :: "real \<Rightarrow> real \<Rightarrow> real \<Rightarrow> bool" where
  "belowQuotient x a f = (if f = 0 then 0 < a else x < a / f)"

definition reachedSkippingThreshold :: "Cesium3DTileset \<Rightarrow> Cesium3DTile \<Rightarrow> bool" where
  "reachedSkippingThreshold tileset tile =
     (case ancestorWithContent tile of
        None \<Rightarrow> False
      | Some a \<Rightarrow>
          \<not> immediatelyLoadDesiredLevelOfDetail tileset \<and>
          belowQuotient (screenSpaceError tile) (screenSpaceError (tiles tileset a))
            (skipScreenSpaceErrorFactor tileset) \<and>
          depth tile > depth (tiles tileset a) + skipLevels tileset)"

definition sortChildrenByDistanceToCamera :: "Cesium3DTile \<Rightarrow> Cesium3DTile \<Rightarrow> real" where
  "sortChildrenByDistanceToCamera a b =
     (if distanceToCamera b = 0 \<and> distanceToCamera a = 0
      then centerZDepth b - centerZDepth a
      else distanceToCamera b - distanceToCamera a)"

text \<open>
  \<open>Array.prototype.sort\<close> with a comparator: a stable sort (ECMAScript 2019), here by
  insertion. \<open>x\<close> goes before the first \<open>y\<close> with \<open>cmp x y \<le> 0\<close>.
\<close>

fun insertBy :: "('a \<Rightarrow> 'a \<Rightarrow> real) \<Rightarrow> 'a \<Rightarrow> 'a list \<Rightarrow> 'a list" where
  "insertBy cmp x [] = [x]"
| "insertBy cmp x (y # ys) = (if cmp x y \<le> 0 then x # y # ys else y # insertBy cmp x ys)"

definition sortBy :: "('a \<Rightarrow> 'a \<Rightarrow> real) \<Rightarrow> 'a list \<Rightarrow> 'a list" where
  "sortBy cmp xs = foldr (insertBy cmp) xs []"

definition canTraverse :: "Cesium3DTileset \<Rightarrow> Cesium3DTile \<Rightarrow> bool" where
  "canTraverse tileset tile =
     (if length (children tile) = 0 then False
      else if hasTilesetContent tile then \<not> contentExpired tile
      else screenSpaceError tile > maximumScreenSpaceError tileset)"

text \<open>
  \<open>inBaseTraversal\<close> reads \<open>tile.parent._screenSpaceError\<close>: with no parent the source
  throws a TypeError, which is the result \<open>None\<close>.
\<close>

definition inBaseTraversal :: "Cesium3DTileset \<Rightarrow> Cesium3DTile \<Rightarrow> real \<Rightarrow> bool option" where
  "inBaseTraversal tileset tile baseSSE =
     (if \<not> skipLevelOfDetail' tileset then Some True
      else if immediatelyLoadDesiredLevelOfDetail tileset then Some False
      else if ancestorWithContent tile = None then Some True
      else if screenSpaceError tile = 0 then
        (case parent tile of
           None \<Rightarrow> None
         | Some p \<Rightarrow> Some (screenSpaceError (tiles tileset p) > baseSSE))
      else Some (screenSpaceError tile > baseSSE))"

subsection \<open>Loops\<close>

text \<open>
  The traversal stacks are lists with the top at the head: \<open>push\<close> is \<open>#\<close>, \<open>pop\<close> takes
  the head, and pushing the children in index order leaves the last child on top. Each
  \<open>while\<close> loop is a recursive function with a bound on its iterations; a loop that
  needs more, and a call that throws, give \<open>None\<close>. The bound \<open>N\<close> of the nested loops is
  passed through unchanged. The high-water marks of the stacks (\<open>stackMaximumLength\<close>,
  used to trim the backing arrays) are not modelled.
\<close>

fun executeEmptyTraversal_loop ::
  "nat \<Rightarrow> FrameState \<Rightarrow> tile_ref list \<Rightarrow> bool \<Rightarrow> Cesium3DTileset \<Rightarrow> (bool \<times> Cesium3DTileset) option" where
  "executeEmptyTraversal_loop n frameState [] allDescendantsLoaded tileset =
     Some (allDescendantsLoaded, tileset)"
| "executeEmptyTraversal_loop 0 frameState (t # stack) allDescendantsLoaded tileset = None"
| "executeEmptyTraversal_loop (Suc n) frameState (t # stack) allDescendantsLoaded tileset =
     (let tile = tiles tileset t;
          cs = children tile;
          traverse = (hasEmptyContent' tile \<and> canTraverse tileset tile);
          allDescendantsLoaded' =
            (if \<not> traverse \<and> \<not> contentAvailable tile then False else allDescendantsLoaded);
          ts1 = updateTile tileset t frameState;
          ts2 = (if \<not> isVisible (tiles ts1 t)
                 then touchTile (loadTile ts1 t frameState) t frameState
                 else ts1);
          stack' = (if traverse then rev cs @ stack else stack)
      in executeEmptyTraversal_loop n frameState stack' allDescendantsLoaded' ts2)"

definition executeEmptyTraversal ::
  "nat \<Rightarrow> Cesium3DTileset \<Rightarrow> tile_ref \<Rightarrow> FrameState \<Rightarrow> (bool \<times> Cesium3DTileset) option" where
  "executeEmptyTraversal N tileset r frameState =
     executeEmptyTraversal_loop N frameState [r] True tileset"

definition descendantSelectionDepth :: int where
  "descendantSelectionDepth = 2"

fun selectDescendants_children ::
  "Cesium3DTileset \<Rightarrow> tile_ref \<Rightarrow> FrameState \<Rightarrow> tile_ref list \<Rightarrow> tile_ref list
    \<Rightarrow> tile_ref list \<times> Cesium3DTileset" where
  "selectDescendants_children tileset r frameState [] stack = (stack, tileset)"
| "selectDescendants_children tileset r frameState (c # cs) stack =
     (if isVisible (tiles tileset c) then
        (if contentAvailable (tiles tileset c) then
           selectDescendants_children
             (selectTile (touchTile (updateTile tileset c frameState) c frameState) c frameState)
             r frameState cs stack
         else if depth (tiles tileset c) - depth (tiles tileset r) < descendantSelectionDepth then
           selectDescendants_children tileset r frameState cs (c # stack)
         else selectDescendants_children tileset r frameState cs stack)
      else selectDescendants_children tileset r frameState cs stack)"

fun selectDescendants_loop ::
  "nat \<Rightarrow> tile_ref \<Rightarrow> FrameState \<Rightarrow> tile_ref list \<Rightarrow> Cesium3DTileset \<Rightarrow> Cesium3DTileset option" where
  "selectDescendants_loop n r frameState [] tileset = Some tileset"
| "selectDescendants_loop 0 r frameState (t # stack) tileset = None"
| "selectDescendants_loop (Suc n) r frameState (t # stack) tileset =
     (case selectDescendants_children tileset r frameState (children (tiles tileset t)) stack of
        (stack', ts1) \<Rightarrow> selectDescendants_loop n r frameState stack' ts1)"

definition selectDescendants ::
  "nat \<Rightarrow> Cesium3DTileset \<Rightarrow> tile_ref \<Rightarrow> FrameState \<Rightarrow> Cesium3DTileset option" where
  "selectDescendants N tileset r frameState =
     selectDescendants_loop N r frameState [r] tileset"

definition selectDesiredTile ::
  "nat \<Rightarrow> Cesium3DTileset \<Rightarrow> tile_ref \<Rightarrow> FrameState \<Rightarrow> Cesium3DTileset option" where
  "selectDesiredTile N tileset t frameState =
     (if \<not> skipLevelOfDetail' tileset then
        (if contentAvailable (tiles tileset t)
         then Some (selectTile tileset t frameState)
         else Some tileset)
      else
        (case (if contentAvailable (tiles tileset t) then Some t
               else ancestorWithContentAvailable (tiles tileset t)) of
           Some loadedTile \<Rightarrow> Some (upd loadedTile (\<lambda>x. x\<lparr>shouldSelect := True\<rparr>) tileset)
         | None \<Rightarrow> selectDescendants N tileset t frameState))"

text \<open>The local variables of the second loop of \<open>updateAndPushChildren\<close>.\<close>

record PushState =
  stackOf :: "tile_ref list"
  refinesOf :: bool
  anyChildrenVisible :: bool
  minIndex :: int
  minDistancePriority :: real

definition trackMinimum :: "Cesium3DTile \<Rightarrow> int \<Rightarrow> PushState \<Rightarrow> PushState" where
  "trackMinimum child i st =
     (if priorityDistance child < minDistancePriority st
      then st\<lparr>minIndex := i, minDistancePriority := priorityDistance child\<rparr>
      else st)"

fun updateAndPushChildren_loop ::
  "nat \<Rightarrow> FrameState \<Rightarrow> bool \<Rightarrow> tile_ref list \<Rightarrow> int \<Rightarrow> PushState \<Rightarrow> Cesium3DTileset
    \<Rightarrow> (PushState \<times> Cesium3DTileset) option" where
  "updateAndPushChildren_loop N frameState checkRefines [] i st tileset = Some (st, tileset)"
| "updateAndPushChildren_loop N frameState checkRefines (c # cs) i st tileset =
     (let (st1, ts1) =
            (if isVisible (tiles tileset c) then
               ((trackMinimum (tiles tileset c) i (st\<lparr>stackOf := c # stackOf st\<rparr>))
                  \<lparr>anyChildrenVisible := True\<rparr>,
                tileset)
             else if checkRefines \<or> loadSiblings tileset then
               (trackMinimum (tiles tileset c) i st,
                touchTile (loadTile tileset c frameState) c frameState)
             else (st, tileset))
      in if checkRefines then
           (case (if \<not> inRequestVolume (tiles ts1 c) then Some (False, ts1)
                  else if hasEmptyContent' (tiles ts1 c) then executeEmptyTraversal N ts1 c frameState
                  else Some (contentAvailable (tiles ts1 c), ts1)) of
              None \<Rightarrow> None
            | Some (childRefines, ts2) \<Rightarrow>
                updateAndPushChildren_loop N frameState checkRefines cs (i + 1)
                  (st1\<lparr>refinesOf := (refinesOf st1 \<and> childRefines)\<rparr>) ts2)
         else updateAndPushChildren_loop N frameState checkRefines cs (i + 1) st1 ts1)"

definition linkPriorityHolder :: "Cesium3DTileset \<Rightarrow> tile_ref \<Rightarrow> int \<Rightarrow> Cesium3DTileset" where
  "linkPriorityHolder tileset t minIdx =
     (if minIdx \<noteq> - 1 then
        (let cs = children (tiles tileset t);
             minPriorityChild = cs ! nat minIdx;
             ts1 = upd minPriorityChild (\<lambda>x. x\<lparr>wasMinChild := True\<rparr>) tileset;
             priorityHolder =
               (if wasMinChild (tiles ts1 t) \<or> t = rootTile ts1
                then priorityDistanceHolder (tiles ts1 t) else t);
             ts2 = upd priorityHolder
                     (\<lambda>x. x\<lparr>priorityDistance := priorityDistance (tiles ts1 minPriorityChild)\<rparr>) ts1
         in foldl (\<lambda>ts c. upd c (\<lambda>x. x\<lparr>priorityDistanceHolder := priorityHolder\<rparr>) ts) ts2 cs)
      else tileset)"

definition updateAndPushChildren ::
  "nat \<Rightarrow> Cesium3DTileset \<Rightarrow> tile_ref \<Rightarrow> tile_ref list \<Rightarrow> FrameState
    \<Rightarrow> (bool \<times> tile_ref list \<times> Cesium3DTileset) option" where
  "updateAndPushChildren N tileset t stack frameState =
     (let replace = (refine (tiles tileset t) = REPLACE);
          ts1 = foldl (\<lambda>ts c. updateTile ts c frameState) tileset (children (tiles tileset t));
          sorted = sortBy (\<lambda>a b. sortChildrenByDistanceToCamera (tiles ts1 a) (tiles ts1 b))
                     (children (tiles ts1 t));
          ts2 = upd t (\<lambda>x. x\<lparr>children := sorted\<rparr>) ts1;
          checkRefines = (\<not> skipLevelOfDetail' ts2 \<and> replace \<and> \<not> hasEmptyContent' (tiles ts2 t))
      in case updateAndPushChildren_loop N frameState checkRefines sorted 0
                \<lparr>stackOf = stack, refinesOf = True, anyChildrenVisible = False,
                 minIndex = - 1, minDistancePriority = Number_MAX_VALUE\<rparr> ts2 of
           None \<Rightarrow> None
         | Some (st, ts3) \<Rightarrow>
             Some (if \<not> anyChildrenVisible st then False else refinesOf st,
                   stackOf st,
                   linkPriorityHolder ts3 t (minIndex st)))"

text \<open>One iteration of the loop of \<open>executeTraversal\<close>, for the tile \<open>t\<close> that was popped.\<close>

definition executeTraversal_visit ::
  "nat \<Rightarrow> Cesium3DTileset \<Rightarrow> tile_ref \<Rightarrow> real \<Rightarrow> FrameState \<Rightarrow> tile_ref list
    \<Rightarrow> (tile_ref list \<times> Cesium3DTileset) option" where
  "executeTraversal_visit N tileset t baseSSE frameState stack =
     (let ts1 = updateTileAncestorContentLinks tileset t frameState in
      case inBaseTraversal ts1 (tiles ts1 t) baseSSE of
        None \<Rightarrow> None
      | Some baseTraversal \<Rightarrow>
     (let add = (refine (tiles ts1 t) = ADD);
          replace = (refine (tiles ts1 t) = REPLACE);
          parentRefines = (case parent (tiles ts1 t) of None \<Rightarrow> True | Some p \<Rightarrow> refines (tiles ts1 p)) in
      case (if canTraverse ts1 (tiles ts1 t)
            then map_option (\<lambda>(r, stack', ts'). (r \<and> parentRefines, stack', ts'))
                   (updateAndPushChildren N ts1 t stack frameState)
            else Some (False, stack, ts1)) of
        None \<Rightarrow> None
      | Some (refs, stack2, ts2) \<Rightarrow>
     (let stoppedRefining = (\<not> refs \<and> parentRefines) in
      case (if hasEmptyContent' (tiles ts2 t) then
              (let ts3 = loadTile (addEmptyTile ts2 t) t frameState
               in if stoppedRefining then selectDesiredTile N ts3 t frameState else Some ts3)
            else if add then
              map_option (\<lambda>ts3. loadTile ts3 t frameState) (selectDesiredTile N ts2 t frameState)
            else if replace then
              (if baseTraversal then
                 (let ts3 = loadTile ts2 t frameState
                  in if stoppedRefining then selectDesiredTile N ts3 t frameState else Some ts3)
               else if stoppedRefining then
                 map_option (\<lambda>ts3. loadTile ts3 t frameState) (selectDesiredTile N ts2 t frameState)
               else if reachedSkippingThreshold ts2 (tiles ts2 t) then
                 Some (loadTile ts2 t frameState)
               else Some ts2)
            else Some ts2) of
        None \<Rightarrow> None
      | Some ts4 \<Rightarrow>
          Some (stack2,
                upd t (\<lambda>x. x\<lparr>refines := refs\<rparr>)
                  (touchTile (visitTile ts4 t frameState) t frameState)))))"

fun executeTraversal_loop ::
  "nat \<Rightarrow> nat \<Rightarrow> real \<Rightarrow> FrameState \<Rightarrow> tile_ref list \<Rightarrow> Cesium3DTileset \<Rightarrow> Cesium3DTileset option" where
  "executeTraversal_loop n N baseSSE frameState [] tileset = Some tileset"
| "executeTraversal_loop 0 N baseSSE frameState (t # stack) tileset = None"
| "executeTraversal_loop (Suc n) N baseSSE frameState (t # stack) tileset =
     (case executeTraversal_visit N tileset t baseSSE frameState stack of
        None \<Rightarrow> None
      | Some (stack', ts1) \<Rightarrow> executeTraversal_loop n N baseSSE frameState stack' ts1)"

text \<open>The parameter \<open>maximumScreenSpaceError\<close> of the source is never read.\<close>

definition executeTraversal ::
  "nat \<Rightarrow> Cesium3DTileset \<Rightarrow> tile_ref \<Rightarrow> real \<Rightarrow> real \<Rightarrow> FrameState \<Rightarrow> Cesium3DTileset option" where
  "executeTraversal N tileset r baseSSE maxSSE frameState =
     executeTraversal_loop N N baseSSE frameState [r] tileset"

text \<open>
  One iteration of the loop of \<open>traverseAndSelect\<close>: the stack, the ancestor stack and
  \<open>lastAncestor\<close> after it. \<open>ManagedArray.pop\<close> of an empty stack gives \<open>undefined\<close>.
\<close>

definition traverseAndSelect_step ::
  "FrameState \<Rightarrow> tile_ref list \<Rightarrow> tile_ref list \<Rightarrow> tile_ref option \<Rightarrow> Cesium3DTileset
    \<Rightarrow> tile_ref list \<times> tile_ref list \<times> tile_ref option \<times> Cesium3DTileset" where
  "traverseAndSelect_step frameState stack ancestorStack lastAncestor tileset =
     (if ancestorStack \<noteq> [] \<and> stackLength (tiles tileset (hd ancestorStack)) = length stack then
        (let waitingTile = hd ancestorStack;
             ts1 = (if Some waitingTile \<noteq> lastAncestor
                    then upd waitingTile (\<lambda>x. x\<lparr>finalResolution := False\<rparr>) tileset
                    else tileset)
         in (stack, tl ancestorStack, lastAncestor, selectTile ts1 waitingTile frameState))
      else
        (case stack of
           [] \<Rightarrow> (stack, ancestorStack, lastAncestor, tileset)
         | t # rest \<Rightarrow>
             (let tile = tiles tileset t;
                  add = (refine tile = ADD);
                  cs = children tile;
                  traverse = canTraverse tileset tile;
                  pushed = (if traverse
                            then rev (filter (\<lambda>c. isVisible (tiles tileset c)) cs) @ rest
                            else rest)
              in if shouldSelect tile then
                   (if add then (pushed, ancestorStack, lastAncestor, selectTile tileset t frameState)
                    else
                      (let ts1 = upd t (\<lambda>x. x\<lparr>selectionDepth := length ancestorStack\<rparr>) tileset;
                           ts2 = (if selectionDepth (tiles ts1 t) > 0
                                  then ts1\<lparr>hasMixedContent := True\<rparr> else ts1)
                       in if \<not> traverse then
                            (rest, ancestorStack, Some t, selectTile ts2 t frameState)
                          else
                            (pushed, t # ancestorStack, Some t,
                             upd t (\<lambda>x. x\<lparr>stackLength := length rest\<rparr>) ts2)))
                 else (pushed, ancestorStack, lastAncestor, tileset))))"

fun traverseAndSelect_loop ::
  "nat \<Rightarrow> FrameState \<Rightarrow> tile_ref list \<Rightarrow> tile_ref list \<Rightarrow> tile_ref option \<Rightarrow> Cesium3DTileset
    \<Rightarrow> Cesium3DTileset option" where
  "traverseAndSelect_loop 0 frameState stack ancestorStack lastAncestor tileset =
     (if stack = [] \<and> ancestorStack = [] then Some tileset else None)"
| "traverseAndSelect_loop (Suc n) frameState stack ancestorStack lastAncestor tileset =
     (if stack = [] \<and> ancestorStack = [] then Some tileset
      else
        (case traverseAndSelect_step frameState stack ancestorStack lastAncestor tileset of
           (stack', ancestorStack', lastAncestor', ts1) \<Rightarrow>
             traverseAndSelect_loop n frameState stack' ancestorStack' lastAncestor' ts1))"

definition traverseAndSelect ::
  "nat \<Rightarrow> Cesium3DTileset \<Rightarrow> tile_ref \<Rightarrow> FrameState \<Rightarrow> Cesium3DTileset option" where
  "traverseAndSelect N tileset r frameState =
     traverseAndSelect_loop N frameState [r] [] None tileset"

definition executeBaseTraversal ::
  "nat \<Rightarrow> Cesium3DTileset \<Rightarrow> tile_ref \<Rightarrow> FrameState \<Rightarrow> Cesium3DTileset option" where
  "executeBaseTraversal N tileset r frameState =
     executeTraversal N tileset r (maximumScreenSpaceError tileset)
       (maximumScreenSpaceError tileset) frameState"

definition executeSkipTraversal ::
  "nat \<Rightarrow> Cesium3DTileset \<Rightarrow> tile_ref \<Rightarrow> FrameState \<Rightarrow> Cesium3DTileset option" where
  "executeSkipTraversal N tileset r frameState =
     (case executeTraversal N tileset r Number_MAX_VALUE (maximumScreenSpaceError tileset) frameState of
        None \<Rightarrow> None
      | Some ts1 \<Rightarrow> traverseAndSelect N ts1 r frameState)"

definition executeBaseAndSkipTraversal ::
  "nat \<Rightarrow> Cesium3DTileset \<Rightarrow> tile_ref \<Rightarrow> FrameState \<Rightarrow> Cesium3DTileset option" where
  "executeBaseAndSkipTraversal N tileset r frameState =
     (case executeTraversal N tileset r
             (max (baseScreenSpaceError tileset) (maximumScreenSpaceError tileset))
             (maximumScreenSpaceError tileset) frameState of
        None \<Rightarrow> None
      | Some ts1 \<Rightarrow> traverseAndSelect N ts1 r frameState)"

text \<open>
  \<open>selectTiles\<close> returns \<open>true\<close> at its end and nothing (\<open>undefined\<close>) at its three early
  returns. \<open>tileset._heatmap.resetMinMax()\<close> and the trimming of the stacks act on
  objects outside this model.
\<close>

datatype ReturnValue = Undefined | ReturnTrue

definition selectTiles ::
  "nat \<Rightarrow> Cesium3DTileset \<Rightarrow> FrameState \<Rightarrow> (ReturnValue \<times> Cesium3DTileset) option" where
  "selectTiles N tileset frameState =
     (let ts0 = tileset\<lparr>requestedTiles := []\<rparr> in
      if debugFreezeFrame ts0 then Some (Undefined, ts0)
      else
        (let ts1 = ts0\<lparr>selectedTiles := [], selectedTilesToStyle := [], emptyTiles := [],
                       hasMixedContent := False\<rparr>;
             r = rootTile ts1;
             ts2 = updateTile ts1 r frameState
         in if \<not> isVisible (tiles ts2 r) then Some (Undefined, ts2)
            else if tileScreenSpaceErrorWithParentError frameState r \<le> maximumScreenSpaceError ts2
            then Some (Undefined, ts2)
            else map_option (Pair ReturnTrue)
                   (if \<not> skipLevelOfDetail' ts2 then executeBaseTraversal N ts2 r frameState
                    else if immediatelyLoadDesiredLevelOfDetail ts2
                    then executeSkipTraversal N ts2 r frameState
                    else executeBaseAndSkipTraversal N ts2 r frameState)))"

section \<open>Example tilesets\<close>

text \<open>
  A loaded REPLACE leaf with screen-space error 8, ten units in front of the camera, and
  a tileset in base mode with \<open>maximumScreenSpaceError = 16\<close> whose store holds that tile
  at every reference. The examples below change the fields they need.
\<close>

definition leafTile :: Cesium3DTile where
  "leafTile =
     \<lparr>parent = None, children = [], depth = 0, refine = REPLACE,
      hasEmptyContent = False, hasTilesetContent = False,
      contentUnloaded = False, contentAvailable = True, contentExpired = False,
      featurePropertiesDirty = False,
      boundingSphereRadius = 1, distanceToCamera = 10, centerZDepth = 10, screenSpaceError = 8,
      visible = False, inRequestVolume = False, updatedVisibilityFrame = 0,
      priorityDistance = 0, priorityDistanceHolder = 0, wasMinChild = False, refines = False,
      finalResolution = True, shouldSelect = False, selectionDepth = 0, stackLength = 0,
      ancestorWithContent = None, ancestorWithContentAvailable = None,
      visitedFrame = 0, touchedFrame = 0, selectedFrame = 0, requestedFrame = 0,
      lastStyleTime = 0\<rparr>"

definition baseTileset :: "(tile_ref \<Rightarrow> Cesium3DTile) \<Rightarrow> Cesium3DTileset" where
  "baseTileset store =
     \<lparr>tiles = store, rootTile = 0, maximumScreenSpaceError = 16, baseScreenSpaceError = 1024,
      skipLevelOfDetail = False, immediatelyLoadDesiredLevelOfDetail = False,
      skipScreenSpaceErrorFactor = 16, skipLevels = 1, loadSiblings = False,
      debugFreezeFrame = False, tilesetUpdatedVisibilityFrame = 1,
      selectedTiles = [], selectedTilesToStyle = [], requestedTiles = [], emptyTiles = [],
      hasMixedContent = False, statisticsVisited = 0, cacheTouched = [], visibilityUpdates = [],
      maxPriorityDistance = 0, maxPriorityLevel = 0, minPriorityDistance = 0, minPriorityLevel = 0,
      minDistanceTile = None, minPriorityHolder = None\<rparr>"

text \<open>Frame 5, in which every tile is visible, in the request volume and content-visible.\<close>

definition allVisible :: "(tile_ref \<Rightarrow> real) \<Rightarrow> FrameState" where
  "allVisible sse =
     \<lparr>frameNumber = 5, tileVisible = (\<lambda>t. True), tileInRequestVolume = (\<lambda>t. True),
      tileContentVisibility = (\<lambda>t. INSIDE), tileScreenSpaceErrorWithParentError = sse\<rparr>"

definition tileOf :: "tile_ref \<Rightarrow> ReturnValue \<times> Cesium3DTileset \<Rightarrow> Cesium3DTile" where
  "tileOf t res = tiles (snd res) t"

text \<open>
  A loaded root (0) over an empty tile (1) over an unloaded tile (2), with \<open>loadSiblings\<close>
  on; in the frame \<open>hiddenGrandchild\<close> tile 2 is outside the frustum.
\<close>

definition emptySubtreeTileset :: Cesium3DTileset where
  "emptySubtreeTileset =
     (baseTileset ((\<lambda>t. leafTile)
        (0 := leafTile\<lparr>children := [1], screenSpaceError := 32\<rparr>,
         1 := leafTile\<lparr>parent := Some 0, depth := 1, children := [2], screenSpaceError := 32,
                        hasEmptyContent := True, contentAvailable := False\<rparr>,
         2 := leafTile\<lparr>parent := Some 1, depth := 2, contentAvailable := False,
                        contentUnloaded := True\<rparr>)))\<lparr>loadSiblings := True\<rparr>"

definition hiddenGrandchild :: FrameState where
  "hiddenGrandchild = (allVisible (\<lambda>t. 64))\<lparr>tileVisible := (\<lambda>t. t \<noteq> 2)\<rparr>"

text \<open>A loaded root (0) with one empty leaf child (1).\<close>

definition emptyChildTileset :: Cesium3DTileset where
  "emptyChildTileset =
     baseTileset ((\<lambda>t. leafTile)
        (0 := leafTile\<lparr>children := [1], screenSpaceError := 32\<rparr>,
         1 := leafTile\<lparr>parent := Some 0, depth := 1, hasEmptyContent := True,
                        contentAvailable := False\<rparr>))"

text \<open>
  Root 0 with the children 1 (near, priority 3) and 2 (far, priority 7); tile 1 refines
  into tile 3 (priority 8). All tiles are loaded.
\<close>

definition chainTileset :: Cesium3DTileset where
  "chainTileset =
     baseTileset ((\<lambda>t. leafTile)
        (0 := leafTile\<lparr>children := [1, 2], screenSpaceError := 32\<rparr>,
         1 := leafTile\<lparr>parent := Some 0, depth := 1, children := [3], screenSpaceError := 32,
                        centerZDepth := 4, distanceToCamera := 3\<rparr>,
         2 := leafTile\<lparr>parent := Some 0, depth := 1, centerZDepth := 8, distanceToCamera := 7\<rparr>,
         3 := leafTile\<lparr>parent := Some 1, depth := 2, centerZDepth := 9, distanceToCamera := 8\<rparr>))"

text \<open>
  Skip-only mode: a loaded REPLACE root (0) with a loaded ADD leaf (1) and an unloaded
  REPLACE leaf (2).
\<close>

definition mixedSkipTileset :: Cesium3DTileset where
  "mixedSkipTileset =
     (baseTileset ((\<lambda>t. leafTile)
        (0 := leafTile\<lparr>children := [1, 2], screenSpaceError := 32\<rparr>,
         1 := leafTile\<lparr>parent := Some 0, depth := 1, refine := ADD\<rparr>,
         2 := leafTile\<lparr>parent := Some 0, depth := 1, contentAvailable := False,
                        contentUnloaded := True\<rparr>)))
       \<lparr>skipLevelOfDetail := True, immediatelyLoadDesiredLevelOfDetail := True\<rparr>"

text \<open>
  Base mode: a loaded REPLACE root (0) with a loaded ADD leaf (1) and a REPLACE leaf (2)
  whose content is still loading (neither unloaded nor available).
\<close>

definition loadingChildTileset :: Cesium3DTileset where
  "loadingChildTileset =
     baseTileset ((\<lambda>t. leafTile)
        (0 := leafTile\<lparr>children := [1, 2], screenSpaceError := 32\<rparr>,
         1 := leafTile\<lparr>parent := Some 0, depth := 1, refine := ADD\<rparr>,
         2 := leafTile\<lparr>parent := Some 0, depth := 1, contentAvailable := False\<rparr>))"

section \<open>Notions used in the statements\<close>

text \<open>The configuration of a tileset: the fields that a traversal reads and never writes.\<close>

definition config ::
  "Cesium3DTileset \<Rightarrow> tile_ref \<times> real \<times> real \<times> bool \<times> bool \<times> real \<times> int \<times> bool" where
  "config ts = (rootTile ts, maximumScreenSpaceError ts, baseScreenSpaceError ts,
     skipLevelOfDetail ts, immediatelyLoadDesiredLevelOfDetail ts,
     skipScreenSpaceErrorFactor ts, skipLevels ts, loadSiblings ts)"

definition static ::
  "Cesium3DTile \<Rightarrow> nat option \<times> int \<times> Cesium3DTileRefine \<times> bool \<times> bool \<times> bool \<times> bool \<times> bool \<times> real \<times> real \<times> real \<times> real" where
  "static x = (parent x, depth x, refine x, hasEmptyContent x, hasTilesetContent x,
     contentUnloaded x, contentAvailable x, contentExpired x, boundingSphereRadius x,
     distanceToCamera x, centerZDepth x, screenSpaceError x)"

definition frame :: "Cesium3DTileset \<Rightarrow> Cesium3DTileset \<Rightarrow> bool" where
  "frame ts ts' \<longleftrightarrow>
     config ts' = config ts \<and>
     (\<forall>t. static (tiles ts' t) = static (tiles ts t) \<and>
          mset (children (tiles ts' t)) = mset (children (tiles ts t)))"

definition subtreeBound :: "(tile_ref \<Rightarrow> Cesium3DTile) \<Rightarrow> (tile_ref \<Rightarrow> nat) \<Rightarrow> bool" where
  "subtreeBound store w \<longleftrightarrow> (\<forall>t. sum_list (map w (children (store t))) < w t)"

definition emptyTraverses :: "Cesium3DTileset \<Rightarrow> tile_ref \<Rightarrow> bool" where
  "emptyTraverses ts t \<longleftrightarrow> hasEmptyContent' (tiles ts t) \<and> canTraverse ts (tiles ts t)"

inductive_set emptyVisited :: "Cesium3DTileset \<Rightarrow> tile_ref set \<Rightarrow> tile_ref set"
  for ts :: Cesium3DTileset and S :: "tile_ref set" where
  start: "r \<in> S \<Longrightarrow> r \<in> emptyVisited ts S"
| child: "t \<in> emptyVisited ts S \<Longrightarrow> emptyTraverses ts t \<Longrightarrow> c \<in> set (children (tiles ts t))
          \<Longrightarrow> c \<in> emptyVisited ts S"

definition executeEmptyTraversal_visit :: "Cesium3DTileset \<Rightarrow> tile_ref \<Rightarrow> FrameState \<Rightarrow> Cesium3DTileset" where
  "executeEmptyTraversal_visit ts t fs =
     (if \<not> isVisible (tiles (updateTile ts t fs) t)
      then touchTile (loadTile (updateTile ts t fs) t fs) t fs
      else updateTile ts t fs)"

definition fresh :: "FrameState \<Rightarrow> Cesium3DTileset \<Rightarrow> tile_ref \<Rightarrow> bool" where
  "fresh fs ts x \<longleftrightarrow>
     visible (tiles ts x) = tileVisible fs x \<and> inRequestVolume (tiles ts x) = tileInRequestVolume fs x"

definition shown :: "FrameState \<Rightarrow> tile_ref \<Rightarrow> bool" where
  "shown fs c \<longleftrightarrow> tileVisible fs c \<and> tileInRequestVolume fs c"

definition emptySubtreeLoaded :: "Cesium3DTileset \<Rightarrow> tile_ref \<Rightarrow> bool" where
  "emptySubtreeLoaded ts r \<longleftrightarrow>
     (\<forall>t\<in>emptyVisited ts {r}. \<not> emptyTraverses ts t \<longrightarrow> contentAvailable (tiles ts t))"

definition childRefines :: "Cesium3DTileset \<Rightarrow> FrameState \<Rightarrow> tile_ref \<Rightarrow> bool" where
  "childRefines ts fs c \<longleftrightarrow>
     tileInRequestVolume fs c \<and>
     (if hasEmptyContent' (tiles ts c) then emptySubtreeLoaded ts c
      else contentAvailable (tiles ts c))"

definition pushChild ::
  "FrameState \<Rightarrow> bool \<Rightarrow> tile_ref \<Rightarrow> int \<Rightarrow> PushState \<Rightarrow> Cesium3DTileset \<Rightarrow> PushState \<times> Cesium3DTileset" where
  "pushChild fs chk c i st ts =
     (if isVisible (tiles ts c) then
        ((trackMinimum (tiles ts c) i (st\<lparr>stackOf := c # stackOf st\<rparr>))\<lparr>anyChildrenVisible := True\<rparr>, ts)
      else if chk \<or> loadSiblings ts then
        (trackMinimum (tiles ts c) i st, touchTile (loadTile ts c fs) c fs)
      else (st, ts))"

definition refineCheck ::
  "nat \<Rightarrow> FrameState \<Rightarrow> tile_ref \<Rightarrow> Cesium3DTileset \<Rightarrow> (bool \<times> Cesium3DTileset) option" where
  "refineCheck N fs c ts =
     (if \<not> inRequestVolume (tiles ts c) then Some (False, ts)
      else if hasEmptyContent' (tiles ts c) then executeEmptyTraversal N ts c fs
      else Some (contentAvailable (tiles ts c), ts))"

definition checkRefines :: "Cesium3DTileset \<Rightarrow> tile_ref \<Rightarrow> bool" where
  "checkRefines ts t \<longleftrightarrow>
     \<not> skipLevelOfDetail' ts \<and> refine (tiles ts t) = REPLACE \<and> \<not> hasEmptyContent' (tiles ts t)"

definition sortChildren :: "Cesium3DTileset \<Rightarrow> tile_ref \<Rightarrow> Cesium3DTileset" where
  "sortChildren ts x =
     upd x (\<lambda>y. y\<lparr>children := sortBy (\<lambda>a b. sortChildrenByDistanceToCamera (tiles ts a) (tiles ts b))
                                  (children (tiles ts x))\<rparr>) ts"

definition preserved :: "FrameState \<Rightarrow> (Cesium3DTileset \<Rightarrow> bool) \<Rightarrow> bool" where
  "preserved fs P \<longleftrightarrow>
     (\<forall>ts t. P ts \<longrightarrow> P (updateTile ts t fs)) \<and>
     (\<forall>ts t. P ts \<longrightarrow> P (loadTile ts t fs)) \<and>
     (\<forall>ts t. P ts \<longrightarrow> P (touchTile ts t fs)) \<and>
     (\<forall>ts t. P ts \<longrightarrow> P (sortChildren ts t)) \<and>
     (\<forall>ts t. P ts \<longrightarrow> P (upd t (\<lambda>y. y\<lparr>wasMinChild := True\<rparr>) ts)) \<and>
     (\<forall>ts t v. P ts \<longrightarrow> P (upd t (\<lambda>y. y\<lparr>priorityDistance := v\<rparr>) ts)) \<and>
     (\<forall>ts t h. P ts \<longrightarrow> P (upd t (\<lambda>y. y\<lparr>priorityDistanceHolder := h\<rparr>) ts)) \<and>
     (\<forall>ts t. P ts \<longrightarrow> P (updateTileAncestorContentLinks ts t fs)) \<and>
     (\<forall>ts t. P ts \<longrightarrow> P (addEmptyTile ts t)) \<and>
     (\<forall>ts t. P ts \<longrightarrow> P (selectTile ts t fs)) \<and>
     (\<forall>ts t. P ts \<longrightarrow> P (upd t (\<lambda>y. y\<lparr>shouldSelect := True\<rparr>) ts)) \<and>
     (\<forall>ts t. P ts \<longrightarrow> P (visitTile ts t fs)) \<and>
     (\<forall>ts t b. P ts \<longrightarrow> P (upd t (\<lambda>y. y\<lparr>refines := b\<rparr>) ts)) \<and>
     (\<forall>ts t. P ts \<longrightarrow> P (upd t (\<lambda>y. y\<lparr>finalResolution := False\<rparr>) ts)) \<and>
     (\<forall>ts t n. P ts \<longrightarrow> P (upd t (\<lambda>y. y\<lparr>selectionDepth := n\<rparr>) ts)) \<and>
     (\<forall>ts t n. P ts \<longrightarrow> P (upd t (\<lambda>y. y\<lparr>stackLength := n\<rparr>) ts)) \<and>
     (\<forall>ts. P ts \<longrightarrow> P (ts\<lparr>hasMixedContent := True\<rparr>)) \<and>
     (\<forall>ts. P ts \<longrightarrow> P (ts\<lparr>requestedTiles := []\<rparr>)) \<and>
     (\<forall>ts. P ts \<longrightarrow> P (ts\<lparr>selectedTiles := [], selectedTilesToStyle := [], emptyTiles := [],
                             hasMixedContent := False\<rparr>))"

definition visitRefine ::
  "nat \<Rightarrow> Cesium3DTileset \<Rightarrow> tile_ref \<Rightarrow> tile_ref list \<Rightarrow> FrameState
     \<Rightarrow> (bool \<times> tile_ref list \<times> Cesium3DTileset) option" where
  "visitRefine N ts t stack fs =
     (if canTraverse ts (tiles ts t) then updateAndPushChildren N ts t stack fs
      else Some (False, stack, ts))"

definition parentRefines :: "Cesium3DTileset \<Rightarrow> tile_ref \<Rightarrow> bool" where
  "parentRefines ts t = (case parent (tiles ts t) of None \<Rightarrow> True | Some p \<Rightarrow> refines (tiles ts p))"

definition visitDispatch ::
  "nat \<Rightarrow> Cesium3DTileset \<Rightarrow> tile_ref \<Rightarrow> FrameState \<Rightarrow> bool \<Rightarrow> bool \<Rightarrow> bool \<Rightarrow> bool
     \<Rightarrow> Cesium3DTileset option" where
  "visitDispatch N ts t fs add replace baseTraversal stoppedRefining =
     (if hasEmptyContent' (tiles ts t) then
        (if stoppedRefining then selectDesiredTile N (loadTile (addEmptyTile ts t) t fs) t fs
         else Some (loadTile (addEmptyTile ts t) t fs))
      else if add then
        map_option (\<lambda>ts3. loadTile ts3 t fs) (selectDesiredTile N ts t fs)
      else if replace then
        (if baseTraversal then
           (if stoppedRefining then selectDesiredTile N (loadTile ts t fs) t fs
            else Some (loadTile ts t fs))
         else if stoppedRefining then
           map_option (\<lambda>ts3. loadTile ts3 t fs) (selectDesiredTile N ts t fs)
         else if reachedSkippingThreshold ts (tiles ts t) then Some (loadTile ts t fs)
         else Some ts)
      else Some ts)"

definition visitFinish :: "Cesium3DTileset \<Rightarrow> tile_ref \<Rightarrow> FrameState \<Rightarrow> bool \<Rightarrow> Cesium3DTileset" where
  "visitFinish ts t fs refs = upd t (\<lambda>x. x\<lparr>refines := refs\<rparr>) (touchTile (visitTile ts t fs) t fs)"

definition fartherFirst :: "Cesium3DTileset \<Rightarrow> tile_ref \<Rightarrow> tile_ref \<Rightarrow> bool" where
  "fartherFirst ts a b \<longleftrightarrow>
     distanceToCamera (tiles ts b) \<le> distanceToCamera (tiles ts a) \<and>
     (distanceToCamera (tiles ts a) = 0 \<and> distanceToCamera (tiles ts b) = 0
        \<longrightarrow> centerZDepth (tiles ts b) \<le> centerZDepth (tiles ts a))"

definition sortedChildrenOf :: "Cesium3DTileset \<Rightarrow> tile_ref \<Rightarrow> bool" where
  "sortedChildrenOf ts x \<longleftrightarrow> sorted_wrt (fartherFirst ts) (children (tiles ts x))"

definition selInv :: "(tile_ref \<Rightarrow> nat) \<Rightarrow> Cesium3DTileset \<Rightarrow> tile_ref list \<Rightarrow> tile_ref list \<Rightarrow> bool" where
  "selInv w ts S A \<longleftrightarrow>
     sorted_wrt (\<lambda>a b. stackLength (tiles ts b) \<le> stackLength (tiles ts a)) A \<and>
     (\<forall>a\<in>set A. stackLength (tiles ts a) \<le> length S \<and>
        (\<forall>s\<in>set (take (length S - stackLength (tiles ts a)) S). w s < w a))"

definition waiting :: "Cesium3DTileset \<Rightarrow> tile_ref list \<Rightarrow> tile_ref list \<Rightarrow> bool" where
  "waiting ts S A \<longleftrightarrow> A \<noteq> [] \<and> stackLength (tiles ts (hd A)) = length S"

definition pushVisible :: "Cesium3DTileset \<Rightarrow> tile_ref \<Rightarrow> tile_ref list" where
  "pushVisible ts t =
     (if canTraverse ts (tiles ts t)
      then rev (filter (\<lambda>c. isVisible (tiles ts c)) (children (tiles ts t))) else [])"

definition markDepth :: "Cesium3DTileset \<Rightarrow> tile_ref \<Rightarrow> nat \<Rightarrow> Cesium3DTileset" where
  "markDepth ts t n =
     (if n > 0 then (upd t (\<lambda>x. x\<lparr>selectionDepth := n\<rparr>) ts)\<lparr>hasMixedContent := True\<rparr>
      else upd t (\<lambda>x. x\<lparr>selectionDepth := n\<rparr>) ts)"

definition selMeasure :: "(tile_ref \<Rightarrow> nat) \<Rightarrow> tile_ref list \<Rightarrow> tile_ref list \<Rightarrow> nat" where
  "selMeasure w S A = 2 * sum_list (map w S) + length A"

definition traversalMode ::
  "nat \<Rightarrow> Cesium3DTileset \<Rightarrow> tile_ref \<Rightarrow> FrameState \<Rightarrow> Cesium3DTileset option" where
  "traversalMode N ts r fs =
     (if \<not> skipLevelOfDetail' ts then executeBaseTraversal N ts r fs
      else if immediatelyLoadDesiredLevelOfDetail ts then executeSkipTraversal N ts r fs
      else executeBaseAndSkipTraversal N ts r fs)"

definition resetLists :: "Cesium3DTileset \<Rightarrow> Cesium3DTileset" where
  "resetLists ts = ts\<lparr>requestedTiles := [], selectedTiles := [], selectedTilesToStyle := [],
                     emptyTiles := [], hasMixedContent := False\<rparr>"

definition ownPriority :: "Cesium3DTileset \<Rightarrow> tile_ref \<Rightarrow> bool" where
  "ownPriority ts c \<longleftrightarrow>
     priorityDistance (tiles ts c) = getPriority ts (tiles ts c) \<and>
     priorityDistanceHolder (tiles ts c) = c"

definition takesPart :: "Cesium3DTileset \<Rightarrow> FrameState \<Rightarrow> tile_ref \<Rightarrow> tile_ref \<Rightarrow> bool" where
  "takesPart ts fs t c \<longleftrightarrow> shown fs c \<or> checkRefines ts t \<or> loadSiblings ts"

definition loadedLink :: "Cesium3DTileset \<Rightarrow> tile_ref \<Rightarrow> bool" where
  "loadedLink ts x \<longleftrightarrow>
     (\<forall>a. ancestorWithContentAvailable (tiles ts x) = Some a \<longrightarrow> contentAvailable (tiles ts a))"

definition selectable :: "Cesium3DTileset \<Rightarrow> tile_ref \<Rightarrow> bool" where
  "selectable ts x \<longleftrightarrow> (shouldSelect (tiles ts x) \<longrightarrow> contentAvailable (tiles ts x))"

definition selectedLoaded :: "Cesium3DTileset \<Rightarrow> bool" where
  "selectedLoaded ts \<longleftrightarrow> (\<forall>x\<in>set (selectedTiles ts). contentAvailable (tiles ts x))"

definition flaggedLoaded :: "Cesium3DTileset \<Rightarrow> Cesium3DTileset \<Rightarrow> tile_ref \<Rightarrow> bool" where
  "flaggedLoaded ts0 ts x \<longleftrightarrow>
     (shouldSelect (tiles ts x) \<and> \<not> shouldSelect (tiles ts0 x) \<longrightarrow> contentAvailable (tiles ts x))"

definition parentLinked :: "Cesium3DTileset \<Rightarrow> bool" where
  "parentLinked ts \<longleftrightarrow> (\<forall>t. \<forall>c\<in>set (children (tiles ts t)). parent (tiles ts c) = Some t)"

definition selectSafe :: "FrameState \<Rightarrow> (Cesium3DTileset \<Rightarrow> bool) \<Rightarrow> bool" where
  "selectSafe fs P \<longleftrightarrow>
     (\<forall>ts t. P ts \<longrightarrow> P (updateTile ts t fs)) \<and>
     (\<forall>ts t. P ts \<longrightarrow> P (loadTile ts t fs)) \<and>
     (\<forall>ts t. P ts \<longrightarrow> P (touchTile ts t fs)) \<and>
     (\<forall>ts x cs. P ts \<longrightarrow> mset cs = mset (children (tiles ts x)) \<longrightarrow>
          P (upd x (\<lambda>y. y\<lparr>children := cs\<rparr>) ts)) \<and>
     (\<forall>ts t. P ts \<longrightarrow> P (upd t (\<lambda>y. y\<lparr>wasMinChild := True\<rparr>) ts)) \<and>
     (\<forall>ts t v. P ts \<longrightarrow> P (upd t (\<lambda>y. y\<lparr>priorityDistance := v\<rparr>) ts)) \<and>
     (\<forall>ts t h. P ts \<longrightarrow> P (upd t (\<lambda>y. y\<lparr>priorityDistanceHolder := h\<rparr>) ts)) \<and>
     (\<forall>ts t. P ts \<longrightarrow> P (addEmptyTile ts t)) \<and>
     (\<forall>ts t. P ts \<longrightarrow> contentAvailable (tiles ts t) \<longrightarrow> P (selectTile ts t fs)) \<and>
     (\<forall>ts t. P ts \<longrightarrow> contentAvailable (tiles ts t) \<longrightarrow>
          P (upd t (\<lambda>y. y\<lparr>shouldSelect := True\<rparr>) ts)) \<and>
     (\<forall>ts t. P ts \<longrightarrow> P (visitTile ts t fs)) \<and>
     (\<forall>ts t b. P ts \<longrightarrow> P (upd t (\<lambda>y. y\<lparr>refines := b\<rparr>) ts)) \<and>
     (\<forall>ts t. P ts \<longrightarrow> P (upd t (\<lambda>y. y\<lparr>finalResolution := False\<rparr>) ts)) \<and>
     (\<forall>ts t n. P ts \<longrightarrow> P (markDepth ts t n)) \<and>
     (\<forall>ts t n. P ts \<longrightarrow> P (upd t (\<lambda>y. y\<lparr>stackLength := n\<rparr>) ts))"

definition parentLoadedLink :: "Cesium3DTileset \<Rightarrow> tile_ref \<Rightarrow> bool" where
  "parentLoadedLink ts s \<longleftrightarrow>
     (case parent (tiles ts s) of None \<Rightarrow> True | Some p \<Rightarrow> loadedLink ts p)"

definition visitedClosed ::
  "FrameState \<Rightarrow> Cesium3DTileset \<Rightarrow> tile_ref set \<Rightarrow> tile_ref set \<Rightarrow> bool" where
  "visitedClosed fs ts D S \<longleftrightarrow>
     (\<forall>x\<in>D. selectable ts x \<and>
        (canTraverse ts (tiles ts x) \<longrightarrow>
           (\<forall>c\<in>set (children (tiles ts x)). fresh fs ts c \<and> (shown fs c \<longrightarrow> c \<in> D \<union> S))))"

definition selectionInv ::
  "FrameState \<Rightarrow> Cesium3DTileset \<Rightarrow> tile_ref set \<Rightarrow> tile_ref list \<Rightarrow> tile_ref list
     \<Rightarrow> Cesium3DTileset \<Rightarrow> bool" where
  "selectionInv fs ts0 D S A ts \<longleftrightarrow>
     frame ts0 ts \<and> selectedLoaded ts \<and> (\<forall>x. flaggedLoaded ts0 ts x) \<and>
     set S \<subseteq> D \<and> (\<forall>a\<in>set A. contentAvailable (tiles ts a)) \<and> visitedClosed fs ts D {}"

definition traversalInv ::
  "FrameState \<Rightarrow> (tile_ref \<Rightarrow> nat) \<Rightarrow> nat \<Rightarrow> Cesium3DTileset \<Rightarrow> tile_ref set \<Rightarrow> Cesium3DTileset
     \<Rightarrow> tile_ref list \<Rightarrow> bool" where
  "traversalInv fs w N ts0 D ts stack \<longleftrightarrow>
     frame ts0 ts \<and> selectedLoaded ts \<and> (\<forall>x. flaggedLoaded ts0 ts x) \<and>
     (\<forall>s\<in>set stack. parentLoadedLink ts s \<and> selectable ts s \<and> w s \<le> N) \<and>
     visitedClosed fs ts D (set stack)"

definition pushSafe :: "FrameState \<Rightarrow> (Cesium3DTileset \<Rightarrow> bool) \<Rightarrow> bool" where
  "pushSafe fs P \<longleftrightarrow>
     (\<forall>ts t. P ts \<longrightarrow> P (updateTile ts t fs)) \<and>
     (\<forall>ts t. P ts \<longrightarrow> P (loadTile ts t fs)) \<and>
     (\<forall>ts t. P ts \<longrightarrow> P (touchTile ts t fs)) \<and>
     (\<forall>ts x cs. P ts \<longrightarrow> mset cs = mset (children (tiles ts x)) \<longrightarrow>
          P (upd x (\<lambda>y. y\<lparr>children := cs\<rparr>) ts)) \<and>
     (\<forall>ts t. P ts \<longrightarrow> P (upd t (\<lambda>y. y\<lparr>wasMinChild := True\<rparr>) ts)) \<and>
     (\<forall>ts t v. P ts \<longrightarrow> P (upd t (\<lambda>y. y\<lparr>priorityDistance := v\<rparr>) ts)) \<and>
     (\<forall>ts t h. P ts \<longrightarrow> P (upd t (\<lambda>y. y\<lparr>priorityDistanceHolder := h\<rparr>) ts))"

definition baseDispatch ::
  "Cesium3DTileset \<Rightarrow> tile_ref \<Rightarrow> FrameState \<Rightarrow> bool \<Rightarrow> Cesium3DTileset" where
  "baseDispatch ts t fs stoppedRefining =
     (let ts3 = loadTile (if hasEmptyContent' (tiles ts t) then addEmptyTile ts t else ts) t fs
      in if stoppedRefining \<and> contentAvailable (tiles ts3 t) then selectTile ts3 t fs else ts3)"

text \<open>
  Base mode, all tiles REPLACE: a loaded root (0) with a loaded leaf (1) and a leaf whose
  content is unloaded (2).
\<close>

definition unloadedChildTileset :: Cesium3DTileset where
  "unloadedChildTileset =
     baseTileset ((\<lambda>t. leafTile)
        (0 := leafTile\<lparr>children := [1, 2], screenSpaceError := 32\<rparr>,
         1 := leafTile\<lparr>parent := Some 0, depth := 1\<rparr>,
         2 := leafTile\<lparr>parent := Some 0, depth := 1, contentAvailable := False,
                        contentUnloaded := True\<rparr>))"

definition waitingInv ::
  "(tile_ref \<Rightarrow> nat) \<Rightarrow> nat \<Rightarrow> Cesium3DTileset \<Rightarrow> tile_ref \<Rightarrow> tile_ref list \<Rightarrow> tile_ref set
     \<Rightarrow> Cesium3DTileset \<Rightarrow> tile_ref list \<Rightarrow> bool" where
  "waitingInv w N ts0 r L C ts stack \<longleftrightarrow>
     frame ts0 ts \<and> selectedTiles ts = L \<and> \<not> refines (tiles ts r) \<and>
     (\<forall>s\<in>set stack. w s \<le> N \<and> \<not> parentRefines ts s) \<and>
     (\<forall>c\<in>C. c \<in> set stack \<or> c \<in> set (requestedTiles ts))"

text \<open>
  The number of proper ancestors of a tile, along the \<open>parent\<close> fields, that are not ADD
  tiles and have \<open>shouldSelect\<close> set; \<open>depth\<close> is the number of proper ancestors.
\<close>

fun flaggedAbove :: "nat \<Rightarrow> Cesium3DTileset \<Rightarrow> tile_ref \<Rightarrow> nat" where
  "flaggedAbove 0 ts t = 0"
| "flaggedAbove (Suc k) ts t =
     (case parent (tiles ts t) of
        None \<Rightarrow> 0
      | Some p \<Rightarrow>
          (if shouldSelect (tiles ts p) \<and> refine (tiles ts p) \<noteq> ADD then 1 else 0)
            + flaggedAbove k ts p)"

definition selectedAbove :: "Cesium3DTileset \<Rightarrow> tile_ref \<Rightarrow> nat" where
  "selectedAbove ts t = flaggedAbove (nat (depth (tiles ts t))) ts t"

text \<open>
  The specification's count: the proper ancestors of a tile that are in \<open>selectedTiles\<close>.
\<close>

fun listedAbove :: "nat \<Rightarrow> Cesium3DTileset \<Rightarrow> tile_ref \<Rightarrow> nat" where
  "listedAbove 0 ts t = 0"
| "listedAbove (Suc k) ts t =
     (case parent (tiles ts t) of
        None \<Rightarrow> 0
      | Some p \<Rightarrow> (if p \<in> set (selectedTiles ts) then 1 else 0) + listedAbove k ts p)"

definition selectedAncestors :: "Cesium3DTileset \<Rightarrow> tile_ref \<Rightarrow> nat" where
  "selectedAncestors ts t = listedAbove (nat (depth (tiles ts t))) ts t"

text \<open>
  Skip-only mode: a loaded REPLACE root (0) with a loaded REPLACE leaf (1) and an unloaded
  REPLACE leaf (2).
\<close>

definition replaceSkipTileset :: Cesium3DTileset where
  "replaceSkipTileset =
     (baseTileset ((\<lambda>t. leafTile)
        (0 := leafTile\<lparr>children := [1, 2], screenSpaceError := 32\<rparr>,
         1 := leafTile\<lparr>parent := Some 0, depth := 1\<rparr>,
         2 := leafTile\<lparr>parent := Some 0, depth := 1, contentAvailable := False,
                        contentUnloaded := True\<rparr>)))
       \<lparr>skipLevelOfDetail := True, immediatelyLoadDesiredLevelOfDetail := True\<rparr>"

text \<open>The base screen-space error that the two skipping modes pass to \<open>executeTraversal\<close>.\<close>

definition skipBaseError :: "Cesium3DTileset \<Rightarrow> real" where
  "skipBaseError ts =
     (if immediatelyLoadDesiredLevelOfDetail ts then Number_MAX_VALUE
      else max (baseScreenSpaceError ts) (maximumScreenSpaceError ts))"

definition depthLinked :: "Cesium3DTileset \<Rightarrow> bool" where
  "depthLinked ts \<longleftrightarrow>
     (\<forall>t. \<forall>c\<in>set (children (tiles ts t)). depth (tiles ts c) = depth (tiles ts t) + 1)"

definition pending :: "Cesium3DTileset \<Rightarrow> tile_ref list \<Rightarrow> nat \<Rightarrow> nat" where
  "pending ts A h = length (filter (\<lambda>a. stackLength (tiles ts a) < h) A)"

fun depthsOk :: "Cesium3DTileset \<Rightarrow> Cesium3DTileset \<Rightarrow> tile_ref list \<Rightarrow> tile_ref list \<Rightarrow> bool" where
  "depthsOk ts0 ts A [] = True"
| "depthsOk ts0 ts A (s # rest) =
     (0 \<le> depth (tiles ts0 s) \<and> pending ts A (Suc (length rest)) = selectedAbove ts0 s \<and>
      depthsOk ts0 ts A rest)"

definition depthInv ::
  "Cesium3DTileset \<Rightarrow> tile_ref list \<Rightarrow> tile_ref list \<Rightarrow> Cesium3DTileset \<Rightarrow> bool" where
  "depthInv ts0 S A ts \<longleftrightarrow>
     frame ts0 ts \<and> (\<forall>x. shouldSelect (tiles ts x) = shouldSelect (tiles ts0 x)) \<and>
     depthsOk ts0 ts A S \<and>
     (\<forall>a\<in>set A. selectionDepth (tiles ts a) = selectedAbove ts0 a) \<and>
     (\<exists>new. selectedTiles ts = selectedTiles ts0 @ new \<and>
        (\<forall>t\<in>set new. refine (tiles ts0 t) \<noteq> ADD \<longrightarrow>
           selectionDepth (tiles ts t) = selectedAbove ts0 t))"

lemmas model_defs =
  upd_def isVisible_def skipLevelOfDetail'_def addEmptyTile_def selectTile_def visitTile_def
  touchTile_def clamp_def getPriority_def updateMinMaxPriority_def hasEmptyContent'_def
  hasUnloadedContent_def loadTile_def tile_updateVisibility_def tile_updateExpiration_def
  updateTile_def updateTileAncestorContentLinks_def belowQuotient_def
  reachedSkippingThreshold_def sortChildrenByDistanceToCamera_def sortBy_def canTraverse_def
  inBaseTraversal_def executeEmptyTraversal_def descendantSelectionDepth_def
  selectDescendants_def selectDesiredTile_def trackMinimum_def linkPriorityHolder_def
  updateAndPushChildren_def executeTraversal_visit_def executeTraversal_def
  traverseAndSelect_step_def traverseAndSelect_def executeBaseTraversal_def
  executeSkipTraversal_def executeBaseAndSkipTraversal_def selectTiles_def

lemmas example_defs = leafTile_def baseTileset_def allVisible_def

lemmas eval_defs = model_defs example_defs tileOf_def Let_def Number_MAX_VALUE_def eval_nat_numeral

section \<open>Effects of the basic operations\<close>

lemma config_update [simp]:
  "config (ts\<lparr>tiles := a\<rparr>) = config ts"
  "config (ts\<lparr>selectedTiles := b\<rparr>) = config ts"
  "config (ts\<lparr>selectedTilesToStyle := b\<rparr>) = config ts"
  "config (ts\<lparr>requestedTiles := b\<rparr>) = config ts"
  "config (ts\<lparr>emptyTiles := b\<rparr>) = config ts"
  "config (ts\<lparr>hasMixedContent := c\<rparr>) = config ts"
  "config (ts\<lparr>statisticsVisited := d\<rparr>) = config ts"
  "config (ts\<lparr>cacheTouched := b\<rparr>) = config ts"
  "config (ts\<lparr>visibilityUpdates := b\<rparr>) = config ts"
  "config (ts\<lparr>maxPriorityDistance := e\<rparr>) = config ts"
  "config (ts\<lparr>maxPriorityLevel := f\<rparr>) = config ts"
  "config (ts\<lparr>minPriorityDistance := e\<rparr>) = config ts"
  "config (ts\<lparr>minPriorityLevel := f\<rparr>) = config ts"
  "config (ts\<lparr>minDistanceTile := g\<rparr>) = config ts"
  "config (ts\<lparr>minPriorityHolder := g\<rparr>) = config ts"
  by (simp_all add: config_def)

lemma config_eqD:
  assumes "config ts' = config ts"
  shows "rootTile ts' = rootTile ts" "maximumScreenSpaceError ts' = maximumScreenSpaceError ts"
    "baseScreenSpaceError ts' = baseScreenSpaceError ts"
    "skipLevelOfDetail ts' = skipLevelOfDetail ts"
    "immediatelyLoadDesiredLevelOfDetail ts' = immediatelyLoadDesiredLevelOfDetail ts"
    "skipScreenSpaceErrorFactor ts' = skipScreenSpaceErrorFactor ts"
    "skipLevels ts' = skipLevels ts" "loadSiblings ts' = loadSiblings ts"
  using assms by (simp_all add: config_def)

lemma upd_simps [simp]:
  "tiles (upd t f ts) = (tiles ts)(t := f (tiles ts t))"
  "config (upd t f ts) = config ts"
  "selectedTiles (upd t f ts) = selectedTiles ts"
  "requestedTiles (upd t f ts) = requestedTiles ts"
  by (simp_all add: upd_def)

lemma updateMinMaxPriority_simps [simp]:
  "tiles (updateMinMaxPriority ts t) = tiles ts"
  "config (updateMinMaxPriority ts t) = config ts"
  "selectedTiles (updateMinMaxPriority ts t) = selectedTiles ts"
  "requestedTiles (updateMinMaxPriority ts t) = requestedTiles ts"
  by (simp_all add: updateMinMaxPriority_def Let_def)

lemma loadTile_simps [simp]:
  "tiles (loadTile ts t fs) =
     (if hasUnloadedContent (tiles ts t) \<or> contentExpired (tiles ts t)
      then (tiles ts)(t := (tiles ts t)\<lparr>requestedFrame := frameNumber fs\<rparr>) else tiles ts)"
  "config (loadTile ts t fs) = config ts"
  "selectedTiles (loadTile ts t fs) = selectedTiles ts"
  "requestedTiles (loadTile ts t fs) =
     (if hasUnloadedContent (tiles ts t) \<or> contentExpired (tiles ts t)
      then requestedTiles ts @ [t] else requestedTiles ts)"
  by (simp_all add: loadTile_def Let_def)

lemma touchTile_simps [simp]:
  "tiles (touchTile ts t fs) = (tiles ts)(t := (tiles ts t)\<lparr>touchedFrame := frameNumber fs\<rparr>)"
  "config (touchTile ts t fs) = config ts"
  "selectedTiles (touchTile ts t fs) = selectedTiles ts"
  "requestedTiles (touchTile ts t fs) = requestedTiles ts"
  by (auto simp add: touchTile_def)

lemma visitTile_simps [simp]:
  "tiles (visitTile ts t fs) = (tiles ts)(t := (tiles ts t)\<lparr>visitedFrame := frameNumber fs\<rparr>)"
  "config (visitTile ts t fs) = config ts"
  "selectedTiles (visitTile ts t fs) = selectedTiles ts"
  "requestedTiles (visitTile ts t fs) = requestedTiles ts"
  by (simp_all add: visitTile_def)

lemma addEmptyTile_simps [simp]:
  "tiles (addEmptyTile ts t) = tiles ts"
  "config (addEmptyTile ts t) = config ts"
  "selectedTiles (addEmptyTile ts t) = selectedTiles ts"
  "requestedTiles (addEmptyTile ts t) = requestedTiles ts"
  by (simp_all add: addEmptyTile_def)

lemma updateTile_simps [simp]:
  "tiles (updateTile ts t fs) =
     (tiles ts)(t := (tiles ts t)\<lparr>visible := tileVisible fs t,
        inRequestVolume := tileInRequestVolume fs t,
        priorityDistance := getPriority ts (tiles ts t),
        priorityDistanceHolder := t, wasMinChild := False, shouldSelect := False,
        finalResolution := True\<rparr>)"
  "config (updateTile ts t fs) = config ts"
  "selectedTiles (updateTile ts t fs) = selectedTiles ts"
  "requestedTiles (updateTile ts t fs) = requestedTiles ts"
  by (simp_all add: updateTile_def tile_updateVisibility_def tile_updateExpiration_def Let_def
      getPriority_def)

lemma selectTile_simps [simp]:
  "tiles (selectTile ts t fs) =
     (if tileContentVisibility fs t \<noteq> OUTSIDE
      then (tiles ts)(t := (tiles ts t)\<lparr>featurePropertiesDirty := False,
              lastStyleTime := (if featurePropertiesDirty (tiles ts t) then 0 else lastStyleTime (tiles ts t)),
              selectedFrame := frameNumber fs\<rparr>)
      else tiles ts)"
  "config (selectTile ts t fs) = config ts"
  "selectedTiles (selectTile ts t fs) =
     (if tileContentVisibility fs t \<noteq> OUTSIDE then selectedTiles ts @ [t] else selectedTiles ts)"
  "requestedTiles (selectTile ts t fs) = requestedTiles ts"
  by (auto simp add: selectTile_def Let_def)

lemma updateTileAncestorContentLinks_simps [simp]:
  "config (updateTileAncestorContentLinks ts t fs) = config ts"
  "selectedTiles (updateTileAncestorContentLinks ts t fs) = selectedTiles ts"
  "requestedTiles (updateTileAncestorContentLinks ts t fs) = requestedTiles ts"
  by (simp_all add: updateTileAncestorContentLinks_def Let_def split: option.splits)

section \<open>The priority of a tile\<close>

text \<open>
  C5. The priority that \<open>getPriority\<close> computes, and that \<open>updateTile\<close> stores in the tile,
  is \<open>clamp(centerZDepth - radius, 0, centerZDepth)\<close>; for a bounding sphere (whose radius
  is not negative) it is never negative, and it is exactly 0 when the sphere straddles or
  lies behind the camera (\<open>centerZDepth - radius \<le> 0\<close>, which covers every negative
  \<open>centerZDepth\<close>).
\<close>

theorem getPriority_clamped:
  assumes "0 \<le> boundingSphereRadius (tiles tileset t)"
  shows "getPriority tileset (tiles tileset t) =
           clamp (centerZDepth (tiles tileset t) - boundingSphereRadius (tiles tileset t)) 0
             (centerZDepth (tiles tileset t))
         \<and> priorityDistance (tiles (updateTile tileset t frameState) t) =
             getPriority tileset (tiles tileset t)
         \<and> 0 \<le> priorityDistance (tiles (updateTile tileset t frameState) t)
         \<and> (centerZDepth (tiles tileset t) - boundingSphereRadius (tiles tileset t) \<le> 0 \<longrightarrow>
              priorityDistance (tiles (updateTile tileset t frameState) t) = 0)
         \<and> (centerZDepth (tiles tileset t) < 0 \<longrightarrow>
              priorityDistance (tiles (updateTile tileset t frameState) t) = 0)"
  using assms
  by (simp add: updateTile_def tile_updateVisibility_def tile_updateExpiration_def upd_def
        getPriority_def clamp_def Let_def)

theorem getPriority_clamped_witness:
  "priorityDistance
     (tiles (updateTile (baseTileset (\<lambda>t. leafTile\<lparr>centerZDepth := - 3, boundingSphereRadius := 2\<rparr>))
               0 (allVisible (\<lambda>t. 64))) 0) = 0"
  using getPriority_clamped
    [of "baseTileset (\<lambda>t. leafTile\<lparr>centerZDepth := - 3, boundingSphereRadius := 2\<rparr>)" 0
        "allVisible (\<lambda>t. 64)"]
  by (simp add: example_defs)

section \<open>Requests and visibility updates within one frame\<close>

text \<open>
  C10. \<open>loadTile\<close> has no per-frame guard: called twice on a tile with unloaded or expired
  content it appends the tile to \<open>requestedTiles\<close> twice, whereas a second \<open>touchTile\<close>
  touches nothing. In \<open>emptySubtreeTileset\<close> the hidden unloaded tile 2 is loaded by
  \<open>executeEmptyTraversal\<close> from the root's refine check and again by
  \<open>updateAndPushChildren\<close> of tile 1 (with \<open>loadSiblings\<close>), so one \<open>selectTiles\<close> call
  leaves \<open>requestedTiles = [2, 2]\<close>.
\<close>

theorem loadTile_twice_requests_twice:
  "(hasUnloadedContent (tiles tileset t) \<or> contentExpired (tiles tileset t) \<longrightarrow>
      requestedTiles (loadTile (loadTile tileset t frameState) t frameState)
        = requestedTiles tileset @ [t, t])
   \<and> cacheTouched (touchTile (touchTile tileset t frameState) t frameState)
        = cacheTouched (touchTile tileset t frameState)
   \<and> map_option (requestedTiles \<circ> snd) (selectTiles 4 emptySubtreeTileset hiddenGrandchild)
        = Some [2, 2]"
proof (intro conjI impI)
  assume "hasUnloadedContent (tiles tileset t) \<or> contentExpired (tiles tileset t)"
  then show "requestedTiles (loadTile (loadTile tileset t frameState) t frameState)
        = requestedTiles tileset @ [t, t]"
    by (auto simp add: hasUnloadedContent_def hasEmptyContent'_def)
next
  show "cacheTouched (touchTile (touchTile tileset t frameState) t frameState)
        = cacheTouched (touchTile tileset t frameState)"
    by (simp add: touchTile_def upd_def)
next
  show "map_option (requestedTiles \<circ> snd) (selectTiles 4 emptySubtreeTileset hiddenGrandchild)
        = Some [2, 2]"
    by (simp add: emptySubtreeTileset_def hiddenGrandchild_def eval_defs)
qed

theorem loadTile_twice_requests_twice_witness:
  "hasUnloadedContent (tiles emptySubtreeTileset 2)
   \<and> requestedTiles (loadTile (loadTile emptySubtreeTileset 2 hiddenGrandchild) 2 hiddenGrandchild)
       = [2, 2]"
  using loadTile_twice_requests_twice [of emptySubtreeTileset 2 hiddenGrandchild]
  by (simp add: emptySubtreeTileset_def example_defs hasUnloadedContent_def hasEmptyContent'_def)

text \<open>
  C3 fails on the code. \<open>updateTile\<close> calls \<open>tile.updateVisibility\<close> itself and not the
  memoizing helper: in \<open>emptyChildTileset\<close> the empty child 1 is refreshed by
  \<open>updateAndPushChildren\<close> of the root and again by \<open>executeEmptyTraversal\<close>, and its
  visibility is computed twice in one \<open>selectTiles\<close> call. The helper \<open>updateVisibility\<close>
  would have computed it once.
\<close>

theorem updateTile_recomputes_visibility:
  "map_option (visibilityUpdates \<circ> snd) (selectTiles 3 emptyChildTileset (allVisible (\<lambda>t. 64)))
     = Some [0, 1, 1]
   \<and> visibilityUpdates
        (updateVisibility (updateVisibility emptyChildTileset 1 (allVisible (\<lambda>t. 64))) 1
           (allVisible (\<lambda>t. 64))) = [1]"
  by (simp add: emptyChildTileset_def updateVisibility_def eval_defs)

lemma static_eqD:
  assumes "static a = static b"
  shows "parent a = parent b" "depth a = depth b" "refine a = refine b"
    "hasEmptyContent a = hasEmptyContent b" "hasTilesetContent a = hasTilesetContent b"
    "contentUnloaded a = contentUnloaded b" "contentAvailable a = contentAvailable b"
    "contentExpired a = contentExpired b" "boundingSphereRadius a = boundingSphereRadius b"
    "distanceToCamera a = distanceToCamera b" "centerZDepth a = centerZDepth b"
    "screenSpaceError a = screenSpaceError b"
  using assms by (simp_all add: static_def)

lemma static_update [simp]:
  "static (x\<lparr>visible := a\<rparr>) = static x"
  "static (x\<lparr>inRequestVolume := a\<rparr>) = static x"
  "static (x\<lparr>featurePropertiesDirty := a\<rparr>) = static x"
  "static (x\<lparr>updatedVisibilityFrame := i\<rparr>) = static x"
  "static (x\<lparr>priorityDistance := r\<rparr>) = static x"
  "static (x\<lparr>priorityDistanceHolder := n\<rparr>) = static x"
  "static (x\<lparr>wasMinChild := a\<rparr>) = static x"
  "static (x\<lparr>refines := a\<rparr>) = static x"
  "static (x\<lparr>finalResolution := a\<rparr>) = static x"
  "static (x\<lparr>shouldSelect := a\<rparr>) = static x"
  "static (x\<lparr>selectionDepth := n\<rparr>) = static x"
  "static (x\<lparr>stackLength := n\<rparr>) = static x"
  "static (x\<lparr>ancestorWithContent := p\<rparr>) = static x"
  "static (x\<lparr>ancestorWithContentAvailable := p\<rparr>) = static x"
  "static (x\<lparr>visitedFrame := i\<rparr>) = static x"
  "static (x\<lparr>touchedFrame := i\<rparr>) = static x"
  "static (x\<lparr>selectedFrame := i\<rparr>) = static x"
  "static (x\<lparr>requestedFrame := i\<rparr>) = static x"
  "static (x\<lparr>lastStyleTime := r\<rparr>) = static x"
  "static (x\<lparr>children := cs\<rparr>) = static x"
  by (simp_all add: static_def)

lemma frame_refl [simp]: "frame ts ts"
  by (simp add: frame_def)

lemma frame_trans: "frame a b \<Longrightarrow> frame b c \<Longrightarrow> frame a c"
  by (simp add: frame_def)

lemma frame_tiles:
  assumes "config ts' = config ts"
    and "\<And>t. static (tiles ts' t) = static (tiles ts t)"
    and "\<And>t. mset (children (tiles ts' t)) = mset (children (tiles ts t))"
  shows "frame ts ts'"
  using assms by (simp add: frame_def)

lemma frame_basic [simp]:
  "frame ts (loadTile ts t fs)"
  "frame ts (touchTile ts t fs)"
  "frame ts (visitTile ts t fs)"
  "frame ts (addEmptyTile ts t)"
  "frame ts (updateTile ts t fs)"
  "frame ts (selectTile ts t fs)"
  by (simp_all add: frame_def)

lemma frame_links [simp]: "frame ts (updateTileAncestorContentLinks ts t fs)"
  by (simp add: frame_def updateTileAncestorContentLinks_def Let_def split: option.splits)

lemma frameD:
  assumes "frame ts ts'"
  shows "config ts' = config ts" "static (tiles ts' t) = static (tiles ts t)"
    "mset (children (tiles ts' t)) = mset (children (tiles ts t))"
    "length (children (tiles ts' t)) = length (children (tiles ts t))"
    "set (children (tiles ts' t)) = set (children (tiles ts t))"
    "hasEmptyContent' (tiles ts' t) = hasEmptyContent' (tiles ts t)"
    "hasUnloadedContent (tiles ts' t) = hasUnloadedContent (tiles ts t)"
    "canTraverse ts' (tiles ts' t) = canTraverse ts (tiles ts t)"
    "getPriority ts' (tiles ts' t) = getPriority ts (tiles ts t)"
    "skipLevelOfDetail' ts' = skipLevelOfDetail' ts"
proof -
  show c: "config ts' = config ts" and s: "static (tiles ts' t) = static (tiles ts t)"
    and m: "mset (children (tiles ts' t)) = mset (children (tiles ts t))"
    using assms by (simp_all add: frame_def)
  show l: "length (children (tiles ts' t)) = length (children (tiles ts t))"
    using m by (rule mset_eq_length)
  show "set (children (tiles ts' t)) = set (children (tiles ts t))"
    using m by (rule mset_eq_setD)
  show "hasEmptyContent' (tiles ts' t) = hasEmptyContent' (tiles ts t)"
    using static_eqD[OF s] by (simp add: hasEmptyContent'_def)
  show "hasUnloadedContent (tiles ts' t) = hasUnloadedContent (tiles ts t)"
    using static_eqD[OF s] by (simp add: hasUnloadedContent_def hasEmptyContent'_def)
  show "canTraverse ts' (tiles ts' t) = canTraverse ts (tiles ts t)"
    using static_eqD[OF s] config_eqD[OF c] l by (simp add: canTraverse_def)
  show "getPriority ts' (tiles ts' t) = getPriority ts (tiles ts t)"
    using static_eqD[OF s] by (simp add: getPriority_def)
  show "skipLevelOfDetail' ts' = skipLevelOfDetail' ts"
    using config_eqD[OF c] by (simp add: skipLevelOfDetail'_def)
qed

lemma sum_list_map_mset: "mset xs = mset ys \<Longrightarrow> sum_list (map (w::'a \<Rightarrow> nat) xs) = sum_list (map w ys)"
  by (metis mset_map sum_mset_sum_list)

lemma subtreeBound_frame: "frame ts ts' \<Longrightarrow> subtreeBound (tiles ts) w \<Longrightarrow> subtreeBound (tiles ts') w"
  unfolding subtreeBound_def
  by (metis frameD(3) sum_list_map_mset)

lemma subtreeBound_children:
  "subtreeBound (tiles ts) w \<Longrightarrow> sum_list (map w (children (tiles ts t))) < w t"
  by (simp add: subtreeBound_def)

lemma emptyTraverses_frame: "frame ts ts' \<Longrightarrow> emptyTraverses ts' t = emptyTraverses ts t"
  by (simp add: emptyTraverses_def frameD)

lemma emptyVisited_frame_sub:
  assumes "frame ts ts'" "x \<in> emptyVisited ts S"
  shows "x \<in> emptyVisited ts' S"
  using assms(2)
proof induction
  case (start r)
  then show ?case by (rule emptyVisited.start)
next
  case (child t c)
  then show ?case
    using assms(1) by (auto intro!: emptyVisited.child[of t] simp: emptyTraverses_frame frameD)
qed

lemma frame_sym: "frame a b \<Longrightarrow> frame b a"
  by (simp add: frame_def)

lemma emptyVisited_frame: "frame ts ts' \<Longrightarrow> emptyVisited ts' S = emptyVisited ts S"
  using emptyVisited_frame_sub frame_sym by blast

lemma emptyVisited_mono: "S \<subseteq> T \<Longrightarrow> emptyVisited ts S \<subseteq> emptyVisited ts T"
proof
  fix x assume "S \<subseteq> T" "x \<in> emptyVisited ts S"
  from this(2) this(1) show "x \<in> emptyVisited ts T"
    by induction (auto intro: emptyVisited.intros)
qed

lemma emptyVisited_insert:
  "emptyVisited ts (insert t S) =
     insert t (emptyVisited ts ((if emptyTraverses ts t then set (children (tiles ts t)) else {}) \<union> S))"
  (is "?L = ?R")
proof
  show "?L \<subseteq> ?R"
  proof
    fix x assume "x \<in> ?L"
    then show "x \<in> ?R"
    proof induction
      case (start r)
      then show ?case by (auto intro: emptyVisited.start)
    next
      case (child u c)
      then show ?case
        by (auto intro: emptyVisited.intros split: if_splits)
    qed
  qed
next
  show "?R \<subseteq> ?L"
  proof
    fix x assume "x \<in> ?R"
    then consider "x = t" | "x \<in> emptyVisited ts ((if emptyTraverses ts t then set (children (tiles ts t)) else {}) \<union> S)"
      by blast
    then show "x \<in> ?L"
    proof cases
      case 1
      then show ?thesis by (simp add: emptyVisited.start)
    next
      case 2
      then show ?thesis
      proof induction
        case (start r)
        then show ?case
          by (auto intro: emptyVisited.intros split: if_splits)
      next
        case (child u c)
        then show ?case by (auto intro: emptyVisited.child)
      qed
    qed
  qed
qed

lemma emptyVisited_empty [simp]: "emptyVisited ts {} = {}"
proof -
  have "x \<notin> emptyVisited ts {}" for x
  proof
    assume "x \<in> emptyVisited ts {}"
    then show False by induction auto
  qed
  then show ?thesis by blast
qed

lemma executeEmptyTraversal_loop_Suc:
  "executeEmptyTraversal_loop (Suc n) fs (t # stack) acc ts =
     executeEmptyTraversal_loop n fs
       (if emptyTraverses ts t then rev (children (tiles ts t)) @ stack else stack)
       (if \<not> emptyTraverses ts t \<and> \<not> contentAvailable (tiles ts t) then False else acc)
       (executeEmptyTraversal_visit ts t fs)"
  by (simp add: emptyTraverses_def executeEmptyTraversal_visit_def Let_def)

lemma frame_emptyVisit [simp]: "frame ts (executeEmptyTraversal_visit ts t fs)"
  unfolding executeEmptyTraversal_visit_def
  by (simp add: frame_trans[OF frame_basic(5) frame_trans[OF frame_basic(1) frame_basic(2)]])

lemma frame_contentAvailable:
  "frame ts ts' \<Longrightarrow> contentAvailable (tiles ts' t) = contentAvailable (tiles ts t)"
  by (rule static_eqD(7)) (rule frameD(2))

lemma executeEmptyTraversal_loop_correct:
  assumes "subtreeBound (tiles ts) w" and "sum_list (map w stack) \<le> n"
  shows "\<exists>ts'. executeEmptyTraversal_loop n fs stack acc ts =
           Some (acc \<and> (\<forall>t\<in>emptyVisited ts (set stack).
                           \<not> emptyTraverses ts t \<longrightarrow> contentAvailable (tiles ts t)), ts')
         \<and> frame ts ts'"
  using assms
proof (induction n arbitrary: stack acc ts)
  case 0
  show ?case
  proof (cases stack)
    case Nil
    then show ?thesis by simp
  next
    case (Cons t rest)
    with 0 subtreeBound_children[of ts w t] show ?thesis by simp
  qed
next
  case (Suc m)
  show ?case
  proof (cases stack)
    case Nil
    then show ?thesis by simp
  next
    case (Cons t rest)
    let ?ts2 = "executeEmptyTraversal_visit ts t fs"
    let ?stack' = "if emptyTraverses ts t then rev (children (tiles ts t)) @ rest else rest"
    let ?acc' = "if \<not> emptyTraverses ts t \<and> \<not> contentAvailable (tiles ts t) then False else acc"
    have fr: "frame ts ?ts2" by simp
    have b2: "subtreeBound (tiles ?ts2) w"
      using fr Suc.prems(1) by (rule subtreeBound_frame)
    have "sum_list (map w ?stack') \<le> m"
      using Suc.prems(2) subtreeBound_children[OF Suc.prems(1), of t] Cons
      by (simp add: sum_list_rev flip: rev_map)
    from Suc.IH[OF b2 this, of ?acc'] obtain ts' where
      res: "executeEmptyTraversal_loop m fs ?stack' ?acc' ?ts2 =
              Some (?acc' \<and> (\<forall>x\<in>emptyVisited ?ts2 (set ?stack').
                       \<not> emptyTraverses ?ts2 x \<longrightarrow> contentAvailable (tiles ?ts2 x)), ts')"
      and fr': "frame ?ts2 ts'"
      by blast
    have eq: "(?acc' \<and> (\<forall>x\<in>emptyVisited ?ts2 (set ?stack').
                       \<not> emptyTraverses ?ts2 x \<longrightarrow> contentAvailable (tiles ?ts2 x)))
            = (acc \<and> (\<forall>x\<in>emptyVisited ts (set stack).
                           \<not> emptyTraverses ts x \<longrightarrow> contentAvailable (tiles ts x)))"
      unfolding emptyVisited_frame[OF fr] emptyTraverses_frame[OF fr] frame_contentAvailable[OF fr]
        Cons list.set emptyVisited_insert[of ts t "set rest"]
      by (auto simp: Un_commute)
    show ?thesis
      unfolding Cons executeEmptyTraversal_loop_Suc res eq[unfolded Cons]
      using frame_trans[OF fr fr'] by simp
  qed
qed

lemma updateAndPushChildren_loop_Cons:
  "updateAndPushChildren_loop N fs chk (c # cs) i st ts =
     (if chk then
        (case refineCheck N fs c (snd (pushChild fs chk c i st ts)) of
           None \<Rightarrow> None
         | Some (b, ts2) \<Rightarrow>
             updateAndPushChildren_loop N fs chk cs (i + 1)
               ((fst (pushChild fs chk c i st ts))\<lparr>refinesOf := (refinesOf (fst (pushChild fs chk c i st ts)) \<and> b)\<rparr>) ts2)
      else updateAndPushChildren_loop N fs chk cs (i + 1)
             (fst (pushChild fs chk c i st ts)) (snd (pushChild fs chk c i st ts)))"
  unfolding updateAndPushChildren_loop.simps pushChild_def refineCheck_def Let_def
  by (cases "isVisible (tiles ts c)"; cases "chk \<or> loadSiblings ts"; simp only: if_True if_False fst_conv snd_conv prod.case)

lemma executeEmptyTraversal_loop_preserves:
  assumes upd: "\<And>ts t. P ts \<Longrightarrow> P (updateTile ts t fs)"
    and load: "\<And>ts t. P ts \<Longrightarrow> P (loadTile ts t fs)"
    and touch: "\<And>ts t. P ts \<Longrightarrow> P (touchTile ts t fs)"
  shows "executeEmptyTraversal_loop n fs stack acc ts = Some (b, ts') \<Longrightarrow> P ts \<Longrightarrow> P ts'"
proof (induction n arbitrary: stack acc ts)
  case 0
  then show ?case by (cases stack) auto
next
  case (Suc n)
  show ?case
  proof (cases stack)
    case Nil
    with Suc.prems show ?thesis by simp
  next
    case (Cons t rest)
    have "P (executeEmptyTraversal_visit ts t fs)"
      unfolding executeEmptyTraversal_visit_def using Suc.prems(2) upd load touch by simp
    with Suc.prems(1) Suc.IH show ?thesis
      unfolding Cons executeEmptyTraversal_loop_Suc by blast
  qed
qed

lemma pushChild_preserves:
  assumes load: "\<And>ts t. P ts \<Longrightarrow> P (loadTile ts t fs)"
    and touch: "\<And>ts t. P ts \<Longrightarrow> P (touchTile ts t fs)"
  shows "P ts \<Longrightarrow> P (snd (pushChild fs chk c i st ts))"
  using load touch by (simp add: pushChild_def)

lemma refineCheck_preserves:
  assumes upd: "\<And>ts t. P ts \<Longrightarrow> P (updateTile ts t fs)"
    and load: "\<And>ts t. P ts \<Longrightarrow> P (loadTile ts t fs)"
    and touch: "\<And>ts t. P ts \<Longrightarrow> P (touchTile ts t fs)"
  shows "refineCheck N fs c ts = Some (b, ts') \<Longrightarrow> P ts \<Longrightarrow> P ts'"
  using executeEmptyTraversal_loop_preserves[where P=P, OF upd load touch]
  by (auto simp: refineCheck_def executeEmptyTraversal_def split: if_splits)

lemma updateAndPushChildren_loop_preserves:
  assumes upd: "\<And>ts t. P ts \<Longrightarrow> P (updateTile ts t fs)"
    and load: "\<And>ts t. P ts \<Longrightarrow> P (loadTile ts t fs)"
    and touch: "\<And>ts t. P ts \<Longrightarrow> P (touchTile ts t fs)"
  shows "updateAndPushChildren_loop N fs chk cs i st ts = Some (st', ts') \<Longrightarrow> P ts \<Longrightarrow> P ts'"
proof (induction cs arbitrary: i st ts)
  case Nil
  then show ?case by simp
next
  case (Cons c cs)
  have p1: "P (snd (pushChild fs chk c i st ts))"
    by (rule pushChild_preserves[where P=P, OF load touch Cons.prems(2)])
  show ?case
  proof (cases chk)
    case True
    with Cons.prems(1) obtain b ts2 where
      rc: "refineCheck N fs c (snd (pushChild fs chk c i st ts)) = Some (b, ts2)"
      and rest: "updateAndPushChildren_loop N fs chk cs (i + 1)
               ((fst (pushChild fs chk c i st ts))\<lparr>refinesOf := (refinesOf (fst (pushChild fs chk c i st ts)) \<and> b)\<rparr>) ts2
                = Some (st', ts')"
      unfolding updateAndPushChildren_loop_Cons by (auto split: option.splits)
    have "P ts2" by (rule refineCheck_preserves[where P=P, OF upd load touch rc p1])
    with rest Cons.IH show ?thesis by blast
  next
    case False
    with Cons.prems(1) Cons.IH p1 show ?thesis
      unfolding updateAndPushChildren_loop_Cons by simp
  qed
qed

lemma fresh_basic [simp]:
  "fresh fs ts x \<Longrightarrow> fresh fs (updateTile ts t fs) x"
  "fresh fs (updateTile ts t fs) t"
  "fresh fs ts x \<Longrightarrow> fresh fs (loadTile ts t fs) x"
  "fresh fs ts x \<Longrightarrow> fresh fs (touchTile ts t fs) x"
  "fresh fs ts x \<Longrightarrow> fresh fs (visitTile ts t fs) x"
  "fresh fs ts x \<Longrightarrow> fresh fs (selectTile ts t fs) x"
  "fresh fs ts x \<Longrightarrow> fresh fs (addEmptyTile ts t) x"
  by (auto simp add: fresh_def)

lemma fresh_isVisible: "fresh fs ts c \<Longrightarrow> isVisible (tiles ts c) = shown fs c"
  by (simp add: fresh_def isVisible_def shown_def)

lemma emptySubtreeLoaded_frame:
  "frame ts ts' \<Longrightarrow> emptySubtreeLoaded ts' c = emptySubtreeLoaded ts c"
  by (simp add: emptySubtreeLoaded_def emptyVisited_frame emptyTraverses_frame frame_contentAvailable)

lemma childRefines_frame: "frame ts ts' \<Longrightarrow> childRefines ts' fs c = childRefines ts fs c"
  by (simp add: childRefines_def emptySubtreeLoaded_frame frame_contentAvailable frameD)

lemma executeEmptyTraversal_result:
  assumes "subtreeBound (tiles ts) w" and "w r \<le> N"
  shows "\<exists>ts'. executeEmptyTraversal N ts r fs = Some (emptySubtreeLoaded ts r, ts') \<and> frame ts ts'"
  using executeEmptyTraversal_loop_correct[OF assms(1), of "[r]" N fs True] assms(2)
  by (simp add: executeEmptyTraversal_def emptySubtreeLoaded_def)

lemma refineCheck_result:
  assumes "subtreeBound (tiles ts) w" and "w c \<le> N" and "fresh fs ts c"
  shows "\<exists>ts'. refineCheck N fs c ts = Some (childRefines ts fs c, ts') \<and> frame ts ts'"
proof (cases "tileInRequestVolume fs c \<and> hasEmptyContent' (tiles ts c)")
  case True
  with executeEmptyTraversal_result[OF assms(1,2), of fs] assms(3) show ?thesis
    by (simp add: refineCheck_def childRefines_def fresh_def)
next
  case False
  with assms(3) show ?thesis
    by (auto simp add: refineCheck_def childRefines_def fresh_def)
qed

lemma refineCheck_fresh:
  "refineCheck N fs c ts = Some (b, ts') \<Longrightarrow> fresh fs ts x \<Longrightarrow> fresh fs ts' x"
  by (rule refineCheck_preserves[where P="\<lambda>ts. fresh fs ts x"]) simp_all

lemma trackMinimum_simps [simp]:
  "stackOf (trackMinimum child i st) = stackOf st"
  "refinesOf (trackMinimum child i st) = refinesOf st"
  "anyChildrenVisible (trackMinimum child i st) = anyChildrenVisible st"
  by (simp_all add: trackMinimum_def)

lemma pushChild_simps:
  "stackOf (fst (pushChild fs chk c i st ts)) =
     (if isVisible (tiles ts c) then c # stackOf st else stackOf st)"
  "refinesOf (fst (pushChild fs chk c i st ts)) = refinesOf st"
  "anyChildrenVisible (fst (pushChild fs chk c i st ts)) =
     (anyChildrenVisible st \<or> isVisible (tiles ts c))"
  "frame ts (snd (pushChild fs chk c i st ts))"
  "fresh fs ts x \<Longrightarrow> fresh fs (snd (pushChild fs chk c i st ts)) x"
  by (simp_all add: pushChild_def frame_trans[OF frame_basic(1) frame_basic(2)])

lemma updateAndPushChildren_loop_result:
  assumes "subtreeBound (tiles ts) w" and "\<forall>c\<in>set cs. w c \<le> N" and "\<forall>c\<in>set cs. fresh fs ts c"
  shows "\<exists>st' ts'. updateAndPushChildren_loop N fs chk cs i st ts = Some (st', ts') \<and> frame ts ts'
     \<and> refinesOf st' = (refinesOf st \<and> (chk \<longrightarrow> (\<forall>c\<in>set cs. childRefines ts fs c)))
     \<and> anyChildrenVisible st' = (anyChildrenVisible st \<or> (\<exists>c\<in>set cs. shown fs c))
     \<and> stackOf st' = rev (filter (shown fs) cs) @ stackOf st"
  using assms
proof (induction cs arbitrary: i st ts)
  case Nil
  then show ?case by simp
next
  case (Cons c cs)
  let ?st1 = "fst (pushChild fs chk c i st ts)"
  let ?ts1 = "snd (pushChild fs chk c i st ts)"
  have fr1: "frame ts ?ts1" by (rule pushChild_simps)
  have b1: "subtreeBound (tiles ?ts1) w" using fr1 Cons.prems(1) by (rule subtreeBound_frame)
  have f1: "\<forall>x\<in>set (c # cs). fresh fs ?ts1 x" using Cons.prems(3) by (simp add: pushChild_simps)
  have vis: "isVisible (tiles ts c) = shown fs c" using Cons.prems(3) by (simp add: fresh_isVisible)
  show ?case
  proof (cases chk)
    case True
    from refineCheck_result[OF b1, of c N fs] Cons.prems(2) f1 obtain ts2 where
      rc: "refineCheck N fs c ?ts1 = Some (childRefines ?ts1 fs c, ts2)" and fr2: "frame ?ts1 ts2"
      by auto
    have fr02: "frame ts ts2" using fr1 fr2 by (rule frame_trans)
    have b2: "subtreeBound (tiles ts2) w" using fr02 Cons.prems(1) by (rule subtreeBound_frame)
    have f2: "\<forall>x\<in>set cs. fresh fs ts2 x" using f1 refineCheck_fresh[OF rc] by simp
    let ?st2 = "?st1\<lparr>refinesOf := (refinesOf ?st1 \<and> childRefines ?ts1 fs c)\<rparr>"
    have step: "updateAndPushChildren_loop N fs chk (c # cs) i st ts =
                updateAndPushChildren_loop N fs chk cs (i + 1) ?st2 ts2"
      unfolding updateAndPushChildren_loop_Cons rc using True by simp
    from Cons.IH[OF b2 _ f2, of "i + 1" ?st2] Cons.prems(2)
    obtain st' ts' where r:
      "updateAndPushChildren_loop N fs chk cs (i + 1) ?st2 ts2 = Some (st', ts')"
      "frame ts2 ts'"
      "refinesOf st' = (refinesOf ?st2 \<and> (chk \<longrightarrow> (\<forall>c\<in>set cs. childRefines ts2 fs c)))"
      "anyChildrenVisible st' = (anyChildrenVisible ?st2 \<or> (\<exists>c\<in>set cs. shown fs c))"
      "stackOf st' = rev (filter (shown fs) cs) @ stackOf ?st2"
      by auto
    have "frame ts ts'" using fr02 r(2) by (rule frame_trans)
    moreover have "refinesOf ?st2 = (refinesOf st \<and> childRefines ts fs c)"
      by (simp add: pushChild_simps childRefines_frame[OF fr1])
    then have "refinesOf st' = (refinesOf st \<and> (chk \<longrightarrow> (\<forall>c\<in>set (c # cs). childRefines ts fs c)))"
      unfolding r(3) using True
      by (auto simp add: childRefines_frame[OF fr02])
    moreover have "anyChildrenVisible st' = (anyChildrenVisible st \<or> (\<exists>c\<in>set (c # cs). shown fs c))"
      unfolding r(4) by (auto simp add: pushChild_simps vis)
    moreover have "stackOf st' = rev (filter (shown fs) (c # cs)) @ stackOf st"
      unfolding r(5) by (simp add: pushChild_simps vis)
    ultimately show ?thesis unfolding step r(1) by blast
  next
    case False
    have step: "updateAndPushChildren_loop N fs chk (c # cs) i st ts =
                updateAndPushChildren_loop N fs chk cs (i + 1) ?st1 ?ts1"
      unfolding updateAndPushChildren_loop_Cons using False by simp
    from Cons.IH[OF b1, of "i + 1" ?st1] Cons.prems(2) f1
    obtain st' ts' where r:
      "updateAndPushChildren_loop N fs chk cs (i + 1) ?st1 ?ts1 = Some (st', ts')"
      "frame ?ts1 ts'"
      "refinesOf st' = (refinesOf ?st1 \<and> (chk \<longrightarrow> (\<forall>c\<in>set cs. childRefines ?ts1 fs c)))"
      "anyChildrenVisible st' = (anyChildrenVisible ?st1 \<or> (\<exists>c\<in>set cs. shown fs c))"
      "stackOf st' = rev (filter (shown fs) cs) @ stackOf ?st1"
      by auto
    have "frame ts ts'" using fr1 r(2) by (rule frame_trans)
    moreover have "refinesOf st' = (refinesOf st \<and> (chk \<longrightarrow> (\<forall>c\<in>set (c # cs). childRefines ts fs c)))"
      unfolding r(3) using False by (simp add: pushChild_simps)
    moreover have "anyChildrenVisible st' = (anyChildrenVisible st \<or> (\<exists>c\<in>set (c # cs). shown fs c))"
      unfolding r(4) by (auto simp add: pushChild_simps vis)
    moreover have "stackOf st' = rev (filter (shown fs) (c # cs)) @ stackOf st"
      unfolding r(5) by (simp add: pushChild_simps vis)
    ultimately show ?thesis unfolding step r(1) by blast
  qed
qed

lemma mset_insertBy [simp]: "mset (insertBy cmp x xs) = add_mset x (mset xs)"
  by (induction xs) auto

lemma mset_sortBy [simp]: "mset (sortBy cmp xs) = mset xs"
  by (induction xs) (auto simp: sortBy_def)

lemma set_sortBy [simp]: "set (sortBy cmp xs) = set xs"
  by (metis mset_sortBy set_mset_mset)

lemma foldl_preserves:
  assumes "\<And>ts c. P ts \<Longrightarrow> P (f ts c)"
  shows "P ts \<Longrightarrow> P (foldl f ts cs)"
  using assms by (induction cs arbitrary: ts) auto

lemma foldl_updateTile_frame: "frame ts (foldl (\<lambda>ts c. updateTile ts c fs) ts cs)"
  by (rule foldl_preserves[where P="frame ts"]) (auto intro: frame_trans)

lemma foldl_updateTile_fresh:
  "x \<in> set cs \<or> fresh fs ts x \<Longrightarrow> fresh fs (foldl (\<lambda>ts c. updateTile ts c fs) ts cs) x"
proof (induction cs arbitrary: ts)
  case Nil
  then show ?case by simp
next
  case (Cons c cs)
  have "x \<in> set cs \<or> fresh fs (updateTile ts c fs) x"
    using Cons.prems by (cases "x = c") auto
  from Cons.IH[OF this] show ?case by simp
qed

lemma foldl_updateTile_children:
  "children (tiles (foldl (\<lambda>ts c. updateTile ts c fs) ts cs) t) = children (tiles ts t)"
  by (rule foldl_preserves[where P="\<lambda>ts'. children (tiles ts' t) = children (tiles ts t)"]) auto

lemma frame_upd:
  assumes "static (f (tiles ts t)) = static (tiles ts t)"
    and "mset (children (f (tiles ts t))) = mset (children (tiles ts t))"
  shows "frame ts (upd t f ts)"
  using assms by (simp add: frame_def)

lemma linkPriorityHolder_preserves:
  assumes "\<And>ts x. P ts \<Longrightarrow> P (upd x (\<lambda>y. y\<lparr>wasMinChild := True\<rparr>) ts)"
    and "\<And>ts x v. P ts \<Longrightarrow> P (upd x (\<lambda>y. y\<lparr>priorityDistance := v\<rparr>) ts)"
    and "\<And>ts x h. P ts \<Longrightarrow> P (upd x (\<lambda>y. y\<lparr>priorityDistanceHolder := h\<rparr>) ts)"
  shows "P ts \<Longrightarrow> P (linkPriorityHolder ts t m)"
  unfolding linkPriorityHolder_def Let_def
  using assms by (auto intro!: foldl_preserves[where P=P])

lemma frame_upd_trans:
  assumes "frame ts ts1" and "static (f (tiles ts1 t)) = static (tiles ts1 t)"
    and "mset (children (f (tiles ts1 t))) = mset (children (tiles ts1 t))"
  shows "frame ts (upd t f ts1)"
  using assms by (simp add: frame_def)

lemma linkPriorityHolder_frame: "frame ts (linkPriorityHolder ts t m)"
  by (rule linkPriorityHolder_preserves[where P="frame ts"])
     (simp_all add: frame_upd_trans)

lemma linkPriorityHolder_fresh: "fresh fs ts x \<Longrightarrow> fresh fs (linkPriorityHolder ts t m) x"
  by (rule linkPriorityHolder_preserves[where P="\<lambda>ts. fresh fs ts x"])
     (auto simp: fresh_def)

lemma updateAndPushChildren_preserves:
  assumes upd: "\<And>ts t. P ts \<Longrightarrow> P (updateTile ts t fs)"
    and load: "\<And>ts t. P ts \<Longrightarrow> P (loadTile ts t fs)"
    and touch: "\<And>ts t. P ts \<Longrightarrow> P (touchTile ts t fs)"
    and sort: "\<And>ts x cs. P ts \<Longrightarrow> mset cs = mset (children (tiles ts x)) \<Longrightarrow>
                 P (upd x (\<lambda>y. y\<lparr>children := cs\<rparr>) ts)"
    and minc: "\<And>ts x. P ts \<Longrightarrow> P (upd x (\<lambda>y. y\<lparr>wasMinChild := True\<rparr>) ts)"
    and prio: "\<And>ts x v. P ts \<Longrightarrow> P (upd x (\<lambda>y. y\<lparr>priorityDistance := v\<rparr>) ts)"
    and hold: "\<And>ts x h. P ts \<Longrightarrow> P (upd x (\<lambda>y. y\<lparr>priorityDistanceHolder := h\<rparr>) ts)"
  shows "updateAndPushChildren N ts t stack fs = Some (r, stack', ts') \<Longrightarrow> P ts \<Longrightarrow> P ts'"
proof -
  assume res: "updateAndPushChildren N ts t stack fs = Some (r, stack', ts')" and p: "P ts"
  let ?ts1 = "foldl (\<lambda>ts c. updateTile ts c fs) ts (children (tiles ts t))"
  let ?sorted = "sortBy (\<lambda>a b. sortChildrenByDistanceToCamera (tiles ?ts1 a) (tiles ?ts1 b))
                     (children (tiles ?ts1 t))"
  let ?ts2 = "upd t (\<lambda>x. x\<lparr>children := ?sorted\<rparr>) ?ts1"
  have p1: "P ?ts1"
    by (rule foldl_preserves[where P=P and f="\<lambda>ts c. updateTile ts c fs", OF upd p])
  have p2: "P ?ts2" using p1 by (rule sort) simp
  from res obtain st ts3 where
    loop: "updateAndPushChildren_loop N fs
             (\<not> skipLevelOfDetail' ?ts2 \<and> refine (tiles ts t) = REPLACE \<and> \<not> hasEmptyContent' (tiles ?ts2 t))
             ?sorted 0
             \<lparr>stackOf = stack, refinesOf = True, anyChildrenVisible = False,
                 minIndex = - 1, minDistancePriority = Number_MAX_VALUE\<rparr> ?ts2 = Some (st, ts3)"
    and ts': "ts' = linkPriorityHolder ts3 t (minIndex st)"
    unfolding updateAndPushChildren_def Let_def by (auto split: option.splits)
  have p3: "P ts3" by (rule updateAndPushChildren_loop_preserves[where P=P, OF upd load touch loop p2])
  show "P ts'" unfolding ts' by (rule linkPriorityHolder_preserves[where P=P, OF minc prio hold p3])
qed

lemma updateAndPushChildren_result:
  assumes "subtreeBound (tiles ts) w" and "w t \<le> N"
  shows "\<exists>stack' ts'. updateAndPushChildren N ts t stack fs =
            Some ((\<exists>c\<in>set (children (tiles ts t)). shown fs c) \<and>
                  (checkRefines ts t \<longrightarrow> (\<forall>c\<in>set (children (tiles ts t)). childRefines ts fs c)),
                  stack', ts')
          \<and> frame ts ts'
          \<and> (\<exists>cs. mset cs = mset (filter (shown fs) (children (tiles ts t))) \<and> stack' = cs @ stack)
          \<and> (\<forall>c\<in>set (children (tiles ts t)). fresh fs ts' c)"
proof -
  let ?cs = "children (tiles ts t)"
  let ?ts1 = "foldl (\<lambda>ts c. updateTile ts c fs) ts ?cs"
  let ?sorted = "sortBy (\<lambda>a b. sortChildrenByDistanceToCamera (tiles ?ts1 a) (tiles ?ts1 b))
                     (children (tiles ?ts1 t))"
  let ?ts2 = "upd t (\<lambda>x. x\<lparr>children := ?sorted\<rparr>) ?ts1"
  let ?chk = "\<not> skipLevelOfDetail' ?ts2 \<and> refine (tiles ts t) = REPLACE \<and> \<not> hasEmptyContent' (tiles ?ts2 t)"
  let ?st0 = "\<lparr>stackOf = stack, refinesOf = True, anyChildrenVisible = False,
                 minIndex = - 1, minDistancePriority = Number_MAX_VALUE\<rparr>"
  have fr1: "frame ts ?ts1" by (rule foldl_updateTile_frame)
  have fr12: "frame ?ts1 ?ts2" by (rule frame_upd) simp_all
  have fr2: "frame ts ?ts2" using fr1 fr12 by (rule frame_trans)
  have set_sorted: "set ?sorted = set ?cs" by (simp add: foldl_updateTile_children)
  have mset_sorted: "mset ?sorted = mset ?cs" by (simp add: foldl_updateTile_children)
  have b2: "subtreeBound (tiles ?ts2) w" using fr2 assms(1) by (rule subtreeBound_frame)
  have wc: "\<forall>c\<in>set ?sorted. w c \<le> N"
  proof
    fix c assume "c \<in> set ?sorted"
    then have "c \<in> set ?cs" using set_sorted by simp
    then have "w c \<le> sum_list (map w ?cs)" by (simp add: member_le_sum_list)
    with subtreeBound_children[OF assms(1), of t] assms(2) show "w c \<le> N" by simp
  qed
  have f2: "\<forall>c\<in>set ?sorted. fresh fs ?ts2 c"
  proof
    fix c assume "c \<in> set ?sorted"
    then have "c \<in> set ?cs" using set_sorted by simp
    then have "fresh fs ?ts1 c" by (simp add: foldl_updateTile_fresh)
    then show "fresh fs ?ts2 c" by (auto simp add: fresh_def)
  qed
  have chk: "?chk = checkRefines ts t"
    by (simp only: checkRefines_def frameD[OF fr2])
  from updateAndPushChildren_loop_result[OF b2 wc f2, of ?chk 0 ?st0]
  obtain st ts3 where r:
    "updateAndPushChildren_loop N fs ?chk ?sorted 0 ?st0 ?ts2 = Some (st, ts3)"
    "frame ?ts2 ts3"
    "refinesOf st = (refinesOf ?st0 \<and> (?chk \<longrightarrow> (\<forall>c\<in>set ?sorted. childRefines ?ts2 fs c)))"
    "anyChildrenVisible st = (anyChildrenVisible ?st0 \<or> (\<exists>c\<in>set ?sorted. shown fs c))"
    "stackOf st = rev (filter (shown fs) ?sorted) @ stackOf ?st0"
    by blast
  let ?ts' = "linkPriorityHolder ts3 t (minIndex st)"
  have res: "updateAndPushChildren N ts t stack fs =
          Some (if \<not> anyChildrenVisible st then False else refinesOf st, stackOf st, ?ts')"
    unfolding updateAndPushChildren_def Let_def r(1) by simp
  have fr': "frame ts ?ts'"
    using frame_trans[OF fr2 r(2)] linkPriorityHolder_frame by (rule frame_trans)
  have val: "(if \<not> anyChildrenVisible st then False else refinesOf st) =
        ((\<exists>c\<in>set ?cs. shown fs c) \<and> (checkRefines ts t \<longrightarrow> (\<forall>c\<in>set ?cs. childRefines ts fs c)))"
    unfolding r(3) r(4) chk set_sorted by (auto simp: childRefines_frame[OF fr2])
  have st: "\<exists>cs. mset cs = mset (filter (shown fs) ?cs) \<and> stackOf st = cs @ stack"
    unfolding r(5) using mset_sorted
    by (intro exI[of _ "rev (filter (shown fs) ?sorted)"]) (simp add: mset_filter)
  have fresh': "\<forall>c\<in>set ?cs. fresh fs ?ts' c"
  proof
    fix c assume "c \<in> set ?cs"
    then have "fresh fs ?ts2 c" using f2 set_sorted by simp
    then have "fresh fs ts3 c"
      by (rule updateAndPushChildren_loop_preserves[where P="\<lambda>ts. fresh fs ts c", OF _ _ _ r(1), rotated 3]) simp_all
    then show "fresh fs ?ts' c" by (rule linkPriorityHolder_fresh)
  qed
  show ?thesis unfolding res val using fr' st fresh' by blast
qed

section \<open>The empty subtree probe\<close>

text \<open>
  C7. Let the child relation of the store be bounded by the weights \<open>w\<close> (every tile
  weighs more than its children together, so the tiles form finite trees) and let the
  loop bound \<open>N\<close> be at least the weight of \<open>r\<close>. Then \<open>executeEmptyTraversal\<close> on \<open>r\<close>
  returns, and it returns \<open>true\<close> exactly when every tile it visits at which the descent
  stops (\<open>hasEmptyContent \<and> canTraverse\<close> does not hold) has \<open>contentAvailable\<close>. When a
  visited tile at which the descent stops lacks content and \<open>r\<close> is an empty child of
  a REPLACE tile \<open>p\<close> with content, in base mode, then \<open>updateAndPushChildren\<close> of \<open>p\<close>
  returns \<open>false\<close>: \<open>p\<close> does not refine.
\<close>

theorem executeEmptyTraversal_conjunction:
  assumes "subtreeBound (tiles ts) w" and "w r \<le> N"
  shows "(\<exists>ts'. executeEmptyTraversal N ts r fs =
            Some ((\<forall>t\<in>emptyVisited ts {r}.
                     \<not> (hasEmptyContent' (tiles ts t) \<and> canTraverse ts (tiles ts t))
                       \<longrightarrow> contentAvailable (tiles ts t)), ts'))
       \<and> ((\<exists>t\<in>emptyVisited ts {r}.
              \<not> (hasEmptyContent' (tiles ts t) \<and> canTraverse ts (tiles ts t))
              \<and> \<not> contentAvailable (tiles ts t))
            \<and> r \<in> set (children (tiles ts p)) \<and> hasEmptyContent' (tiles ts r) \<and> w p \<le> N
            \<and> \<not> skipLevelOfDetail' ts \<and> refine (tiles ts p) = REPLACE
            \<and> \<not> hasEmptyContent' (tiles ts p)
            \<longrightarrow> (\<exists>ts'. executeEmptyTraversal N ts r fs = Some (False, ts'))
              \<and> (\<exists>stack' ts'. updateAndPushChildren N ts p stack fs = Some (False, stack', ts')))"
proof (intro conjI impI)
  show 1: "\<exists>ts'. executeEmptyTraversal N ts r fs =
            Some ((\<forall>t\<in>emptyVisited ts {r}.
                     \<not> (hasEmptyContent' (tiles ts t) \<and> canTraverse ts (tiles ts t))
                       \<longrightarrow> contentAvailable (tiles ts t)), ts')"
    using executeEmptyTraversal_result[OF assms, of fs]
    by (auto simp: emptySubtreeLoaded_def emptyTraverses_def)
  assume h: "(\<exists>t\<in>emptyVisited ts {r}.
              \<not> (hasEmptyContent' (tiles ts t) \<and> canTraverse ts (tiles ts t))
              \<and> \<not> contentAvailable (tiles ts t))
            \<and> r \<in> set (children (tiles ts p)) \<and> hasEmptyContent' (tiles ts r) \<and> w p \<le> N
            \<and> \<not> skipLevelOfDetail' ts \<and> refine (tiles ts p) = REPLACE
            \<and> \<not> hasEmptyContent' (tiles ts p)"
  then have nl: "\<not> emptySubtreeLoaded ts r"
    by (auto simp: emptySubtreeLoaded_def emptyTraverses_def)
  then show "\<exists>ts'. executeEmptyTraversal N ts r fs = Some (False, ts')"
    using executeEmptyTraversal_result[OF assms, of fs] by auto
  from h nl have "checkRefines ts p" "\<not> childRefines ts fs r" "r \<in> set (children (tiles ts p))"
    by (auto simp: checkRefines_def childRefines_def)
  then have "\<not> ((\<exists>c\<in>set (children (tiles ts p)). shown fs c) \<and>
                  (checkRefines ts p \<longrightarrow> (\<forall>c\<in>set (children (tiles ts p)). childRefines ts fs c)))"
    by blast
  with updateAndPushChildren_result[OF assms(1), of p N stack fs] h
  show "\<exists>stack' ts'. updateAndPushChildren N ts p stack fs = Some (False, stack', ts')"
    by auto
qed

lemma emptySubtreeTileset_bound:
  "subtreeBound (tiles emptySubtreeTileset) ((\<lambda>t. 1)(0 := 3, 1 := 2))"
  by (simp add: subtreeBound_def emptySubtreeTileset_def example_defs)

theorem executeEmptyTraversal_conjunction_witness:
  "(\<exists>ts'. executeEmptyTraversal 3 emptySubtreeTileset 1 hiddenGrandchild = Some (False, ts'))
   \<and> (\<exists>stack' ts'. updateAndPushChildren 3 emptySubtreeTileset 0 [] hiddenGrandchild
          = Some (False, stack', ts'))"
proof -
  have v: "2 \<in> emptyVisited emptySubtreeTileset {1}"
    by (rule emptyVisited.child[of 1]) 
       (simp_all add: emptyVisited.start emptyTraverses_def emptySubtreeTileset_def example_defs
          hasEmptyContent'_def canTraverse_def)
  have s: "\<not> (hasEmptyContent' (tiles emptySubtreeTileset 2) \<and>
              canTraverse emptySubtreeTileset (tiles emptySubtreeTileset 2))
           \<and> \<not> contentAvailable (tiles emptySubtreeTileset 2)"
    by (simp add: emptySubtreeTileset_def example_defs hasEmptyContent'_def)
  have c: "1 \<in> set (children (tiles emptySubtreeTileset 0)) \<and>
           hasEmptyContent' (tiles emptySubtreeTileset 1) \<and>
           \<not> skipLevelOfDetail' emptySubtreeTileset \<and> refine (tiles emptySubtreeTileset 0) = REPLACE \<and>
           \<not> hasEmptyContent' (tiles emptySubtreeTileset 0)"
    by (simp add: emptySubtreeTileset_def example_defs hasEmptyContent'_def skipLevelOfDetail'_def)
  from executeEmptyTraversal_conjunction
         [OF emptySubtreeTileset_bound, of 1 3 hiddenGrandchild 0 "[]"] v s c
  show ?thesis by auto
qed

lemma preservedD:
  assumes "preserved fs P" and "P ts"
  shows "P (updateTile ts t fs)" "P (loadTile ts t fs)" "P (touchTile ts t fs)"
    "P (sortChildren ts t)" "P (upd t (\<lambda>y. y\<lparr>wasMinChild := True\<rparr>) ts)"
    "P (upd t (\<lambda>y. y\<lparr>priorityDistance := v\<rparr>) ts)"
    "P (upd t (\<lambda>y. y\<lparr>priorityDistanceHolder := h\<rparr>) ts)"
    "P (updateTileAncestorContentLinks ts t fs)" "P (addEmptyTile ts t)" "P (selectTile ts t fs)"
    "P (upd t (\<lambda>y. y\<lparr>shouldSelect := True\<rparr>) ts)" "P (visitTile ts t fs)"
    "P (upd t (\<lambda>y. y\<lparr>refines := b\<rparr>) ts)" "P (upd t (\<lambda>y. y\<lparr>finalResolution := False\<rparr>) ts)"
    "P (upd t (\<lambda>y. y\<lparr>selectionDepth := n\<rparr>) ts)" "P (upd t (\<lambda>y. y\<lparr>stackLength := n\<rparr>) ts)"
    "P (ts\<lparr>hasMixedContent := True\<rparr>)" "P (ts\<lparr>requestedTiles := []\<rparr>)"
    "P (ts\<lparr>selectedTiles := [], selectedTilesToStyle := [], emptyTiles := [], hasMixedContent := False\<rparr>)"
  using assms by (simp_all add: preserved_def)

lemma updateAndPushChildren_preserved:
  assumes "preserved fs P" and "updateAndPushChildren N ts t stack fs = Some (r, stack', ts')" and "P ts"
  shows "P ts'"
proof -
  let ?ts1 = "foldl (\<lambda>ts c. updateTile ts c fs) ts (children (tiles ts t))"
  let ?sorted = "sortBy (\<lambda>a b. sortChildrenByDistanceToCamera (tiles ?ts1 a) (tiles ?ts1 b))
                     (children (tiles ?ts1 t))"
  let ?ts2 = "upd t (\<lambda>x. x\<lparr>children := ?sorted\<rparr>) ?ts1"
  have p1: "P ?ts1"
    by (rule foldl_preserves[where P=P and f="\<lambda>ts c. updateTile ts c fs", OF _ assms(3)])
       (rule preservedD[OF assms(1)])
  have p2: "P ?ts2" using preservedD(4)[OF assms(1) p1, of t] by (simp only: sortChildren_def)
  from assms(2) obtain st ts3 where
    loop: "updateAndPushChildren_loop N fs
             (\<not> skipLevelOfDetail' ?ts2 \<and> refine (tiles ts t) = REPLACE \<and> \<not> hasEmptyContent' (tiles ?ts2 t))
             ?sorted 0
             \<lparr>stackOf = stack, refinesOf = True, anyChildrenVisible = False,
                 minIndex = - 1, minDistancePriority = Number_MAX_VALUE\<rparr> ?ts2 = Some (st, ts3)"
    and ts': "ts' = linkPriorityHolder ts3 t (minIndex st)"
    unfolding updateAndPushChildren_def Let_def by (auto split: option.splits)
  have p3: "P ts3"
    by (rule updateAndPushChildren_loop_preserves[where P=P, OF _ _ _ loop p2])
       (rule preservedD[OF assms(1)], assumption)+
  show "P ts'" unfolding ts'
    by (rule linkPriorityHolder_preserves[where P=P, OF _ _ _ p3])
       (rule preservedD[OF assms(1)], assumption)+
qed

lemma selectDescendants_children_preserved:
  assumes "preserved fs P"
  shows "P ts \<Longrightarrow> P (snd (selectDescendants_children ts r fs cs stack))"
proof (induction cs arbitrary: ts stack)
  case Nil
  then show ?case by simp
next
  case (Cons c cs)
  have "P (selectTile (touchTile (updateTile ts c fs) c fs) c fs)"
    by (intro preservedD[OF assms] Cons.prems)
  with Cons show ?case by simp
qed

lemma selectDescendants_loop_preserved:
  assumes "preserved fs P"
  shows "selectDescendants_loop n r fs stack ts = Some ts' \<Longrightarrow> P ts \<Longrightarrow> P ts'"
proof (induction n arbitrary: stack ts)
  case 0
  then show ?case by (cases stack) auto
next
  case (Suc n)
  show ?case
  proof (cases stack)
    case Nil
    with Suc.prems show ?thesis by simp
  next
    case (Cons t rest)
    obtain stack1 ts1 where
      c: "selectDescendants_children ts r fs (children (tiles ts t)) rest = (stack1, ts1)"
      by (cases "selectDescendants_children ts r fs (children (tiles ts t)) rest")
    have "P ts1"
      using selectDescendants_children_preserved[OF assms Suc.prems(2), of r "children (tiles ts t)" rest] c
      by simp
    with Suc.prems(1) Suc.IH show ?thesis unfolding Cons by (simp add: c)
  qed
qed

lemma selectDesiredTile_preserved:
  assumes "preserved fs P" and "selectDesiredTile N ts t fs = Some ts'" and "P ts"
  shows "P ts'"
  using assms(2,3) selectDescendants_loop_preserved[OF assms(1) _ assms(3)]
    preservedD(10,11)[OF assms(1,3)]
  by (auto simp: selectDesiredTile_def selectDescendants_def split: if_splits option.splits)

lemma visitDispatch_preserved:
  assumes "preserved fs P" and "visitDispatch N ts t fs a r b s = Some ts'" and "P ts"
  shows "P ts'"
proof -
  have a: "P (loadTile (addEmptyTile ts t) t fs)" "P (loadTile ts t fs)"
    by (intro preservedD[OF assms(1)] assms(3))+
  have sel: "\<And>ts1 ts2. selectDesiredTile N ts1 t fs = Some ts2 \<Longrightarrow> P ts1 \<Longrightarrow> P ts2"
    by (rule selectDesiredTile_preserved[OF assms(1)])
  have l: "\<And>ts1. P ts1 \<Longrightarrow> P (loadTile ts1 t fs)"
    by (rule preservedD[OF assms(1)])
  from assms(2) show ?thesis
    unfolding visitDispatch_def
    using a sel l assms(3) by (auto split: if_splits)
qed

lemma executeTraversal_visit_stages:
  "executeTraversal_visit N ts t baseSSE fs stack =
     (case inBaseTraversal (updateTileAncestorContentLinks ts t fs)
             (tiles (updateTileAncestorContentLinks ts t fs) t) baseSSE of
        None \<Rightarrow> None
      | Some baseTraversal \<Rightarrow>
          (case visitRefine N (updateTileAncestorContentLinks ts t fs) t stack fs of
             None \<Rightarrow> None
           | Some (r, stack2, ts2) \<Rightarrow>
               (case visitDispatch N ts2 t fs
                       (refine (tiles (updateTileAncestorContentLinks ts t fs) t) = ADD)
                       (refine (tiles (updateTileAncestorContentLinks ts t fs) t) = REPLACE)
                       baseTraversal
                       (\<not> (r \<and> parentRefines (updateTileAncestorContentLinks ts t fs) t) \<and>
                          parentRefines (updateTileAncestorContentLinks ts t fs) t) of
                  None \<Rightarrow> None
                | Some ts4 \<Rightarrow>
                    Some (stack2,
                          visitFinish ts4 t fs
                            (r \<and> parentRefines (updateTileAncestorContentLinks ts t fs) t)))))"
proof -
  let ?ts1 = "updateTileAncestorContentLinks ts t fs"
  show ?thesis
  proof (cases "inBaseTraversal ?ts1 (tiles ?ts1 t) baseSSE")
    case None
    then show ?thesis by (simp add: executeTraversal_visit_def)
  next
    case bt: (Some bt)
    show ?thesis
    proof (cases "canTraverse ?ts1 (tiles ?ts1 t)")
      case True
      show ?thesis
      proof (cases "updateAndPushChildren N ?ts1 t stack fs")
        case None
        then show ?thesis
          unfolding executeTraversal_visit_def Let_def bt visitRefine_def
          using True by (simp cong: option.case_cong)
      next
        case (Some res)
        obtain r stack2 ts2 where res: "res = (r, stack2, ts2)" by (cases res)
        show ?thesis
          unfolding executeTraversal_visit_def Let_def bt visitRefine_def Some res
            visitDispatch_def visitFinish_def parentRefines_def
          using True by (simp cong: option.case_cong)
      qed
    next
      case False
      show ?thesis
        unfolding executeTraversal_visit_def Let_def bt visitRefine_def
          visitDispatch_def visitFinish_def parentRefines_def
        using False by (simp cong: option.case_cong)
    qed
  qed
qed

lemma visitRefine_preserved:
  assumes "preserved fs P" and "visitRefine N ts t stack fs = Some (r, stack', ts')" and "P ts"
  shows "P ts'"
  using assms(2,3) updateAndPushChildren_preserved[OF assms(1) _ assms(3)]
  by (auto simp: visitRefine_def split: if_splits)

lemma visitFinish_preserved:
  assumes "preserved fs P" and "P ts"
  shows "P (visitFinish ts t fs b)"
  unfolding visitFinish_def by (intro preservedD[OF assms(1)] assms(2))

lemma executeTraversal_visit_preserved:
  assumes "preserved fs P" and "executeTraversal_visit N ts t baseSSE fs stack = Some (stack', ts')"
    and "P ts"
  shows "P ts'"
proof -
  let ?ts1 = "updateTileAncestorContentLinks ts t fs"
  have p1: "P ?ts1" using assms(1,3) by (rule preservedD)
  from assms(2) obtain bt r ts2 ts4 where
    s2: "visitRefine N ?ts1 t stack fs = Some (r, stack', ts2)"
    and s3: "visitDispatch N ts2 t fs (refine (tiles ?ts1 t) = ADD) (refine (tiles ?ts1 t) = REPLACE) bt
               (\<not> (r \<and> parentRefines ?ts1 t) \<and> parentRefines ?ts1 t) = Some ts4"
    and s4: "ts' = visitFinish ts4 t fs (r \<and> parentRefines ?ts1 t)"
    unfolding executeTraversal_visit_stages by (auto split: option.splits)
  have "P ts2" using assms(1) s2 p1 by (rule visitRefine_preserved)
  with assms(1) s3 have "P ts4" by (rule visitDispatch_preserved)
  with assms(1) show ?thesis unfolding s4 by (rule visitFinish_preserved)
qed

lemma executeTraversal_loop_preserved:
  assumes "preserved fs P"
  shows "executeTraversal_loop n N baseSSE fs stack ts = Some ts' \<Longrightarrow> P ts \<Longrightarrow> P ts'"
proof (induction n arbitrary: stack ts)
  case 0
  then show ?case by (cases stack) auto
next
  case (Suc n)
  show ?case
  proof (cases stack)
    case Nil
    with Suc.prems show ?thesis by simp
  next
    case (Cons t rest)
    with Suc.prems(1) obtain stack1 ts1 where
      v: "executeTraversal_visit N ts t baseSSE fs rest = Some (stack1, ts1)"
      and l: "executeTraversal_loop n N baseSSE fs stack1 ts1 = Some ts'"
      by (auto split: option.splits)
    have "P ts1" using assms v Suc.prems(2) by (rule executeTraversal_visit_preserved)
    with l show ?thesis by (rule Suc.IH)
  qed
qed

lemma traverseAndSelect_step_preserved:
  assumes "preserved fs P" and "P ts"
  shows "P (snd (snd (snd (traverseAndSelect_step fs stack anc la ts))))"
proof -
  note d = preservedD[OF assms(1)]
  have 1: "\<And>ts x. P ts \<Longrightarrow> P (selectTile ts x fs)" by (rule d)
  have 2: "\<And>ts x. P ts \<Longrightarrow> P (upd x (\<lambda>y. y\<lparr>finalResolution := False\<rparr>) ts)" by (rule d)
  have 3: "\<And>ts x n. P ts \<Longrightarrow> P (upd x (\<lambda>y. y\<lparr>selectionDepth := n\<rparr>) ts)" by (rule d)
  have 4: "\<And>ts x n. P ts \<Longrightarrow> P (upd x (\<lambda>y. y\<lparr>stackLength := n\<rparr>) ts)" by (rule d)
  have 5: "\<And>ts. P ts \<Longrightarrow> P (ts\<lparr>hasMixedContent := True\<rparr>)" by (rule d)
  show ?thesis
    unfolding traverseAndSelect_step_def Let_def
    using assms(2) 1 2 3 4 5 by (auto split: list.splits)
qed

lemma traverseAndSelect_loop_preserved:
  assumes "preserved fs P"
  shows "traverseAndSelect_loop n fs stack anc la ts = Some ts' \<Longrightarrow> P ts \<Longrightarrow> P ts'"
proof (induction n arbitrary: stack anc la ts)
  case 0
  then show ?case by (auto split: if_splits)
next
  case (Suc n)
  show ?case
  proof (cases "stack = [] \<and> anc = []")
    case True
    with Suc.prems show ?thesis by simp
  next
    case False
    obtain s1 a1 l1 ts1 where
      st: "traverseAndSelect_step fs stack anc la ts = (s1, a1, l1, ts1)"
      by (cases "traverseAndSelect_step fs stack anc la ts") auto
    have "P ts1" using traverseAndSelect_step_preserved[OF assms Suc.prems(2), of stack anc la] st
      by simp
    moreover have "traverseAndSelect_loop n fs s1 a1 l1 ts1 = Some ts'"
      using Suc.prems(1) False st by simp
    ultimately show ?thesis using Suc.IH by blast
  qed
qed

lemma selectTiles_preserved:
  assumes "preserved fs P" and "selectTiles N ts fs = Some (r, ts')" and "P ts"
  shows "P ts'"
proof -
  let ?ts1 = "ts\<lparr>requestedTiles := [], selectedTiles := [], selectedTilesToStyle := [], emptyTiles := [],
                  hasMixedContent := False\<rparr>"
  let ?ts2 = "updateTile ?ts1 (rootTile ts) fs"
  have p0: "P (ts\<lparr>requestedTiles := []\<rparr>)" using assms(1,3) by (rule preservedD)
  then have "P ?ts1" by (rule preservedD(19)[OF assms(1)])
  then have p2: "P ?ts2" by (rule preservedD(1)[OF assms(1)])
  have tr: "\<And>a b. executeTraversal N ?ts2 (rootTile ts) a b fs = Some ts' \<Longrightarrow> P ts'"
    unfolding executeTraversal_def using executeTraversal_loop_preserved[OF assms(1) _ p2] by blast
  have tr2: "\<And>a b ts3. executeTraversal N ?ts2 (rootTile ts) a b fs = Some ts3 \<Longrightarrow>
               traverseAndSelect N ts3 (rootTile ts) fs = Some ts' \<Longrightarrow> P ts'"
    unfolding executeTraversal_def traverseAndSelect_def
    using executeTraversal_loop_preserved[OF assms(1) _ p2] traverseAndSelect_loop_preserved[OF assms(1)]
    by blast
  from assms(2) show ?thesis
    unfolding selectTiles_def Let_def executeBaseTraversal_def executeSkipTraversal_def
      executeBaseAndSkipTraversal_def
    using p0 p2 tr tr2
    by (auto split: if_splits option.splits)
qed

lemma frame_prims [simp]:
  "frame ts (sortChildren ts t)"
  "frame ts (upd t (\<lambda>y. y\<lparr>wasMinChild := b\<rparr>) ts)"
  "frame ts (upd t (\<lambda>y. y\<lparr>priorityDistance := v\<rparr>) ts)"
  "frame ts (upd t (\<lambda>y. y\<lparr>priorityDistanceHolder := h\<rparr>) ts)"
  "frame ts (upd t (\<lambda>y. y\<lparr>shouldSelect := b\<rparr>) ts)"
  "frame ts (upd t (\<lambda>y. y\<lparr>refines := b\<rparr>) ts)"
  "frame ts (upd t (\<lambda>y. y\<lparr>finalResolution := b\<rparr>) ts)"
  "frame ts (upd t (\<lambda>y. y\<lparr>selectionDepth := n\<rparr>) ts)"
  "frame ts (upd t (\<lambda>y. y\<lparr>stackLength := n\<rparr>) ts)"
  "frame ts (ts\<lparr>hasMixedContent := b\<rparr>)"
  "frame ts (ts\<lparr>requestedTiles := l\<rparr>)"
  "frame ts (ts\<lparr>selectedTiles := l1, selectedTilesToStyle := l2, emptyTiles := l3, hasMixedContent := b\<rparr>)"
  by (simp_all add: frame_def sortChildren_def)

lemma preserved_frame: "preserved fs (frame ts0)"
  unfolding preserved_def
  by (intro conjI allI impI; erule frame_trans; simp)

lemma sortChildrenByDistanceToCamera_le:
  "sortChildrenByDistanceToCamera (tiles ts a) (tiles ts b) \<le> 0 \<longleftrightarrow> fartherFirst ts a b"
  by (auto simp: sortChildrenByDistanceToCamera_def fartherFirst_def)

lemma fartherFirst_trans: "fartherFirst ts a b \<Longrightarrow> fartherFirst ts b c \<Longrightarrow> fartherFirst ts a c"
  by (auto simp: fartherFirst_def)

lemma fartherFirst_total: "fartherFirst ts a b \<or> fartherFirst ts b a"
  by (auto simp: fartherFirst_def)

lemma set_insertBy: "set (insertBy cmp x xs) = insert x (set xs)"
  by (metis mset_insertBy set_mset_add_mset_insert set_mset_mset)

lemma sorted_insertBy:
  assumes "\<And>a b. cmp a b \<le> 0 \<longleftrightarrow> le a b"
    and "\<And>a b c. le a b \<Longrightarrow> le b c \<Longrightarrow> le a c" and "\<And>a b. le a b \<or> le b a"
  shows "sorted_wrt le xs \<Longrightarrow> sorted_wrt le (insertBy cmp x xs)"
proof (induction xs)
  case Nil
  then show ?case by simp
next
  case (Cons y ys)
  show ?case
  proof (cases "cmp x y \<le> 0")
    case True
    then have "le x y" using assms(1) by simp
    with Cons.prems assms(2) show ?thesis using True by auto
  next
    case False
    then have "le y x" using assms(1,3) by blast
    with Cons show ?thesis using False by (auto simp: set_insertBy)
  qed
qed

lemma sorted_sortBy:
  assumes "\<And>a b. cmp a b \<le> 0 \<longleftrightarrow> le a b"
    and "\<And>a b c. le a b \<Longrightarrow> le b c \<Longrightarrow> le a c" and "\<And>a b. le a b \<or> le b a"
  shows "sorted_wrt le (sortBy cmp xs)"
  unfolding sortBy_def
  by (induction xs) (simp_all add: sorted_insertBy[where le=le, OF assms])

lemma fartherFirst_frame: "frame ts ts' \<Longrightarrow> fartherFirst ts' = fartherFirst ts"
  by (intro ext) (simp add: fartherFirst_def static_eqD(10,11)[OF frameD(2)])

lemma sortedChildrenOf_sortChildren: "sortedChildrenOf (sortChildren ts x) x"
proof -
  have "sorted_wrt (fartherFirst ts)
          (sortBy (\<lambda>a b. sortChildrenByDistanceToCamera (tiles ts a) (tiles ts b)) (children (tiles ts x)))"
  proof (rule sorted_sortBy[where le="fartherFirst ts"])
    show "\<And>a b. (sortChildrenByDistanceToCamera (tiles ts a) (tiles ts b) \<le> 0) = fartherFirst ts a b"
      by (rule sortChildrenByDistanceToCamera_le)
    show "\<And>a b c. fartherFirst ts a b \<Longrightarrow> fartherFirst ts b c \<Longrightarrow> fartherFirst ts a c"
      by (rule fartherFirst_trans)
    show "\<And>a b. fartherFirst ts a b \<or> fartherFirst ts b a"
      by (rule fartherFirst_total)
  qed
  then show ?thesis
    unfolding sortedChildrenOf_def fartherFirst_frame[OF frame_prims(1)]
    by (simp add: sortChildren_def)
qed

lemma sortedChildrenOf_step:
  assumes "frame ts ts'" and "children (tiles ts' x) = children (tiles ts x)"
    and "sortedChildrenOf ts x"
  shows "sortedChildrenOf ts' x"
  using assms(2,3) by (simp add: sortedChildrenOf_def fartherFirst_frame[OF assms(1)])

lemma preserved_sortedChildrenOf: "preserved fs (\<lambda>ts. sortedChildrenOf ts x)"
  unfolding preserved_def
proof (intro conjI allI impI)
  fix ts t assume "sortedChildrenOf ts x"
  then show "sortedChildrenOf (sortChildren ts t) x"
  proof (cases "t = x")
    case True
    then show ?thesis by (simp add: sortedChildrenOf_sortChildren)
  next
    case False
    assume "sortedChildrenOf ts x"
    then show ?thesis
    proof (rule sortedChildrenOf_step[rotated 2])
      show "frame ts (sortChildren ts t)" by simp
      show "children (tiles (sortChildren ts t) x) = children (tiles ts x)"
        using False by (auto simp add: sortChildren_def)
    qed
  qed
next
  fix ts t assume "sortedChildrenOf ts x"
  then show "sortedChildrenOf (updateTileAncestorContentLinks ts t fs) x"
  proof (rule sortedChildrenOf_step[rotated 2])
    show "frame ts (updateTileAncestorContentLinks ts t fs)" by simp
    show "children (tiles (updateTileAncestorContentLinks ts t fs) x) = children (tiles ts x)"
      by (simp add: updateTileAncestorContentLinks_def Let_def split: option.splits)
  qed
qed (erule sortedChildrenOf_step[rotated 2]; simp)+

lemma selectDescendants_children_weight:
  "sum_list (map w (fst (selectDescendants_children ts r fs cs stack)))
     \<le> sum_list (map w cs) + sum_list (map (w::tile_ref \<Rightarrow> nat) stack)"
proof (induction cs arbitrary: ts stack)
  case Nil
  then show ?case by simp
next
  case (Cons c cs)
  show ?case
    using Cons[of ts stack] Cons[of ts "c # stack"]
      Cons[of "selectTile (touchTile (updateTile ts c fs) c fs) c fs" stack]
    by (simp del: updateTile_simps touchTile_simps selectTile_simps)
qed

lemma selectDescendants_children_frame:
  "frame ts (snd (selectDescendants_children ts r fs cs stack))"
  by (rule selectDescendants_children_preserved[OF preserved_frame frame_refl])

lemma selectDescendants_loop_terminates:
  assumes "subtreeBound (tiles ts) w" and "sum_list (map w stack) \<le> n"
  shows "\<exists>ts'. selectDescendants_loop n r fs stack ts = Some ts'"
  using assms
proof (induction n arbitrary: stack ts)
  case 0
  show ?case
  proof (cases stack)
    case Nil
    then show ?thesis by simp
  next
    case (Cons t rest)
    with 0 subtreeBound_children[of ts w t] show ?thesis by simp
  qed
next
  case (Suc n)
  show ?case
  proof (cases stack)
    case Nil
    then show ?thesis by simp
  next
    case (Cons t rest)
    obtain stack1 ts1 where
      c: "selectDescendants_children ts r fs (children (tiles ts t)) rest = (stack1, ts1)"
      by (cases "selectDescendants_children ts r fs (children (tiles ts t)) rest")
    have "frame ts ts1"
      using selectDescendants_children_frame[of ts r fs "children (tiles ts t)" rest] c by simp
    then have b1: "subtreeBound (tiles ts1) w" using Suc.prems(1) by (rule subtreeBound_frame)
    have "sum_list (map w stack1) \<le> sum_list (map w (children (tiles ts t))) + sum_list (map w rest)"
      using selectDescendants_children_weight[of w ts r fs "children (tiles ts t)" rest] c by simp
    then have "sum_list (map w stack1) \<le> n"
      using subtreeBound_children[OF Suc.prems(1), of t] Suc.prems(2) Cons by simp
    from Suc.IH[OF b1 this] show ?thesis unfolding Cons by (simp add: c)
  qed
qed

lemma selectDesiredTile_terminates:
  assumes "subtreeBound (tiles ts) w" and "w t \<le> N"
  shows "\<exists>ts'. selectDesiredTile N ts t fs = Some ts'"
  using selectDescendants_loop_terminates[OF assms(1), of "[t]" N t fs] assms(2)
  by (auto simp: selectDesiredTile_def selectDescendants_def split: option.splits)

lemma selectDesiredTile_frame:
  assumes "selectDesiredTile N ts t fs = Some ts'"
  shows "frame ts ts'"
  by (rule selectDesiredTile_preserved[OF preserved_frame assms frame_refl])

lemma visitDispatch_terminates:
  assumes "subtreeBound (tiles ts) w" and "w t \<le> N"
  shows "\<exists>ts'. visitDispatch N ts t fs a r b s = Some ts'"
proof -
  have 1: "\<exists>ts'. selectDesiredTile N ts t fs = Some ts'"
    using assms by (rule selectDesiredTile_terminates)
  have 2: "\<exists>ts'. selectDesiredTile N (loadTile ts t fs) t fs = Some ts'"
    by (rule selectDesiredTile_terminates[OF subtreeBound_frame[OF _ assms(1)] assms(2)]) simp
  have 3: "\<exists>ts'. selectDesiredTile N (loadTile (addEmptyTile ts t) t fs) t fs = Some ts'"
    by (rule selectDesiredTile_terminates[OF subtreeBound_frame[OF _ assms(1)] assms(2)])
       (rule frame_trans[OF frame_basic(4) frame_basic(1)])
  show ?thesis unfolding visitDispatch_def using 1 2 3 by auto
qed

lemma visitDispatch_frame:
  assumes "visitDispatch N ts t fs a r b s = Some ts'"
  shows "frame ts ts'"
  by (rule visitDispatch_preserved[OF preserved_frame assms frame_refl])

lemma inBaseTraversal_links:
  "inBaseTraversal (updateTileAncestorContentLinks ts t fs)
     (tiles (updateTileAncestorContentLinks ts t fs) t) baseSSE \<noteq> None"
  by (auto simp: inBaseTraversal_def updateTileAncestorContentLinks_def Let_def split: option.splits)

lemma visitRefine_result:
  assumes "subtreeBound (tiles ts) w" and "w t \<le> N"
  shows "\<exists>stack' ts'. visitRefine N ts t stack fs =
            Some (canTraverse ts (tiles ts t) \<and> (\<exists>c\<in>set (children (tiles ts t)). shown fs c) \<and>
                  (checkRefines ts t \<longrightarrow> (\<forall>c\<in>set (children (tiles ts t)). childRefines ts fs c)),
                  stack', ts')
          \<and> frame ts ts'
          \<and> (\<exists>cs. (if canTraverse ts (tiles ts t)
                     then mset cs = mset (filter (shown fs) (children (tiles ts t))) else cs = [])
                  \<and> stack' = cs @ stack)
          \<and> (canTraverse ts (tiles ts t) \<longrightarrow> (\<forall>c\<in>set (children (tiles ts t)). fresh fs ts' c))"
  using updateAndPushChildren_result[OF assms, of stack fs]
  by (auto simp: visitRefine_def)

lemma executeTraversal_visit_terminates:
  assumes "subtreeBound (tiles ts) w" and "w t \<le> N"
  shows "\<exists>stack' ts'. executeTraversal_visit N ts t baseSSE fs stack = Some (stack', ts')
           \<and> frame ts ts'
           \<and> (\<exists>cs. mset cs \<subseteq># mset (children (tiles ts t)) \<and> stack' = cs @ stack)"
proof -
  let ?ts1 = "updateTileAncestorContentLinks ts t fs"
  have fr1: "frame ts ?ts1" by simp
  have b1: "subtreeBound (tiles ?ts1) w" using fr1 assms(1) by (rule subtreeBound_frame)
  obtain bt where bt: "inBaseTraversal ?ts1 (tiles ?ts1 t) baseSSE = Some bt"
    using inBaseTraversal_links[of ts t fs baseSSE] by auto
  from visitRefine_result[OF b1 assms(2), of stack fs] obtain r stack' ts2 cs where
    s2: "visitRefine N ?ts1 t stack fs = Some (r, stack', ts2)" and fr2: "frame ?ts1 ts2"
    and cs: "if canTraverse ?ts1 (tiles ?ts1 t)
             then mset cs = mset (filter (shown fs) (children (tiles ?ts1 t))) else cs = []"
    and st: "stack' = cs @ stack"
    by blast
  have b2: "subtreeBound (tiles ts2) w" using fr2 b1 by (rule subtreeBound_frame)
  from visitDispatch_terminates[OF b2 assms(2)] obtain ts4 where
    s3: "visitDispatch N ts2 t fs (refine (tiles ?ts1 t) = ADD) (refine (tiles ?ts1 t) = REPLACE) bt
               (\<not> (r \<and> parentRefines ?ts1 t) \<and> parentRefines ?ts1 t) = Some ts4"
    by blast
  have fr4: "frame ts2 ts4" using s3 by (rule visitDispatch_frame)
  have fr5: "frame ts4 (visitFinish ts4 t fs (r \<and> parentRefines ?ts1 t))"
    by (rule visitFinish_preserved[OF preserved_frame frame_refl])
  have res: "executeTraversal_visit N ts t baseSSE fs stack =
               Some (stack', visitFinish ts4 t fs (r \<and> parentRefines ?ts1 t))"
    by (simp only: executeTraversal_visit_stages bt s2 s3 option.case prod.case)
  have "mset cs \<subseteq># mset (children (tiles ts t))"
  proof (cases "canTraverse ?ts1 (tiles ?ts1 t)")
    case True
    with cs have "mset cs = filter_mset (shown fs) (mset (children (tiles ?ts1 t)))"
      by (simp add: mset_filter)
    then show ?thesis unfolding frameD(3)[OF fr1] by simp
  next
    case False
    with cs show ?thesis by simp
  qed
  with res st frame_trans[OF frame_trans[OF frame_trans[OF fr1 fr2] fr4] fr5] show ?thesis by blast
qed

lemma sum_list_map_subseteq_mset:
  assumes "mset xs \<subseteq># mset ys"
  shows "sum_list (map (w::'a \<Rightarrow> nat) xs) \<le> sum_list (map w ys)"
proof -
  from assms obtain C where "mset ys = mset xs + C" by (auto simp: subset_mset.le_iff_add)
  moreover obtain zs where "mset zs = C" using ex_mset by blast
  ultimately have "mset ys = mset (xs @ zs)" by simp
  then have "sum_list (map w ys) = sum_list (map w (xs @ zs))" by (rule sum_list_map_mset)
  then show ?thesis by simp
qed

lemma executeTraversal_loop_terminates:
  assumes "subtreeBound (tiles ts) w" and "sum_list (map w stack) \<le> n" and "\<forall>t\<in>set stack. w t \<le> N"
  shows "\<exists>ts'. executeTraversal_loop n N baseSSE fs stack ts = Some ts'"
  using assms
proof (induction n arbitrary: stack ts)
  case 0
  show ?case
  proof (cases stack)
    case Nil
    then show ?thesis by simp
  next
    case (Cons t rest)
    with 0 subtreeBound_children[of ts w t] show ?thesis by simp
  qed
next
  case (Suc n)
  show ?case
  proof (cases stack)
    case Nil
    then show ?thesis by simp
  next
    case (Cons t rest)
    have wt: "w t \<le> N" using Suc.prems(3) Cons by simp
    from executeTraversal_visit_terminates[OF Suc.prems(1) wt, of baseSSE fs rest]
    obtain stack1 ts1 cs where
      v: "executeTraversal_visit N ts t baseSSE fs rest = Some (stack1, ts1)" and fr: "frame ts ts1"
      and cs: "mset cs \<subseteq># mset (children (tiles ts t))" and st: "stack1 = cs @ rest"
      by blast
    have b1: "subtreeBound (tiles ts1) w" using fr Suc.prems(1) by (rule subtreeBound_frame)
    have le: "sum_list (map w cs) \<le> sum_list (map w (children (tiles ts t)))"
      using cs by (rule sum_list_map_subseteq_mset)
    then have s1: "sum_list (map w stack1) \<le> n"
      using subtreeBound_children[OF Suc.prems(1), of t] Suc.prems(2) Cons st by simp
    have "\<forall>c\<in>set cs. w c \<le> N"
    proof
      fix c assume "c \<in> set cs"
      then have "w c \<le> sum_list (map w cs)" by (simp add: member_le_sum_list)
      with le subtreeBound_children[OF Suc.prems(1), of t] wt show "w c \<le> N" by simp
    qed
    then have s2: "\<forall>t\<in>set stack1. w t \<le> N" using Suc.prems(3) Cons st by auto
    from Suc.IH[OF b1 s1 s2] show ?thesis unfolding Cons by (simp add: v)
  qed
qed

lemma traverseAndSelect_step_waiting:
  assumes "waiting ts S A"
  shows "traverseAndSelect_step fs S A la ts =
           (S, tl A, la,
            selectTile (if Some (hd A) \<noteq> la then upd (hd A) (\<lambda>x. x\<lparr>finalResolution := False\<rparr>) ts else ts)
              (hd A) fs)"
  using assms by (simp add: traverseAndSelect_step_def waiting_def Let_def)

lemma traverseAndSelect_step_tile:
  assumes "\<not> waiting ts (t # rest) A"
  shows "traverseAndSelect_step fs (t # rest) A la ts =
           (if shouldSelect (tiles ts t) then
              (if refine (tiles ts t) = ADD then (pushVisible ts t @ rest, A, la, selectTile ts t fs)
               else if \<not> canTraverse ts (tiles ts t) then
                 (rest, A, Some t, selectTile (markDepth ts t (length A)) t fs)
               else (pushVisible ts t @ rest, t # A, Some t,
                     upd t (\<lambda>x. x\<lparr>stackLength := length rest\<rparr>) (markDepth ts t (length A))))
            else (pushVisible ts t @ rest, A, la, ts))"
  using assms
  by (cases "A = []")
     (simp_all add: traverseAndSelect_step_def waiting_def Let_def pushVisible_def markDepth_def)

lemma traverseAndSelect_step_empty:
  assumes "\<not> waiting ts [] A"
  shows "traverseAndSelect_step fs [] A la ts = ([], A, la, ts)"
  using assms by (cases "A = []") (simp_all add: traverseAndSelect_step_def waiting_def Let_def)

lemma pushVisible_weight:
  assumes "subtreeBound (tiles ts) w"
  shows "sum_list (map w (pushVisible ts t)) < w t" and "\<forall>c\<in>set (pushVisible ts t). w c < w t"
proof -
  have "mset (pushVisible ts t) \<subseteq># mset (children (tiles ts t))"
    by (simp add: pushVisible_def mset_filter)
  then have le: "sum_list (map w (pushVisible ts t)) \<le> sum_list (map w (children (tiles ts t)))"
    by (rule sum_list_map_subseteq_mset)
  then show lt: "sum_list (map w (pushVisible ts t)) < w t"
    using subtreeBound_children[OF assms, of t] by simp
  show "\<forall>c\<in>set (pushVisible ts t). w c < w t"
  proof
    fix c assume "c \<in> set (pushVisible ts t)"
    then have "w c \<le> sum_list (map w (pushVisible ts t))" by (simp add: member_le_sum_list)
    with lt show "w c < w t" by simp
  qed
qed

lemma selInv_popped:
  assumes "selInv w ts (t # rest) A" and "\<not> waiting ts (t # rest) A"
  shows "\<forall>a\<in>set A. stackLength (tiles ts a) \<le> length rest \<and> w t < w a \<and>
           (\<forall>s\<in>set (take (length rest - stackLength (tiles ts a)) rest). w s < w a)"
proof
  fix a assume a: "a \<in> set A"
  then obtain h A' where A: "A = h # A'" by (cases A) auto
  have h: "stackLength (tiles ts h) \<le> length rest"
    using assms A by (auto simp: selInv_def waiting_def)
  have "stackLength (tiles ts a) \<le> stackLength (tiles ts h)"
    using assms(1) a A by (auto simp: selInv_def)
  with h have l: "stackLength (tiles ts a) \<le> length rest" by simp
  then have tk: "take (length (t # rest) - stackLength (tiles ts a)) (t # rest) =
             t # take (length rest - stackLength (tiles ts a)) rest"
    by (simp add: Suc_diff_le)
  have "\<forall>s\<in>set (take (length (t # rest) - stackLength (tiles ts a)) (t # rest)). w s < w a"
    using assms(1) a by (simp add: selInv_def)
  with l show "stackLength (tiles ts a) \<le> length rest \<and> w t < w a \<and>
           (\<forall>s\<in>set (take (length rest - stackLength (tiles ts a)) rest). w s < w a)"
    unfolding tk by simp
qed

lemma selInv_step_waiting:
  assumes "selInv w ts S A" and "waiting ts S A"
    and "\<forall>a\<in>set (tl A). stackLength (tiles ts' a) = stackLength (tiles ts a)"
  shows "selInv w ts' S (tl A)"
proof -
  from assms(2) obtain h A' where A: "A = h # A'" by (cases A) (auto simp: waiting_def)
  have "sorted_wrt (\<lambda>a b. stackLength (tiles ts b) \<le> stackLength (tiles ts a)) A'"
    using assms(1) A by (simp add: selInv_def)
  then have "sorted_wrt (\<lambda>a b. stackLength (tiles ts' b) \<le> stackLength (tiles ts' a)) A'"
    using assms(3) A by (auto elim!: sorted_wrt_mono_rel[rotated])
  then show ?thesis using assms(1,3) A by (auto simp: selInv_def)
qed

lemma selInv_step_push:
  assumes "selInv w ts (t # rest) A" and "\<not> waiting ts (t # rest) A"
    and "\<forall>c\<in>set cs. w c < w t"
    and "\<forall>a\<in>set A. stackLength (tiles ts' a) = stackLength (tiles ts a)"
  shows "selInv w ts' (cs @ rest) A"
    and "stackLength (tiles ts' t) = length rest \<Longrightarrow> selInv w ts' (cs @ rest) (t # A)"
proof -
  note p = selInv_popped[OF assms(1,2)]
  have s: "sorted_wrt (\<lambda>a b. stackLength (tiles ts' b) \<le> stackLength (tiles ts' a)) A"
    using assms(1,4) by (auto simp: selInv_def elim!: sorted_wrt_mono_rel[rotated])
  have b: "\<forall>a\<in>set A. stackLength (tiles ts' a) \<le> length (cs @ rest) \<and>
        (\<forall>s\<in>set (take (length (cs @ rest) - stackLength (tiles ts' a)) (cs @ rest)). w s < w a)"
  proof
    fix a assume a: "a \<in> set A"
    have l: "stackLength (tiles ts' a) \<le> length rest" and wt: "w t < w a"
      and r: "\<forall>s\<in>set (take (length rest - stackLength (tiles ts a)) rest). w s < w a"
      using p a assms(4) by auto
    have "take (length (cs @ rest) - stackLength (tiles ts' a)) (cs @ rest) =
            cs @ take (length rest - stackLength (tiles ts' a)) rest"
      using l by simp
    moreover have "\<forall>c\<in>set cs. w c < w a" using assms(3) wt by force
    ultimately show "stackLength (tiles ts' a) \<le> length (cs @ rest) \<and>
        (\<forall>s\<in>set (take (length (cs @ rest) - stackLength (tiles ts' a)) (cs @ rest)). w s < w a)"
      using l r assms(4) a by auto
  qed
  show "selInv w ts' (cs @ rest) A" using s b by (simp add: selInv_def)
  assume t: "stackLength (tiles ts' t) = length rest"
  have "\<forall>a\<in>set A. stackLength (tiles ts' a) \<le> stackLength (tiles ts' t)"
    using p assms(4) t by auto
  with s b t assms(3) show "selInv w ts' (cs @ rest) (t # A)"
    by (auto simp: selInv_def)
qed

lemma traverseAndSelect_loop_rule:
  assumes "Inv S A la ts" and "m S A \<le> n"
    and step: "\<And>S A la ts S' A' la' ts'. Inv S A la ts \<Longrightarrow> \<not> (S = [] \<and> A = []) \<Longrightarrow>
            traverseAndSelect_step fs S A la ts = (S', A', la', ts') \<Longrightarrow>
            Inv S' A' la' ts' \<and> m S' A' < (m S A :: nat)"
  shows "\<exists>ts' la'. traverseAndSelect_loop n fs S A la ts = Some ts' \<and> Inv [] [] la' ts'"
  using assms(1,2)
proof (induction n arbitrary: S A la ts)
  case 0
  show ?case
  proof (cases "S = [] \<and> A = []")
    case True
    with 0 show ?thesis by auto
  next
    case False
    obtain S' A' la' ts' where st: "traverseAndSelect_step fs S A la ts = (S', A', la', ts')"
      by (cases "traverseAndSelect_step fs S A la ts") auto
    from step[OF 0(1) False st] 0(2) show ?thesis by simp
  qed
next
  case (Suc n)
  show ?case
  proof (cases "S = [] \<and> A = []")
    case True
    with Suc.prems show ?thesis by auto
  next
    case False
    obtain S' A' la' ts' where st: "traverseAndSelect_step fs S A la ts = (S', A', la', ts')"
      by (cases "traverseAndSelect_step fs S A la ts") auto
    from step[OF Suc.prems(1) False st] Suc.prems(2)
    have "Inv S' A' la' ts'" "m S' A' \<le> n" by auto
    moreover have "traverseAndSelect_loop (Suc n) fs S A la ts =
                   traverseAndSelect_loop n fs S' A' la' ts'"
      using False st by auto
    ultimately show ?thesis using Suc.IH by simp
  qed
qed

lemma stackLength_selectTile [simp]:
  "stackLength (tiles (selectTile ts t fs) a) = stackLength (tiles ts a)"
  by simp

lemma stackLength_markDepth [simp]:
  "stackLength (tiles (markDepth ts t n) a) = stackLength (tiles ts a)"
  by (simp add: markDepth_def)

lemma frame_markDepth [simp]: "frame ts (markDepth ts t n)"
  unfolding markDepth_def
  by (auto intro: frame_trans[OF frame_prims(8) frame_prims(10)])

lemma traverseAndSelect_step_cases:
  assumes "traverseAndSelect_step fs S A la ts = (S', A', la', ts')"
  obtains
    (wait) "waiting ts S A" "S' = S" "A' = tl A" "la' = la"
      "ts' = selectTile (if Some (hd A) \<noteq> la then upd (hd A) (\<lambda>x. x\<lparr>finalResolution := False\<rparr>) ts else ts)
               (hd A) fs"
  | (stuck) "\<not> waiting ts S A" "S = []" "S' = []" "A' = A" "la' = la" "ts' = ts"
  | (add) t rest where "\<not> waiting ts S A" "S = t # rest" "shouldSelect (tiles ts t)"
      "refine (tiles ts t) = ADD"
      "S' = pushVisible ts t @ rest" "A' = A" "la' = la" "ts' = selectTile ts t fs"
  | (leaf) t rest where "\<not> waiting ts S A" "S = t # rest" "shouldSelect (tiles ts t)"
      "refine (tiles ts t) \<noteq> ADD" "\<not> canTraverse ts (tiles ts t)"
      "S' = rest" "A' = A" "la' = Some t" "ts' = selectTile (markDepth ts t (length A)) t fs"
  | (push) t rest where "\<not> waiting ts S A" "S = t # rest" "shouldSelect (tiles ts t)"
      "refine (tiles ts t) \<noteq> ADD" "canTraverse ts (tiles ts t)"
      "S' = pushVisible ts t @ rest" "A' = t # A" "la' = Some t"
      "ts' = upd t (\<lambda>x. x\<lparr>stackLength := length rest\<rparr>) (markDepth ts t (length A))"
  | (skip) t rest where "\<not> waiting ts S A" "S = t # rest" "\<not> shouldSelect (tiles ts t)"
      "S' = pushVisible ts t @ rest" "A' = A" "la' = la" "ts' = ts"
proof (cases "waiting ts S A")
  case True
  from assms[unfolded traverseAndSelect_step_waiting[OF True]] have
    "S' = S" "A' = tl A" "la' = la"
    "ts' = selectTile (if Some (hd A) \<noteq> la then upd (hd A) (\<lambda>x. x\<lparr>finalResolution := False\<rparr>) ts else ts)
               (hd A) fs"
    by (auto simp only: prod.inject simp_thms)
  with True show ?thesis by (rule wait)
next
  case nw: False
  show ?thesis
  proof (cases S)
    case Nil
    from assms[unfolded Nil traverseAndSelect_step_empty[OF nw[unfolded Nil]]]
    have "S' = []" "A' = A" "la' = la" "ts' = ts" by (auto simp only: prod.inject simp_thms)
    with nw Nil show ?thesis by (rule stuck)
  next
    case (Cons t rest)
    note eq = assms[unfolded Cons traverseAndSelect_step_tile[OF nw[unfolded Cons]]]
    show ?thesis
    proof (cases "shouldSelect (tiles ts t)")
      case ss: True
      show ?thesis
      proof (cases "refine (tiles ts t) = ADD")
        case True
        from eq have "S' = pushVisible ts t @ rest" "A' = A" "la' = la" "ts' = selectTile ts t fs"
          by (auto simp only: ss True if_True prod.inject simp_thms)
        with nw Cons ss True show ?thesis by (rule add)
      next
        case na: False
        show ?thesis
        proof (cases "canTraverse ts (tiles ts t)")
          case True
          from eq have "S' = pushVisible ts t @ rest" "A' = t # A" "la' = Some t"
            "ts' = upd t (\<lambda>x. x\<lparr>stackLength := length rest\<rparr>) (markDepth ts t (length A))"
            by (auto simp only: ss na True if_True if_False not_True_eq_False prod.inject simp_thms)
          with nw Cons ss na True show ?thesis by (rule push)
        next
          case False
          from eq have "S' = rest" "A' = A" "la' = Some t"
            "ts' = selectTile (markDepth ts t (length A)) t fs"
            by (auto simp only: ss na False if_True if_False not_False_eq_True prod.inject simp_thms)
          with nw Cons ss na False show ?thesis by (rule leaf)
        qed
      qed
    next
      case False
      from eq have "S' = pushVisible ts t @ rest" "A' = A" "la' = la" "ts' = ts"
        by (auto simp only: False if_False prod.inject simp_thms)
      with nw Cons False show ?thesis by (rule skip)
    qed
  qed
qed

lemma traverseAndSelect_step_selInv:
  assumes "subtreeBound (tiles ts) w" and "selInv w ts S A" and "\<not> (S = [] \<and> A = [])"
    and "traverseAndSelect_step fs S A la ts = (S', A', la', ts')"
  shows "subtreeBound (tiles ts') w \<and> selInv w ts' S' A' \<and> selMeasure w S' A' < selMeasure w S A"
proof -
  have fr: "frame ts ts'"
    using traverseAndSelect_step_preserved[OF preserved_frame[of fs ts] frame_refl, of S A la] assms(4)
    by simp
  have b: "subtreeBound (tiles ts') w" using fr assms(1) by (rule subtreeBound_frame)
  from assms(4) show ?thesis
  proof (cases rule: traverseAndSelect_step_cases)
    case wait
    then have A: "A \<noteq> []" by (simp add: waiting_def)
    have "\<forall>a\<in>set (tl A). stackLength (tiles ts' a) = stackLength (tiles ts a)"
      unfolding wait(5) by simp
    from selInv_step_waiting[OF assms(2) wait(1) this] b A show ?thesis
      unfolding wait(2,3) by (cases A) (auto simp: selMeasure_def)
  next
    case stuck
    with assms(2,3) show ?thesis by (auto simp: selInv_def waiting_def)
  next
    case (add t rest)
    note pw = pushVisible_weight[OF assms(1), of t]
    have "\<forall>a\<in>set A. stackLength (tiles ts' a) = stackLength (tiles ts a)"
      unfolding add by simp
    from selInv_step_push(1)[OF assms(2)[unfolded add(2)] add(1)[unfolded add(2)] pw(2) this] b pw(1)
    show ?thesis unfolding add by (simp add: selMeasure_def)
  next
    case (leaf t rest)
    have "\<forall>a\<in>set A. stackLength (tiles ts' a) = stackLength (tiles ts a)"
      unfolding leaf by simp
    from selInv_step_push(1)[OF assms(2)[unfolded leaf(2)] leaf(1)[unfolded leaf(2)] _ this, of "[]"] b
    show ?thesis unfolding leaf using subtreeBound_children[OF assms(1), of t]
      by (simp add: selMeasure_def)
  next
    case (push t rest)
    note pw = pushVisible_weight[OF assms(1), of t]
    have tA: "t \<notin> set A"
      using selInv_popped[OF assms(2)[unfolded push(2)] push(1)[unfolded push(2)]] by auto
    have "\<forall>a\<in>set A. stackLength (tiles ts' a) = stackLength (tiles ts a)"
      unfolding push using tA by auto
    moreover have "stackLength (tiles ts' t) = length rest" unfolding push by simp
    ultimately show ?thesis
      using selInv_step_push(2)[OF assms(2)[unfolded push(2)] push(1)[unfolded push(2)] pw(2)] b pw(1)
      unfolding push(6,7) push(2) by (simp add: selMeasure_def)
  next
    case (skip t rest)
    note pw = pushVisible_weight[OF assms(1), of t]
    have "\<forall>a\<in>set A. stackLength (tiles ts' a) = stackLength (tiles ts a)"
      unfolding skip by simp
    from selInv_step_push(1)[OF assms(2)[unfolded skip(2)] skip(1)[unfolded skip(2)] pw(2) this] b pw(1)
    show ?thesis unfolding skip by (simp add: selMeasure_def)
  qed
qed

lemma traverseAndSelect_terminates:
  assumes "subtreeBound (tiles ts) w" and "2 * w r \<le> N"
  shows "\<exists>ts'. traverseAndSelect N ts r fs = Some ts'"
proof -
  have init: "subtreeBound (tiles ts) w \<and> selInv w ts [r] []"
    using assms(1) by (simp add: selInv_def)
  have m: "selMeasure w [r] [] \<le> N" using assms(2) by (simp add: selMeasure_def)
  have "\<exists>ts' (la'::tile_ref option). traverseAndSelect_loop N fs [r] [] None ts = Some ts' \<and>
          (subtreeBound (tiles ts') w \<and> selInv w ts' [] [])"
  proof (rule traverseAndSelect_loop_rule
         [where Inv="\<lambda>S A la ts. subtreeBound (tiles ts) w \<and> selInv w ts S A"
            and m="selMeasure w", OF init m])
    fix S A la ts S' A' la' ts'
    assume "subtreeBound (tiles ts) w \<and> selInv w ts S A" "\<not> (S = [] \<and> A = [])"
      "traverseAndSelect_step fs S A la ts = (S', A', la', ts')"
    then show "(subtreeBound (tiles ts') w \<and> selInv w ts' S' A') \<and> selMeasure w S' A' < selMeasure w S A"
      using traverseAndSelect_step_selInv by blast
  qed
  then show ?thesis by (auto simp: traverseAndSelect_def)
qed

lemma updateAndPushChildren_after_sort:
  assumes "preserved fs P" and "updateAndPushChildren N ts t stack fs = Some (r, stack', ts')"
    and "P (sortChildren (foldl (\<lambda>ts c. updateTile ts c fs) ts (children (tiles ts t))) t)"
  shows "P ts'"
proof -
  let ?ts1 = "foldl (\<lambda>ts c. updateTile ts c fs) ts (children (tiles ts t))"
  let ?sorted = "sortBy (\<lambda>a b. sortChildrenByDistanceToCamera (tiles ?ts1 a) (tiles ?ts1 b))
                     (children (tiles ?ts1 t))"
  let ?ts2 = "upd t (\<lambda>x. x\<lparr>children := ?sorted\<rparr>) ?ts1"
  have p2: "P ?ts2" using assms(3) by (simp only: sortChildren_def)
  from assms(2) obtain st ts3 where
    loop: "updateAndPushChildren_loop N fs
             (\<not> skipLevelOfDetail' ?ts2 \<and> refine (tiles ts t) = REPLACE \<and> \<not> hasEmptyContent' (tiles ?ts2 t))
             ?sorted 0
             \<lparr>stackOf = stack, refinesOf = True, anyChildrenVisible = False,
                 minIndex = - 1, minDistancePriority = Number_MAX_VALUE\<rparr> ?ts2 = Some (st, ts3)"
    and ts': "ts' = linkPriorityHolder ts3 t (minIndex st)"
    unfolding updateAndPushChildren_def Let_def by (auto split: option.splits)
  have p3: "P ts3"
    by (rule updateAndPushChildren_loop_preserves[where P=P, OF _ _ _ loop p2])
       (rule preservedD[OF assms(1)], assumption)+
  show "P ts'" unfolding ts'
    by (rule linkPriorityHolder_preserves[where P=P, OF _ _ _ p3])
       (rule preservedD[OF assms(1)], assumption)+
qed

lemma updateAndPushChildren_sorted:
  assumes "updateAndPushChildren N ts t stack fs = Some (r, stack', ts')"
  shows "sortedChildrenOf ts' t"
  by (rule updateAndPushChildren_after_sort[OF preserved_sortedChildrenOf assms])
     (rule sortedChildrenOf_sortChildren)

lemma executeTraversal_visit_sorted:
  assumes "executeTraversal_visit N ts t baseSSE fs stack = Some (stack', ts')"
    and "canTraverse ts (tiles ts t)"
  shows "sortedChildrenOf ts' t"
proof -
  let ?ts1 = "updateTileAncestorContentLinks ts t fs"
  have c1: "canTraverse ?ts1 (tiles ?ts1 t)" using assms(2) by (simp add: frameD(8)[OF frame_links])
  from assms(1) obtain bt r ts2 ts4 where
    s2: "visitRefine N ?ts1 t stack fs = Some (r, stack', ts2)"
    and s3: "visitDispatch N ts2 t fs (refine (tiles ?ts1 t) = ADD) (refine (tiles ?ts1 t) = REPLACE) bt
               (\<not> (r \<and> parentRefines ?ts1 t) \<and> parentRefines ?ts1 t) = Some ts4"
    and s4: "ts' = visitFinish ts4 t fs (r \<and> parentRefines ?ts1 t)"
    unfolding executeTraversal_visit_stages by (auto split: option.splits)
  from s2 c1 have "updateAndPushChildren N ?ts1 t stack fs = Some (r, stack', ts2)"
    by (simp add: visitRefine_def)
  then have "sortedChildrenOf ts2 t" by (rule updateAndPushChildren_sorted)
  with preserved_sortedChildrenOf s3 have "sortedChildrenOf ts4 t" by (rule visitDispatch_preserved)
  with preserved_sortedChildrenOf show ?thesis unfolding s4 by (rule visitFinish_preserved)
qed

lemma executeTraversal_sorted:
  assumes "executeTraversal N ts r b m fs = Some ts'" and "canTraverse ts (tiles ts r)"
  shows "sortedChildrenOf ts' r"
proof (cases N)
  case 0
  with assms(1) show ?thesis by (simp add: executeTraversal_def)
next
  case (Suc n)
  with assms(1) obtain stack1 ts1 where
    v: "executeTraversal_visit N ts r b fs [] = Some (stack1, ts1)"
    and l: "executeTraversal_loop n N b fs stack1 ts1 = Some ts'"
    by (auto simp: executeTraversal_def split: option.splits)
  from v assms(2) have "sortedChildrenOf ts1 r" by (rule executeTraversal_visit_sorted)
  with preserved_sortedChildrenOf l show ?thesis by (rule executeTraversal_loop_preserved)
qed

lemma traverseAndSelect_preserved:
  assumes "preserved fs P" and "traverseAndSelect N ts r fs = Some ts'" and "P ts"
  shows "P ts'"
  using assms traverseAndSelect_loop_preserved unfolding traverseAndSelect_def by blast

lemma executeTraversal_terminates:
  assumes "subtreeBound (tiles ts) w" and "w r \<le> N"
  shows "\<exists>ts'. executeTraversal N ts r b m fs = Some ts'"
  unfolding executeTraversal_def
  using executeTraversal_loop_terminates[OF assms(1), of "[r]" N N b fs] assms(2) by simp

lemma executeTraversal_preserved:
  assumes "preserved fs P" and "executeTraversal N ts r b m fs = Some ts'" and "P ts"
  shows "P ts'"
  using assms executeTraversal_loop_preserved unfolding executeTraversal_def by blast

lemma selectTiles_traversal:
  assumes "\<not> debugFreezeFrame ts" and "shown fs (rootTile ts)"
    and "maximumScreenSpaceError ts < tileScreenSpaceErrorWithParentError fs (rootTile ts)"
  shows "selectTiles N ts fs =
           map_option (Pair ReturnTrue)
             (traversalMode N (updateTile (resetLists ts) (rootTile ts) fs) (rootTile ts) fs)"
  using assms
  by (simp add: selectTiles_def traversalMode_def resetLists_def Let_def isVisible_def shown_def
      config_def skipLevelOfDetail'_def updateTile_def tile_updateVisibility_def
      tile_updateExpiration_def upd_def)

lemma traversalMode_terminates:
  assumes "subtreeBound (tiles ts) w" and "2 * w r \<le> N"
  shows "\<exists>ts'. traversalMode N ts r fs = Some ts'"
proof -
  have wr: "w r \<le> N" using assms(2) by simp
  have sel: "\<And>b m. \<exists>ts1 ts'. executeTraversal N ts r b m fs = Some ts1 \<and>
                 traverseAndSelect N ts1 r fs = Some ts'"
  proof -
    fix b m
    from executeTraversal_terminates[OF assms(1) wr, of b m fs] obtain ts1 where
      e: "executeTraversal N ts r b m fs = Some ts1" by blast
    have "frame ts ts1" by (rule executeTraversal_preserved[OF preserved_frame e frame_refl])
    then have "subtreeBound (tiles ts1) w" using assms(1) by (rule subtreeBound_frame)
    from traverseAndSelect_terminates[OF this assms(2), of fs] e
    show "\<exists>ts1 ts'. executeTraversal N ts r b m fs = Some ts1 \<and>
                 traverseAndSelect N ts1 r fs = Some ts'" by blast
  qed
  show ?thesis
    unfolding traversalMode_def executeBaseTraversal_def executeSkipTraversal_def
      executeBaseAndSkipTraversal_def
    using executeTraversal_terminates[OF assms(1) wr] sel
    by (auto split: option.splits) (metis option.distinct(1) option.inject)+
qed

lemma traversalMode_preserved:
  assumes "preserved fs P" and "traversalMode N ts r fs = Some ts'" and "P ts"
  shows "P ts'"
  using assms(2) executeTraversal_preserved[OF assms(1) _ assms(3)]
    traverseAndSelect_preserved[OF assms(1)]
  unfolding traversalMode_def executeBaseTraversal_def executeSkipTraversal_def
      executeBaseAndSkipTraversal_def
  by (auto split: if_splits option.splits)

lemma traversalMode_sorted:
  assumes "traversalMode N ts r fs = Some ts'" and "canTraverse ts (tiles ts r)"
  shows "sortedChildrenOf ts' r"
  using assms(1) executeTraversal_sorted[OF _ assms(2)]
    traverseAndSelect_preserved[OF preserved_sortedChildrenOf]
  unfolding traversalMode_def executeBaseTraversal_def executeSkipTraversal_def
      executeBaseAndSkipTraversal_def
  by (auto split: if_splits option.splits)

lemma selectTiles_terminates:
  assumes "subtreeBound (tiles ts) w" and "2 * w (rootTile ts) \<le> N"
  shows "\<exists>r ts'. selectTiles N ts fs = Some (r, ts')"
proof -
  let ?ts2 = "updateTile (resetLists ts) (rootTile ts) fs"
  have "frame ts ?ts2"
    unfolding resetLists_def by (simp add: frame_def)
  then have "subtreeBound (tiles ?ts2) w" using assms(1) by (rule subtreeBound_frame)
  from traversalMode_terminates[OF this assms(2), of fs] obtain ts' where
    "traversalMode N ?ts2 (rootTile ts) fs = Some ts'" by blast
  then have run: "\<not> debugFreezeFrame ts \<and> shown fs (rootTile ts) \<and>
      maximumScreenSpaceError ts < tileScreenSpaceErrorWithParentError fs (rootTile ts)
      \<Longrightarrow> ?thesis"
    by (simp add: selectTiles_traversal)
  have stop: "\<not> (\<not> debugFreezeFrame ts \<and> shown fs (rootTile ts) \<and>
      maximumScreenSpaceError ts < tileScreenSpaceErrorWithParentError fs (rootTile ts))
      \<Longrightarrow> ?thesis"
    by (auto simp add: selectTiles_def Let_def isVisible_def shown_def updateTile_def
        tile_updateVisibility_def tile_updateExpiration_def upd_def)
  from run stop show ?thesis by blast
qed

section \<open>The order of the children\<close>

text \<open>
  C9. \<open>updateAndPushChildren\<close> leaves the \<open>children\<close> field of its tile a permutation of
  what it was, ordered farthest first: by descending \<open>distanceToCamera\<close> and, where two
  distances are both exactly 0, by descending \<open>centerZDepth\<close> (\<open>fartherFirst\<close>). The
  reordering is stored in the tile and nothing later in the frame undoes it: when
  \<open>selectTiles\<close> runs a traversal from a root that can be traversed, the root's
  \<open>children\<close> field of the tileset it returns is in that order. The weights \<open>w\<close> bound the
  subtrees, so that both calls return within the loop bound \<open>N\<close>.
\<close>

theorem children_sorted_in_place:
  assumes "subtreeBound (tiles ts) w"
  shows "(w t \<le> N \<longrightarrow>
           (\<exists>r stack' ts'. updateAndPushChildren N ts t stack fs = Some (r, stack', ts')
              \<and> mset (children (tiles ts' t)) = mset (children (tiles ts t))
              \<and> sorted_wrt (fartherFirst ts) (children (tiles ts' t))))
       \<and> (2 * w (rootTile ts) \<le> N \<and> \<not> debugFreezeFrame ts
            \<and> tileVisible fs (rootTile ts) \<and> tileInRequestVolume fs (rootTile ts)
            \<and> maximumScreenSpaceError ts < tileScreenSpaceErrorWithParentError fs (rootTile ts)
            \<and> canTraverse ts (tiles ts (rootTile ts)) \<longrightarrow>
           (\<exists>ts'. selectTiles N ts fs = Some (ReturnTrue, ts')
              \<and> mset (children (tiles ts' (rootTile ts))) = mset (children (tiles ts (rootTile ts)))
              \<and> sorted_wrt (fartherFirst ts) (children (tiles ts' (rootTile ts)))))"
proof (intro conjI impI)
  assume wt: "w t \<le> N"
  from updateAndPushChildren_result[OF assms wt, of stack fs] obtain r stack' ts' where
    u: "updateAndPushChildren N ts t stack fs = Some (r, stack', ts')" and fr: "frame ts ts'"
    by blast
  have "sortedChildrenOf ts' t" using u by (rule updateAndPushChildren_sorted)
  then have "sorted_wrt (fartherFirst ts) (children (tiles ts' t))"
    by (simp add: sortedChildrenOf_def fartherFirst_frame[OF fr])
  with u frameD(3)[OF fr] show "\<exists>r stack' ts'. updateAndPushChildren N ts t stack fs = Some (r, stack', ts')
              \<and> mset (children (tiles ts' t)) = mset (children (tiles ts t))
              \<and> sorted_wrt (fartherFirst ts) (children (tiles ts' t))"
    by blast
next
  let ?r = "rootTile ts"
  let ?ts2 = "updateTile (resetLists ts) ?r fs"
  assume h: "2 * w ?r \<le> N \<and> \<not> debugFreezeFrame ts
            \<and> tileVisible fs ?r \<and> tileInRequestVolume fs ?r
            \<and> maximumScreenSpaceError ts < tileScreenSpaceErrorWithParentError fs ?r
            \<and> canTraverse ts (tiles ts ?r)"
  have fr2: "frame ts ?ts2" unfolding resetLists_def by (simp add: frame_def)
  have b2: "subtreeBound (tiles ?ts2) w" using fr2 assms by (rule subtreeBound_frame)
  from traversalMode_terminates[OF b2, of ?r N fs] h obtain ts' where
    t: "traversalMode N ?ts2 ?r fs = Some ts'" by blast
  have fr': "frame ts ts'"
    by (rule traversalMode_preserved[OF preserved_frame t fr2])
  have "canTraverse ?ts2 (tiles ?ts2 ?r)" using h by (simp only: frameD(8)[OF fr2])
  with t have "sortedChildrenOf ts' ?r" by (rule traversalMode_sorted)
  then have "sorted_wrt (fartherFirst ts) (children (tiles ts' ?r))"
    by (simp add: sortedChildrenOf_def fartherFirst_frame[OF fr'])
  moreover have "selectTiles N ts fs = Some (ReturnTrue, ts')"
    using h t by (simp add: selectTiles_traversal shown_def)
  ultimately show "\<exists>ts'. selectTiles N ts fs = Some (ReturnTrue, ts')
              \<and> mset (children (tiles ts' ?r)) = mset (children (tiles ts ?r))
              \<and> sorted_wrt (fartherFirst ts) (children (tiles ts' ?r))"
    using frameD(3)[OF fr'] by blast
qed

lemma chainTileset_bound:
  "subtreeBound (tiles chainTileset) ((\<lambda>t. 1)(0 := 4, 1 := 2))"
  by (simp add: subtreeBound_def chainTileset_def example_defs)

theorem children_sorted_in_place_witness:
  "\<exists>ts'. selectTiles 8 chainTileset (allVisible (\<lambda>t. 64)) = Some (ReturnTrue, ts')
      \<and> mset (children (tiles ts' 0)) = mset [1, 2]
      \<and> sorted_wrt (fartherFirst chainTileset) (children (tiles ts' 0))"
proof -
  have "2 * ((\<lambda>t. 1)(0 := 4, 1 := 2)) (rootTile chainTileset) \<le> (8::nat)
      \<and> \<not> debugFreezeFrame chainTileset
      \<and> tileVisible (allVisible (\<lambda>t. 64)) (rootTile chainTileset)
      \<and> tileInRequestVolume (allVisible (\<lambda>t. 64)) (rootTile chainTileset)
      \<and> maximumScreenSpaceError chainTileset
           < tileScreenSpaceErrorWithParentError (allVisible (\<lambda>t. 64)) (rootTile chainTileset)
      \<and> canTraverse chainTileset (tiles chainTileset (rootTile chainTileset))"
    by (simp add: chainTileset_def example_defs canTraverse_def)
  moreover have "rootTile chainTileset = 0" "children (tiles chainTileset 0) = [1, 2]"
    by (simp_all add: chainTileset_def example_defs)
  ultimately show ?thesis
    using children_sorted_in_place[OF chainTileset_bound, of 0 8 "[]" "allVisible (\<lambda>t. 64)"]
    by simp
qed

section \<open>The early returns of selectTiles\<close>

text \<open>
  C4 as the code has it. When the frame is not frozen, the root is visible and its
  screen-space error with the parent's geometric error is at most
  \<open>maximumScreenSpaceError\<close>, \<open>selectTiles\<close> returns at once, whatever the bound on the
  loops: \<open>selectedTiles\<close> and \<open>requestedTiles\<close> are empty and the call returns nothing
  (\<open>undefined\<close>), not \<open>true\<close>. It returns \<open>true\<close> only when a traversal ran: the frame is
  not frozen, the root is visible and over the budget, and the traversal of the mode
  returned the tileset that \<open>selectTiles\<close> returns.
\<close>

theorem selectTiles_root_meets_sse:
  "(\<not> debugFreezeFrame tileset
      \<and> tileVisible frameState (rootTile tileset)
      \<and> tileInRequestVolume frameState (rootTile tileset)
      \<and> tileScreenSpaceErrorWithParentError frameState (rootTile tileset)
            \<le> maximumScreenSpaceError tileset
    \<longrightarrow> (\<exists>ts'. selectTiles N tileset frameState = Some (Undefined, ts') \<and>
           selectedTiles ts' = [] \<and> requestedTiles ts' = []))
   \<and> (\<forall>ts'. selectTiles N tileset frameState = Some (ReturnTrue, ts') \<longrightarrow>
          \<not> debugFreezeFrame tileset
        \<and> tileVisible frameState (rootTile tileset)
        \<and> tileInRequestVolume frameState (rootTile tileset)
        \<and> maximumScreenSpaceError tileset
             < tileScreenSpaceErrorWithParentError frameState (rootTile tileset)
        \<and> traversalMode N (updateTile (resetLists tileset) (rootTile tileset) frameState)
              (rootTile tileset) frameState = Some ts')"
proof (intro conjI allI impI)
  assume "\<not> debugFreezeFrame tileset
      \<and> tileVisible frameState (rootTile tileset)
      \<and> tileInRequestVolume frameState (rootTile tileset)
      \<and> tileScreenSpaceErrorWithParentError frameState (rootTile tileset)
            \<le> maximumScreenSpaceError tileset"
  then show "\<exists>ts'. selectTiles N tileset frameState = Some (Undefined, ts') \<and>
           selectedTiles ts' = [] \<and> requestedTiles ts' = []"
    by (simp add: selectTiles_def updateTile_def tile_updateVisibility_def
        tile_updateExpiration_def upd_def isVisible_def Let_def)
next
  fix ts' assume t: "selectTiles N tileset frameState = Some (ReturnTrue, ts')"
  let ?run = "\<not> debugFreezeFrame tileset \<and> shown frameState (rootTile tileset) \<and>
      maximumScreenSpaceError tileset
        < tileScreenSpaceErrorWithParentError frameState (rootTile tileset)"
  have stop: "\<not> ?run \<Longrightarrow> \<exists>ts1. selectTiles N tileset frameState = Some (Undefined, ts1)"
    by (auto simp add: selectTiles_def Let_def isVisible_def shown_def updateTile_def
        tile_updateVisibility_def tile_updateExpiration_def upd_def)
  with t have run: ?run by auto
  then have "selectTiles N tileset frameState =
           map_option (Pair ReturnTrue)
             (traversalMode N (updateTile (resetLists tileset) (rootTile tileset) frameState)
                (rootTile tileset) frameState)"
    by (simp add: selectTiles_traversal)
  with t have "traversalMode N (updateTile (resetLists tileset) (rootTile tileset) frameState)
              (rootTile tileset) frameState = Some ts'"
    by auto
  with run show "\<not> debugFreezeFrame tileset" "tileVisible frameState (rootTile tileset)"
    "tileInRequestVolume frameState (rootTile tileset)"
    "maximumScreenSpaceError tileset
             < tileScreenSpaceErrorWithParentError frameState (rootTile tileset)"
    "traversalMode N (updateTile (resetLists tileset) (rootTile tileset) frameState)
              (rootTile tileset) frameState = Some ts'"
    by (simp_all add: shown_def)
qed

theorem selectTiles_root_meets_sse_witness:
  "(\<exists>ts'. selectTiles 0 (baseTileset (\<lambda>t. leafTile)) (allVisible (\<lambda>t. 10)) = Some (Undefined, ts') \<and>
           selectedTiles ts' = [] \<and> requestedTiles ts' = [])
   \<and> (\<exists>ts'. selectTiles 8 chainTileset (allVisible (\<lambda>t. 64)) = Some (ReturnTrue, ts')
          \<and> maximumScreenSpaceError chainTileset
               < tileScreenSpaceErrorWithParentError (allVisible (\<lambda>t. 64)) (rootTile chainTileset)
          \<and> traversalMode 8 (updateTile (resetLists chainTileset) (rootTile chainTileset)
                                (allVisible (\<lambda>t. 64)))
               (rootTile chainTileset) (allVisible (\<lambda>t. 64)) = Some ts')"
proof -
  have a: "\<not> debugFreezeFrame (baseTileset (\<lambda>t. leafTile))
      \<and> tileVisible (allVisible (\<lambda>t. 10)) (rootTile (baseTileset (\<lambda>t. leafTile)))
      \<and> tileInRequestVolume (allVisible (\<lambda>t. 10)) (rootTile (baseTileset (\<lambda>t. leafTile)))
      \<and> tileScreenSpaceErrorWithParentError (allVisible (\<lambda>t. 10)) (rootTile (baseTileset (\<lambda>t. leafTile)))
            \<le> maximumScreenSpaceError (baseTileset (\<lambda>t. leafTile))"
    by (simp add: example_defs)
  have "map_option fst (selectTiles 8 chainTileset (allVisible (\<lambda>t. 64))) = Some ReturnTrue"
    by (simp add: chainTileset_def eval_defs)
  then obtain ts' where
    b: "selectTiles 8 chainTileset (allVisible (\<lambda>t. 64)) = Some (ReturnTrue, ts')"
    by auto
  from a b show ?thesis
    using selectTiles_root_meets_sse[of "baseTileset (\<lambda>t. leafTile)" "allVisible (\<lambda>t. 10)" 0]
      selectTiles_root_meets_sse[of chainTileset "allVisible (\<lambda>t. 64)" 8]
    by blast
qed

text \<open>
  The first end-to-end scenario of the specification: root screen-space error 10 against
  a budget of 16, the root visible. The return value is \<open>undefined\<close>.
\<close>

theorem selectTiles_root_meets_sse_returns_undefined:
  "tileVisible (allVisible (\<lambda>t. 10)) (rootTile (baseTileset (\<lambda>t. leafTile)))
   \<and> tileScreenSpaceErrorWithParentError (allVisible (\<lambda>t. 10)) (rootTile (baseTileset (\<lambda>t. leafTile)))
       \<le> maximumScreenSpaceError (baseTileset (\<lambda>t. leafTile))
   \<and> map_option fst (selectTiles 8 (baseTileset (\<lambda>t. leafTile)) (allVisible (\<lambda>t. 10)))
       = Some Undefined
   \<and> map_option fst (selectTiles 8 (baseTileset (\<lambda>t. leafTile)) (allVisible (\<lambda>t. 10)))
       \<noteq> Some ReturnTrue"
  by (simp add: selectTiles_def updateTile_def tile_updateVisibility_def
        tile_updateExpiration_def upd_def isVisible_def Let_def example_defs)

section \<open>The priority holder\<close>

lemma ownPriority_basic [simp]:
  "ownPriority ts c \<Longrightarrow> ownPriority (updateTile ts t fs) c"
  "ownPriority (updateTile ts t fs) t"
  "ownPriority ts c \<Longrightarrow> ownPriority (loadTile ts t fs) c"
  "ownPriority ts c \<Longrightarrow> ownPriority (touchTile ts t fs) c"
  by (auto simp add: ownPriority_def getPriority_def)

lemma foldl_updateTile_ownPriority:
  "x \<in> set cs \<or> ownPriority ts x \<Longrightarrow> ownPriority (foldl (\<lambda>ts c. updateTile ts c fs) ts cs) x"
proof (induction cs arbitrary: ts)
  case Nil
  then show ?case by simp
next
  case (Cons c cs)
  have "x \<in> set cs \<or> ownPriority (updateTile ts c fs) x"
    using Cons.prems by (cases "x = c") auto
  from Cons.IH[OF this] show ?case by simp
qed

lemma trackMinimum_min:
  "minDistancePriority (trackMinimum child i st) = min (priorityDistance child) (minDistancePriority st)"
  "minIndex (trackMinimum child i st) =
     (if priorityDistance child < minDistancePriority st then i else minIndex st)"
  by (simp_all add: trackMinimum_def)

lemma pushChild_min:
  "minDistancePriority (fst (pushChild fs chk c i st ts)) =
     (if isVisible (tiles ts c) \<or> chk \<or> loadSiblings ts
      then min (priorityDistance (tiles ts c)) (minDistancePriority st)
      else minDistancePriority st)"
  "minIndex (fst (pushChild fs chk c i st ts)) =
     (if (isVisible (tiles ts c) \<or> chk \<or> loadSiblings ts)
         \<and> priorityDistance (tiles ts c) < minDistancePriority st
      then i else minIndex st)"
  by (simp_all add: pushChild_def trackMinimum_min)

lemma frame_loadSiblings: "frame ts ts' \<Longrightarrow> loadSiblings ts' = loadSiblings ts"
  by (simp add: frame_def config_def)

lemma updateAndPushChildren_loop_min:
  assumes "updateAndPushChildren_loop N fs chk cs i st ts = Some (st', ts')"
    and "\<forall>c\<in>set cs. fresh fs ts c \<and> ownPriority ts c"
  shows "(\<forall>c\<in>set cs. shown fs c \<or> chk \<or> loadSiblings ts \<longrightarrow>
             minDistancePriority st' \<le> getPriority ts (tiles ts c))
       \<and> minDistancePriority st' \<le> minDistancePriority st
       \<and> ((minIndex st' = minIndex st \<and> minDistancePriority st' = minDistancePriority st) \<or>
          (i \<le> minIndex st' \<and> minIndex st' < i + int (length cs) \<and>
           getPriority ts (tiles ts (cs ! nat (minIndex st' - i))) = minDistancePriority st'))"
  using assms
proof (induction cs arbitrary: i st ts)
  case Nil
  then show ?case by simp
next
  case (Cons c cs)
  let ?st1 = "fst (pushChild fs chk c i st ts)"
  let ?ts1 = "snd (pushChild fs chk c i st ts)"
  let ?P = "\<lambda>x ts. fresh fs ts x \<and> ownPriority ts x"
  have fr1: "frame ts ?ts1" by (rule pushChild_simps)
  have p1: "\<forall>x\<in>set (c # cs). ?P x ?ts1"
  proof
    fix x assume "x \<in> set (c # cs)"
    with Cons.prems(2) have "?P x ts" by blast
    then show "?P x ?ts1"
      by (rule pushChild_preserves[where P="?P x", rotated 2]) simp_all
  qed
  have vis: "isVisible (tiles ts c) = shown fs c" using Cons.prems(2) by (simp add: fresh_isVisible)
  have pc: "priorityDistance (tiles ts c) = getPriority ts (tiles ts c)"
    using Cons.prems(2) by (simp add: ownPriority_def)
  obtain st2 ts2 where
    rest: "updateAndPushChildren_loop N fs chk cs (i + 1) st2 ts2 = Some (st', ts')"
    and fr2: "frame ts ts2" and p2: "\<forall>x\<in>set cs. ?P x ts2"
    and m2: "minDistancePriority st2 = minDistancePriority ?st1"
    and i2: "minIndex st2 = minIndex ?st1"
  proof (cases chk)
    case True
    with Cons.prems(1) obtain b ts2 where
      rc: "refineCheck N fs c ?ts1 = Some (b, ts2)"
      and rest: "updateAndPushChildren_loop N fs chk cs (i + 1)
               (?st1\<lparr>refinesOf := (refinesOf ?st1 \<and> b)\<rparr>) ts2 = Some (st', ts')"
      unfolding updateAndPushChildren_loop_Cons by (auto split: option.splits)
    have "frame ?ts1 ts2"
      by (rule refineCheck_preserves[where P="frame ?ts1", OF _ _ _ rc frame_refl])
         (auto intro: frame_trans)
    then have f: "frame ts ts2" using fr1 frame_trans by blast
    have "\<forall>x\<in>set cs. ?P x ts2"
    proof
      fix x assume "x \<in> set cs"
      with p1 have "?P x ?ts1" by simp
      then show "?P x ts2"
        by (rule refineCheck_preserves[where P="?P x", OF _ _ _ rc, rotated 3]) simp_all
    qed
    with rest f show ?thesis by (intro that[of "?st1\<lparr>refinesOf := (refinesOf ?st1 \<and> b)\<rparr>" ts2]) simp_all
  next
    case False
    with Cons.prems(1) have "updateAndPushChildren_loop N fs chk cs (i + 1) ?st1 ?ts1 = Some (st', ts')"
      unfolding updateAndPushChildren_loop_Cons by simp
    with fr1 p1 show ?thesis by (intro that[of ?st1 ?ts1]) simp_all
  qed
  note ih = Cons.IH[OF rest p2]
  have gp: "\<And>x. getPriority ts2 (tiles ts2 x) = getPriority ts (tiles ts x)"
    by (rule frameD(9)[OF fr2])
  have ls: "loadSiblings ts2 = loadSiblings ts" by (rule frame_loadSiblings[OF fr2])
  let ?part = "shown fs c \<or> chk \<or> loadSiblings ts"
  have m1: "minDistancePriority st2 =
      (if ?part then min (getPriority ts (tiles ts c)) (minDistancePriority st) else minDistancePriority st)"
    unfolding m2 pushChild_min vis pc by simp
  have i1: "minIndex st2 =
      (if ?part \<and> getPriority ts (tiles ts c) < minDistancePriority st then i else minIndex st)"
    unfolding i2 pushChild_min vis pc by simp
  from ih have a: "\<forall>x\<in>set cs. shown fs x \<or> chk \<or> loadSiblings ts \<longrightarrow>
             minDistancePriority st' \<le> getPriority ts (tiles ts x)"
    and b: "minDistancePriority st' \<le> minDistancePriority st2"
    and c: "(minIndex st' = minIndex st2 \<and> minDistancePriority st' = minDistancePriority st2) \<or>
          (i + 1 \<le> minIndex st' \<and> minIndex st' < i + 1 + int (length cs) \<and>
           getPriority ts (tiles ts (cs ! nat (minIndex st' - (i + 1)))) = minDistancePriority st')"
    unfolding gp ls by blast+
  have A: "\<forall>x\<in>set (c # cs). shown fs x \<or> chk \<or> loadSiblings ts \<longrightarrow>
             minDistancePriority st' \<le> getPriority ts (tiles ts x)"
    using a b m1 by (auto split: if_splits)
  have B: "minDistancePriority st' \<le> minDistancePriority st"
    using b m1 by (auto split: if_splits)
  have C: "(minIndex st' = minIndex st \<and> minDistancePriority st' = minDistancePriority st) \<or>
          (i \<le> minIndex st' \<and> minIndex st' < i + int (length (c # cs)) \<and>
           getPriority ts (tiles ts ((c # cs) ! nat (minIndex st' - i))) = minDistancePriority st')"
    using c
  proof
    assume h: "minIndex st' = minIndex st2 \<and> minDistancePriority st' = minDistancePriority st2"
    show ?thesis
    proof (cases "?part \<and> getPriority ts (tiles ts c) < minDistancePriority st")
      case True
      with h m1 i1 show ?thesis by simp
    next
      case False
      with h m1 i1 show ?thesis by (auto simp: min_def)
    qed
  next
    assume h: "i + 1 \<le> minIndex st' \<and> minIndex st' < i + 1 + int (length cs) \<and>
           getPriority ts (tiles ts (cs ! nat (minIndex st' - (i + 1)))) = minDistancePriority st'"
    then have "nat (minIndex st' - i) = Suc (nat (minIndex st' - (i + 1)))" by linarith
    with h show ?thesis by simp
  qed
  from A B C show ?case by blast
qed

lemma foldl_holder:
  "tiles (foldl (\<lambda>ts c. upd c (\<lambda>x. x\<lparr>priorityDistanceHolder := h\<rparr>) ts) ts cs) x =
     (if x \<in> set cs then (tiles ts x)\<lparr>priorityDistanceHolder := h\<rparr> else tiles ts x)"
  by (induction cs arbitrary: ts) auto

lemma linkPriorityHolder_linked:
  assumes "m \<noteq> - 1"
  shows "\<exists>h. \<forall>c\<in>set (children (tiles ts t)).
           priorityDistanceHolder (tiles (linkPriorityHolder ts t m) c) = h
         \<and> priorityDistance (tiles (linkPriorityHolder ts t m) h) =
             priorityDistance (tiles ts (children (tiles ts t) ! nat m))
         \<and> priorityDistance (tiles (linkPriorityHolder ts t m) c) =
             (if c = h then priorityDistance (tiles ts (children (tiles ts t) ! nat m))
              else priorityDistance (tiles ts c))"
  using assms unfolding linkPriorityHolder_def Let_def
  by (intro exI[of _ "if wasMinChild (tiles (upd (children (tiles ts t) ! nat m) (\<lambda>x. x\<lparr>wasMinChild := True\<rparr>) ts) t)
                        \<or> t = rootTile (upd (children (tiles ts t) ! nat m) (\<lambda>x. x\<lparr>wasMinChild := True\<rparr>) ts)
                      then priorityDistanceHolder (tiles (upd (children (tiles ts t) ! nat m) (\<lambda>x. x\<lparr>wasMinChild := True\<rparr>) ts) t)
                      else t"])
     (simp add: foldl_holder)

lemma children_basic [simp]:
  "children (tiles (updateTile ts x fs) t) = children (tiles ts t)"
  "children (tiles (loadTile ts x fs) t) = children (tiles ts t)"
  "children (tiles (touchTile ts x fs) t) = children (tiles ts t)"
  by auto

lemma updateAndPushChildren_loop_children:
  assumes "updateAndPushChildren_loop N fs chk cs i st ts = Some (st', ts')"
    and "children (tiles ts t) = L"
  shows "children (tiles ts' t) = L"
  by (rule updateAndPushChildren_loop_preserves
        [where P="\<lambda>ts. children (tiles ts t) = L", OF _ _ _ assms]) auto

text \<open>
  C8 as the code has it. When \<open>updateAndPushChildren\<close> returns, every child that took part
  in the search for the minimum (a visible child, or any child when the refine check is
  on or \<open>loadSiblings\<close> is set) has a \<open>priorityDistanceHolder\<close> whose \<open>priorityDistance\<close> is
  at most the child's own. The relation holds at that moment only: a later call for one
  of the children overwrites the holder's priority.
\<close>

theorem priorityDistanceHolder_after_push:
  assumes "subtreeBound (tiles ts) w" and "w t \<le> N"
  shows "\<exists>r stack' ts'. updateAndPushChildren N ts t stack fs = Some (r, stack', ts')
     \<and> (\<forall>c\<in>set (children (tiles ts t)). takesPart ts fs t c \<longrightarrow>
          priorityDistance (tiles ts' (priorityDistanceHolder (tiles ts' c)))
            \<le> priorityDistance (tiles ts' c))"
proof -
  let ?cs = "children (tiles ts t)"
  let ?ts1 = "foldl (\<lambda>ts c. updateTile ts c fs) ts ?cs"
  let ?sorted = "sortBy (\<lambda>a b. sortChildrenByDistanceToCamera (tiles ?ts1 a) (tiles ?ts1 b))
                     (children (tiles ?ts1 t))"
  let ?ts2 = "upd t (\<lambda>x. x\<lparr>children := ?sorted\<rparr>) ?ts1"
  let ?chk = "\<not> skipLevelOfDetail' ?ts2 \<and> refine (tiles ts t) = REPLACE \<and> \<not> hasEmptyContent' (tiles ?ts2 t)"
  let ?st0 = "\<lparr>stackOf = stack, refinesOf = True, anyChildrenVisible = False,
                 minIndex = - 1, minDistancePriority = Number_MAX_VALUE\<rparr>"
  let ?P = "\<lambda>x ts. fresh fs ts x \<and> ownPriority ts x"
  from updateAndPushChildren_result[OF assms, of stack fs] obtain r stack' ts' where
    res: "updateAndPushChildren N ts t stack fs = Some (r, stack', ts')" by blast
  then obtain st ts3 where
    loop: "updateAndPushChildren_loop N fs ?chk ?sorted 0 ?st0 ?ts2 = Some (st, ts3)"
    and ts': "ts' = linkPriorityHolder ts3 t (minIndex st)"
    unfolding updateAndPushChildren_def Let_def by (auto split: option.splits)
  have fr1: "frame ts ?ts1" by (rule foldl_updateTile_frame)
  have fr12: "frame ?ts1 ?ts2" by (rule frame_upd) simp_all
  have fr2: "frame ts ?ts2" using fr1 fr12 by (rule frame_trans)
  have fr3: "frame ?ts2 ts3"
    by (rule updateAndPushChildren_loop_preserves[where P="frame ?ts2", OF _ _ _ loop frame_refl])
       (auto intro: frame_trans)
  have set_sorted: "set ?sorted = set ?cs" by (simp add: foldl_updateTile_children)
  have chk: "?chk = checkRefines ts t"
    by (simp only: checkRefines_def frameD[OF fr2])
  have p2: "\<forall>c\<in>set ?sorted. ?P c ?ts2"
  proof
    fix c assume "c \<in> set ?sorted"
    then have "c \<in> set ?cs" using set_sorted by simp
    then have "fresh fs ?ts1 c" "ownPriority ?ts1 c"
      by (simp_all add: foldl_updateTile_fresh foldl_updateTile_ownPriority)
    then show "?P c ?ts2" by (auto simp add: fresh_def ownPriority_def getPriority_def)
  qed
  have p3: "\<forall>c\<in>set ?sorted. ownPriority ts3 c"
  proof
    fix c assume "c \<in> set ?sorted"
    with p2 have "ownPriority ?ts2 c" by simp
    then show "ownPriority ts3 c"
      by (rule updateAndPushChildren_loop_preserves[where P="\<lambda>ts. ownPriority ts c", OF _ _ _ loop, rotated 3])
         simp_all
  qed
  have ch3: "children (tiles ts3 t) = ?sorted"
    by (rule updateAndPushChildren_loop_children[OF loop]) simp
  have gp: "\<And>x. getPriority ?ts2 (tiles ?ts2 x) = getPriority ts3 (tiles ts3 x)"
    by (rule frameD(9)[OF fr3, symmetric])
  have ls: "loadSiblings ?ts2 = loadSiblings ts" by (rule frame_loadSiblings[OF fr2])
  from updateAndPushChildren_loop_min[OF loop p2]
  have lo: "\<forall>c\<in>set ?sorted. takesPart ts fs t c \<longrightarrow>
               minDistancePriority st \<le> priorityDistance (tiles ts3 c)"
    and mi: "minIndex st = - 1 \<or>
          (0 \<le> minIndex st \<and> minIndex st < int (length ?sorted) \<and>
           priorityDistance (tiles ts3 (?sorted ! nat (minIndex st))) = minDistancePriority st)"
  proof -
    assume h: "(\<forall>c\<in>set ?sorted. shown fs c \<or> ?chk \<or> loadSiblings ?ts2 \<longrightarrow>
             minDistancePriority st \<le> getPriority ?ts2 (tiles ?ts2 c))
       \<and> minDistancePriority st \<le> minDistancePriority ?st0
       \<and> ((minIndex st = minIndex ?st0 \<and> minDistancePriority st = minDistancePriority ?st0) \<or>
          (0 \<le> minIndex st \<and> minIndex st < 0 + int (length ?sorted) \<and>
           getPriority ?ts2 (tiles ?ts2 (?sorted ! nat (minIndex st - 0))) = minDistancePriority st))"
    have own: "\<And>c. c \<in> set ?sorted \<Longrightarrow> getPriority ts3 (tiles ts3 c) = priorityDistance (tiles ts3 c)"
      using p3 by (simp add: ownPriority_def)
    from h show "\<forall>c\<in>set ?sorted. takesPart ts fs t c \<longrightarrow>
               minDistancePriority st \<le> priorityDistance (tiles ts3 c)"
      unfolding gp ls chk takesPart_def using own by auto
    from h have "minIndex st = - 1 \<or>
          (0 \<le> minIndex st \<and> minIndex st < int (length ?sorted) \<and>
           getPriority ts3 (tiles ts3 (?sorted ! nat (minIndex st))) = minDistancePriority st)"
      unfolding gp by auto
    moreover have "0 \<le> minIndex st \<and> minIndex st < int (length ?sorted) \<Longrightarrow>
        ?sorted ! nat (minIndex st) \<in> set ?sorted"
      by (intro nth_mem) linarith
    ultimately show "minIndex st = - 1 \<or>
          (0 \<le> minIndex st \<and> minIndex st < int (length ?sorted) \<and>
           priorityDistance (tiles ts3 (?sorted ! nat (minIndex st))) = minDistancePriority st)"
      using own by auto
  qed
  have "\<forall>c\<in>set ?cs. takesPart ts fs t c \<longrightarrow>
          priorityDistance (tiles ts' (priorityDistanceHolder (tiles ts' c)))
            \<le> priorityDistance (tiles ts' c)"
  proof (cases "minIndex st = - 1")
    case True
    then have "ts' = ts3" unfolding ts' by (simp add: linkPriorityHolder_def)
    with p3 set_sorted show ?thesis by (simp add: ownPriority_def)
  next
    case False
    with mi have v: "priorityDistance (tiles ts3 (?sorted ! nat (minIndex st))) = minDistancePriority st"
      by simp
    from linkPriorityHolder_linked[OF False, of ts3 t] obtain h where
      h: "\<forall>c\<in>set ?sorted. priorityDistanceHolder (tiles ts' c) = h
         \<and> priorityDistance (tiles ts' h) = minDistancePriority st
         \<and> priorityDistance (tiles ts' c) =
             (if c = h then minDistancePriority st else priorityDistance (tiles ts3 c))"
      unfolding ts' ch3 v by blast
    show ?thesis
    proof (intro ballI impI)
      fix c assume c: "c \<in> set ?cs" and part: "takesPart ts fs t c"
      then have cs: "c \<in> set ?sorted" using set_sorted by simp
      with lo part have "minDistancePriority st \<le> priorityDistance (tiles ts3 c)" by simp
      with h cs show "priorityDistance (tiles ts' (priorityDistanceHolder (tiles ts' c)))
            \<le> priorityDistance (tiles ts' c)"
        by (cases "c = h") auto
    qed
  qed
  with res show ?thesis by blast
qed

theorem priorityDistanceHolder_after_push_witness:
  "\<exists>r stack' ts'. updateAndPushChildren 8 chainTileset 0 [] (allVisible (\<lambda>t. 64)) = Some (r, stack', ts')
     \<and> priorityDistance (tiles ts' (priorityDistanceHolder (tiles ts' 1)))
            \<le> priorityDistance (tiles ts' 1)"
proof -
  have "((\<lambda>t. 1)(0 := 4, 1 := 2)) (0::nat) \<le> (8::nat)" by simp
  moreover have "(1::nat) \<in> set (children (tiles chainTileset 0))"
    and "takesPart chainTileset (allVisible (\<lambda>t. 64)) 0 1"
    by (simp_all add: chainTileset_def example_defs takesPart_def shown_def)
  ultimately show ?thesis
    using priorityDistanceHolder_after_push[OF chainTileset_bound, of 0 8 "[]" "allVisible (\<lambda>t. 64)"]
    by blast
qed

text \<open>
  C8 fails at the end of \<open>selectTiles\<close>. In \<open>chainTileset\<close> the root's nearest child, tile 1
  (priority 3), is visited in frame 5 and is linked to the root as its holder; refining
  tile 1 then writes the priority of its own child, 8, into the root. At the end the
  holder of tile 1 has priority 8, above the 3 of tile 1.
\<close>

theorem priorityDistanceHolder_exceeds:
  "map_option (\<lambda>res. (visitedFrame (tileOf 1 res), priorityDistanceHolder (tileOf 1 res),
                       priorityDistance (tileOf 0 res), priorityDistance (tileOf 1 res)))
     (selectTiles 8 chainTileset (allVisible (\<lambda>t. 64))) = Some (5, 0, 8, 3)
   \<and> map_option (\<lambda>res. priorityDistance (tileOf (priorityDistanceHolder (tileOf 1 res)) res)
                          \<le> priorityDistance (tileOf 1 res))
       (selectTiles 8 chainTileset (allVisible (\<lambda>t. 64))) = Some False"
  by (simp add: chainTileset_def eval_defs)

section \<open>Selected tiles have content\<close>

lemma selectSafeD:
  assumes "selectSafe fs P" and "P ts"
  shows "P (updateTile ts t fs)" "P (loadTile ts t fs)" "P (touchTile ts t fs)"
    "mset cs = mset (children (tiles ts t)) \<Longrightarrow> P (upd t (\<lambda>y. y\<lparr>children := cs\<rparr>) ts)"
    "P (upd t (\<lambda>y. y\<lparr>wasMinChild := True\<rparr>) ts)"
    "P (upd t (\<lambda>y. y\<lparr>priorityDistance := v\<rparr>) ts)"
    "P (upd t (\<lambda>y. y\<lparr>priorityDistanceHolder := h\<rparr>) ts)"
    "P (addEmptyTile ts t)"
    "contentAvailable (tiles ts t) \<Longrightarrow> P (selectTile ts t fs)"
    "contentAvailable (tiles ts t) \<Longrightarrow> P (upd t (\<lambda>y. y\<lparr>shouldSelect := True\<rparr>) ts)"
    "P (visitTile ts t fs)"
    "P (upd t (\<lambda>y. y\<lparr>refines := b\<rparr>) ts)"
    "P (upd t (\<lambda>y. y\<lparr>finalResolution := False\<rparr>) ts)"
    "P (markDepth ts t n)"
    "P (upd t (\<lambda>y. y\<lparr>stackLength := n\<rparr>) ts)"
  using assms by (simp_all add: selectSafe_def)

lemma markDepth_simps [simp]:
  "tiles (markDepth ts t n) = (tiles ts)(t := (tiles ts t)\<lparr>selectionDepth := n\<rparr>)"
  "selectedTiles (markDepth ts t n) = selectedTiles ts"
  "requestedTiles (markDepth ts t n) = requestedTiles ts"
  by (simp_all add: markDepth_def)

lemma selectSafe_loadedLink: "selectSafe fs (\<lambda>ts. loadedLink ts x)"
  unfolding selectSafe_def loadedLink_def by auto

lemma selectSafe_selectable: "selectSafe fs (\<lambda>ts. selectable ts x)"
  unfolding selectSafe_def selectable_def by auto

lemma selectSafe_selectedLoaded: "selectSafe fs selectedLoaded"
  unfolding selectSafe_def selectedLoaded_def by auto

lemma selectSafe_flaggedLoaded: "selectSafe fs (\<lambda>ts. flaggedLoaded ts0 ts x)"
  unfolding selectSafe_def flaggedLoaded_def by auto

lemma selectSafe_fresh: "selectSafe fs (\<lambda>ts. fresh fs ts x)"
  unfolding selectSafe_def fresh_def by auto

lemma updateAndPushChildren_selectSafe:
  assumes "selectSafe fs P" and "updateAndPushChildren N ts t stack fs = Some (r, stack', ts')" and "P ts"
  shows "P ts'"
  by (rule updateAndPushChildren_preserves[where P=P, OF _ _ _ _ _ _ _ assms(2,3)])
     (auto intro: selectSafeD[OF assms(1)])

lemma selectDescendants_children_selectSafe:
  assumes "selectSafe fs P"
  shows "P ts \<Longrightarrow> P (snd (selectDescendants_children ts r fs cs stack))"
proof (induction cs arbitrary: ts stack)
  case Nil
  then show ?case by simp
next
  case (Cons c cs)
  have "contentAvailable (tiles ts c) \<Longrightarrow> P (selectTile (touchTile (updateTile ts c fs) c fs) c fs)"
    by (intro selectSafeD[OF assms] Cons.prems) simp
  with Cons show ?case by simp
qed

lemma selectDescendants_loop_selectSafe:
  assumes "selectSafe fs P"
  shows "selectDescendants_loop n r fs stack ts = Some ts' \<Longrightarrow> P ts \<Longrightarrow> P ts'"
proof (induction n arbitrary: stack ts)
  case 0
  then show ?case by (cases stack) auto
next
  case (Suc n)
  show ?case
  proof (cases stack)
    case Nil
    with Suc.prems show ?thesis by simp
  next
    case (Cons t rest)
    obtain stack1 ts1 where
      c: "selectDescendants_children ts r fs (children (tiles ts t)) rest = (stack1, ts1)"
      by (cases "selectDescendants_children ts r fs (children (tiles ts t)) rest")
    have "P ts1"
      using selectDescendants_children_selectSafe[OF assms Suc.prems(2), of r "children (tiles ts t)" rest] c
      by simp
    with Suc.prems(1) Suc.IH show ?thesis unfolding Cons by (simp add: c)
  qed
qed

lemma selectDesiredTile_selectSafe:
  assumes "selectSafe fs P" and "loadedLink ts t" and "selectDesiredTile N ts t fs = Some ts'" and "P ts"
  shows "P ts'"
proof (cases "skipLevelOfDetail' ts")
  case False
  with assms(3,4) selectSafeD(9)[OF assms(1,4), of t] show ?thesis
    by (auto simp: selectDesiredTile_def split: if_splits)
next
  case skip: True
  show ?thesis
  proof (cases "contentAvailable (tiles ts t)")
    case True
    with assms(3) skip have "ts' = upd t (\<lambda>x. x\<lparr>shouldSelect := True\<rparr>) ts"
      by (simp add: selectDesiredTile_def)
    with selectSafeD(10)[OF assms(1,4) True] show ?thesis by simp
  next
    case False
    show ?thesis
    proof (cases "ancestorWithContentAvailable (tiles ts t)")
      case None
      with assms(3) skip False have "selectDescendants_loop N t fs [t] ts = Some ts'"
        by (simp add: selectDesiredTile_def selectDescendants_def)
      then show ?thesis using assms(4) by (rule selectDescendants_loop_selectSafe[OF assms(1)])
    next
      case (Some a)
      with assms(2) have la: "contentAvailable (tiles ts a)" by (simp add: loadedLink_def)
      from Some assms(3) skip False have "ts' = upd a (\<lambda>x. x\<lparr>shouldSelect := True\<rparr>) ts"
        by (simp add: selectDesiredTile_def)
      with selectSafeD(10)[OF assms(1,4) la] show ?thesis by simp
    qed
  qed
qed

lemma visitRefine_selectSafe:
  assumes "selectSafe fs P" and "visitRefine N ts t stack fs = Some (r, stack', ts')" and "P ts"
  shows "P ts'"
  using assms(2,3) updateAndPushChildren_selectSafe[OF assms(1) _ assms(3)]
  by (auto simp: visitRefine_def split: if_splits)

lemma visitDispatch_selectSafe:
  assumes "selectSafe fs P" and "loadedLink ts t" and "visitDispatch N ts t fs a r b s = Some ts'"
    and "P ts"
  shows "P ts'"
proof -
  note l = selectSafeD[OF selectSafe_loadedLink]
  have a: "P (loadTile (addEmptyTile ts t) t fs)" "P (loadTile ts t fs)"
    by (intro selectSafeD[OF assms(1)] assms(4))+
  have b: "loadedLink (loadTile (addEmptyTile ts t) t fs) t" "loadedLink (loadTile ts t fs) t"
    by (intro l assms(2))+
  have sel: "\<And>ts1 ts2. selectDesiredTile N ts1 t fs = Some ts2 \<Longrightarrow> loadedLink ts1 t \<Longrightarrow> P ts1 \<Longrightarrow> P ts2"
    using selectDesiredTile_selectSafe[OF assms(1)] by blast
  have ld: "\<And>ts1. P ts1 \<Longrightarrow> P (loadTile ts1 t fs)"
    by (rule selectSafeD[OF assms(1)])
  from assms(3) show ?thesis
    unfolding visitDispatch_def
    using a b sel ld assms(2,4) by (auto split: if_splits)
qed

lemma visitFinish_selectSafe:
  assumes "selectSafe fs P" and "P ts"
  shows "P (visitFinish ts t fs b)"
  unfolding visitFinish_def by (intro selectSafeD[OF assms(1)] assms(2))

lemma executeTraversal_visit_selectSafe:
  assumes "selectSafe fs P" and "executeTraversal_visit N ts t baseSSE fs stack = Some (stack', ts')"
    and "P (updateTileAncestorContentLinks ts t fs)"
    and "loadedLink (updateTileAncestorContentLinks ts t fs) t"
  shows "P ts'"
proof -
  let ?ts1 = "updateTileAncestorContentLinks ts t fs"
  from assms(2) obtain bt r ts2 ts4 where
    s2: "visitRefine N ?ts1 t stack fs = Some (r, stack', ts2)"
    and s3: "visitDispatch N ts2 t fs (refine (tiles ?ts1 t) = ADD) (refine (tiles ?ts1 t) = REPLACE) bt
               (\<not> (r \<and> parentRefines ?ts1 t) \<and> parentRefines ?ts1 t) = Some ts4"
    and s4: "ts' = visitFinish ts4 t fs (r \<and> parentRefines ?ts1 t)"
    unfolding executeTraversal_visit_stages by (auto split: option.splits)
  have "P ts2" using assms(1) s2 assms(3) by (rule visitRefine_selectSafe)
  moreover have "loadedLink ts2 t" using selectSafe_loadedLink s2 assms(4) by (rule visitRefine_selectSafe)
  ultimately have "P ts4" using assms(1) s3 visitDispatch_selectSafe by blast
  with assms(1) show ?thesis unfolding s4 by (rule visitFinish_selectSafe)
qed

lemma links_tiles:
  "tiles (updateTileAncestorContentLinks ts t fs) x =
     (if x = t then
        (tiles ts t)\<lparr>ancestorWithContent :=
                       (case parent (tiles ts t) of None \<Rightarrow> None
                        | Some p \<Rightarrow> if \<not> hasUnloadedContent (tiles ts p)
                                         \<or> requestedFrame (tiles ts p) = frameNumber fs
                                    then Some p else ancestorWithContent (tiles ts p)),
                     ancestorWithContentAvailable :=
                       (case parent (tiles ts t) of None \<Rightarrow> None
                        | Some p \<Rightarrow> if contentAvailable (tiles ts p) then Some p
                                    else ancestorWithContentAvailable (tiles ts p))\<rparr>
      else tiles ts x)"
  by (cases "parent (tiles ts t)") (simp_all add: updateTileAncestorContentLinks_def Let_def)

lemma loadedLink_links:
  "(case parent (tiles ts t) of None \<Rightarrow> True | Some p \<Rightarrow> loadedLink ts p) \<Longrightarrow>
     loadedLink (updateTileAncestorContentLinks ts t fs) t"
  "x \<noteq> t \<Longrightarrow> loadedLink ts x \<Longrightarrow> loadedLink (updateTileAncestorContentLinks ts t fs) x"
  by (auto simp add: loadedLink_def links_tiles split: option.splits)

lemma links_keeps [simp]:
  "selectable (updateTileAncestorContentLinks ts t fs) x = selectable ts x"
  "selectedLoaded (updateTileAncestorContentLinks ts t fs) = selectedLoaded ts"
  "flaggedLoaded ts0 (updateTileAncestorContentLinks ts t fs) x = flaggedLoaded ts0 ts x"
  "fresh fs (updateTileAncestorContentLinks ts t fs) x = fresh fs ts x"
  by (auto simp add: selectable_def selectedLoaded_def flaggedLoaded_def fresh_def links_tiles)

lemma foldl_updateTile_establishes:
  assumes "\<And>ts. Q (updateTile ts x fs)" and "\<And>ts c. Q ts \<Longrightarrow> Q (updateTile ts c fs)"
  shows "x \<in> set cs \<or> Q ts \<Longrightarrow> Q (foldl (\<lambda>ts c. updateTile ts c fs) ts cs)"
proof (induction cs arbitrary: ts)
  case Nil
  then show ?case by simp
next
  case (Cons c cs)
  have "x \<in> set cs \<or> Q (updateTile ts c fs)"
    using Cons.prems assms by (cases "x = c") auto
  from Cons.IH[OF this] show ?case by simp
qed

lemma updateAndPushChildren_establishes:
  assumes "selectSafe fs Q" and "\<And>ts. Q (updateTile ts c fs)"
    and "c \<in> set (children (tiles ts t))"
    and "updateAndPushChildren N ts t stack fs = Some (r, stack', ts')"
  shows "Q ts'"
proof -
  let ?ts1 = "foldl (\<lambda>ts c. updateTile ts c fs) ts (children (tiles ts t))"
  let ?sorted = "sortBy (\<lambda>a b. sortChildrenByDistanceToCamera (tiles ?ts1 a) (tiles ?ts1 b))
                     (children (tiles ?ts1 t))"
  let ?ts2 = "upd t (\<lambda>x. x\<lparr>children := ?sorted\<rparr>) ?ts1"
  have p1: "Q ?ts1"
    by (rule foldl_updateTile_establishes[where Q=Q, OF assms(2)])
       (auto intro: selectSafeD[OF assms(1)] assms(3))
  have p2: "Q ?ts2" using p1 by (rule selectSafeD(4)[OF assms(1)]) simp
  from assms(4) obtain st ts3 where
    loop: "updateAndPushChildren_loop N fs
             (\<not> skipLevelOfDetail' ?ts2 \<and> refine (tiles ts t) = REPLACE \<and> \<not> hasEmptyContent' (tiles ?ts2 t))
             ?sorted 0
             \<lparr>stackOf = stack, refinesOf = True, anyChildrenVisible = False,
                 minIndex = - 1, minDistancePriority = Number_MAX_VALUE\<rparr> ?ts2 = Some (st, ts3)"
    and ts': "ts' = linkPriorityHolder ts3 t (minIndex st)"
    unfolding updateAndPushChildren_def Let_def by (auto split: option.splits)
  have p3: "Q ts3"
    by (rule updateAndPushChildren_loop_preserves[where P=Q, OF _ _ _ loop p2])
       (auto intro: selectSafeD[OF assms(1)])
  show "Q ts'" unfolding ts'
    by (rule linkPriorityHolder_preserves[where P=Q, OF _ _ _ p3])
       (auto intro: selectSafeD[OF assms(1)])
qed

lemma frame_parent: "frame ts ts' \<Longrightarrow> parent (tiles ts' x) = parent (tiles ts x)"
  by (rule static_eqD(1)) (rule frameD(2))

lemma parentLinked_frame: "frame ts ts' \<Longrightarrow> parentLinked ts \<Longrightarrow> parentLinked ts'"
  by (simp add: parentLinked_def frameD(5) frame_parent)

lemma executeTraversal_visit_inv:
  assumes b0: "subtreeBound (tiles ts0) w" and pl: "parentLinked ts0"
    and inv: "traversalInv fs w N ts0 D ts (t # rest)"
    and v: "executeTraversal_visit N ts t baseSSE fs rest = Some (stack', ts')"
  shows "traversalInv fs w N ts0 (insert t D) ts' stack' \<and> set rest \<subseteq> set stack'"
proof -
  let ?ts1 = "updateTileAncestorContentLinks ts t fs"
  from inv have fr: "frame ts0 ts" and sl: "selectedLoaded ts"
    and fl: "\<And>x. flaggedLoaded ts0 ts x"
    and st: "\<And>s. s \<in> set (t # rest) \<Longrightarrow> parentLoadedLink ts s \<and> selectable ts s \<and> w s \<le> N"
    and vc: "visitedClosed fs ts D (set (t # rest))"
    unfolding traversalInv_def by blast+
  have fr1: "frame ts ?ts1" by simp
  have b: "subtreeBound (tiles ts) w" using fr b0 by (rule subtreeBound_frame)
  have b1: "subtreeBound (tiles ?ts1) w" using fr1 b by (rule subtreeBound_frame)
  have wt: "w t \<le> N" using st[of t] by simp
  have ll1: "loadedLink ?ts1 t"
    using st[of t] by (intro loadedLink_links(1)) (simp add: parentLoadedLink_def)
  from v obtain bt r ts2 ts4 where
    s2: "visitRefine N ?ts1 t rest fs = Some (r, stack', ts2)"
    and s3: "visitDispatch N ts2 t fs (refine (tiles ?ts1 t) = ADD) (refine (tiles ?ts1 t) = REPLACE) bt
               (\<not> (r \<and> parentRefines ?ts1 t) \<and> parentRefines ?ts1 t) = Some ts4"
    and s4: "ts' = visitFinish ts4 t fs (r \<and> parentRefines ?ts1 t)"
    unfolding executeTraversal_visit_stages by (auto split: option.splits)
  from visitRefine_result[OF b1 wt, of rest fs] s2 obtain cs where
    cs: "if canTraverse ?ts1 (tiles ?ts1 t)
         then mset cs = mset (filter (shown fs) (children (tiles ?ts1 t))) else cs = []"
    and stack': "stack' = cs @ rest"
    and fc: "canTraverse ?ts1 (tiles ?ts1 t) \<longrightarrow> (\<forall>c\<in>set (children (tiles ?ts1 t)). fresh fs ts2 c)"
    by auto
  have ll2: "loadedLink ts2 t" using selectSafe_loadedLink s2 ll1 by (rule visitRefine_selectSafe)
  have tail: "\<And>P. selectSafe fs P \<Longrightarrow> P ts2 \<Longrightarrow> P ts'"
    unfolding s4 using s3 ll2 visitDispatch_selectSafe visitFinish_selectSafe by blast
  have whole: "\<And>P. selectSafe fs P \<Longrightarrow> P ?ts1 \<Longrightarrow> P ts'"
    using executeTraversal_visit_selectSafe[OF _ v _ ll1] by blast
  have frt: "frame ts ts'" by (rule executeTraversal_visit_preserved[OF preserved_frame v frame_refl])
  have fr': "frame ts0 ts'" using fr frt by (rule frame_trans)
  have ct: "\<And>x. canTraverse ts' (tiles ts' x) = canTraverse ts (tiles ts x)"
    by (rule frameD(8)[OF frt])
  have ch: "\<And>x. set (children (tiles ts' x)) = set (children (tiles ts x))"
    by (rule frameD(5)[OF frt])
  have ct1: "canTraverse ?ts1 (tiles ?ts1 t) = canTraverse ts (tiles ts t)"
    by (rule frameD(8)[OF fr1])
  have ch1: "set (children (tiles ?ts1 t)) = set (children (tiles ts t))"
    by (rule frameD(5)[OF fr1])
  have setcs: "set cs = (if canTraverse ts (tiles ts t)
                         then {c \<in> set (children (tiles ts t)). shown fs c} else {})"
  proof (cases "canTraverse ts (tiles ts t)")
    case True
    with cs ct1 have "mset cs = mset (filter (shown fs) (children (tiles ?ts1 t)))" by simp
    then have "set cs = set (filter (shown fs) (children (tiles ?ts1 t)))" by (rule mset_eq_setD)
    with True ch1 show ?thesis by auto
  next
    case False
    with cs ct1 show ?thesis by simp
  qed
  have sel_keep: "\<And>x. selectable ts x \<Longrightarrow> selectable ts' x"
    by (rule whole[OF selectSafe_selectable]) simp
  have fresh_keep: "\<And>x. fresh fs ts x \<Longrightarrow> fresh fs ts' x"
    by (rule whole[OF selectSafe_fresh]) simp
  have link_t: "loadedLink ts' t" using selectSafe_loadedLink ll1 by (rule whole)
  have link_keep: "\<And>x. loadedLink ts x \<Longrightarrow> loadedLink ts' x"
  proof -
    fix x assume l: "loadedLink ts x"
    show "loadedLink ts' x"
    proof (cases "x = t")
      case True
      with link_t show ?thesis by simp
    next
      case False
      then have "loadedLink ?ts1 x" using l by (rule loadedLink_links(2))
      with selectSafe_loadedLink show ?thesis by (rule whole)
    qed
  qed
  have kids: "\<And>c. canTraverse ts (tiles ts t) \<Longrightarrow> c \<in> set (children (tiles ts t)) \<Longrightarrow>
                selectable ts' c \<and> fresh fs ts' c"
  proof -
    fix c assume tr: "canTraverse ts (tiles ts t)" and c: "c \<in> set (children (tiles ts t))"
    from tr s2 ct1 have upc: "updateAndPushChildren N ?ts1 t rest fs = Some (r, stack', ts2)"
      by (simp add: visitRefine_def)
    have c1: "c \<in> set (children (tiles ?ts1 t))" using c ch1 by simp
    have "selectable ts2 c"
      by (rule updateAndPushChildren_establishes[OF selectSafe_selectable _ c1 upc])
         (simp add: selectable_def)
    then have "selectable ts' c" by (rule tail[OF selectSafe_selectable])
    moreover have "fresh fs ts2 c" using fc tr ct1 c1 by simp
    then have "fresh fs ts' c" by (rule tail[OF selectSafe_fresh])
    ultimately show "selectable ts' c \<and> fresh fs ts' c" by simp
  qed
  have wkid: "\<And>c. c \<in> set (children (tiles ts t)) \<Longrightarrow> w c \<le> N"
  proof -
    fix c assume "c \<in> set (children (tiles ts t))"
    then have "w c \<le> sum_list (map w (children (tiles ts t)))" by (simp add: member_le_sum_list)
    with subtreeBound_children[OF b, of t] wt show "w c \<le> N" by simp
  qed
  have pkid: "\<And>c. c \<in> set (children (tiles ts t)) \<Longrightarrow> parent (tiles ts' c) = Some t"
  proof -
    fix c assume "c \<in> set (children (tiles ts t))"
    then have "c \<in> set (children (tiles ts0 t))" using frameD(5)[OF fr] by simp
    with pl have "parent (tiles ts0 c) = Some t" by (simp add: parentLinked_def)
    then show "parent (tiles ts' c) = Some t" by (simp add: frame_parent[OF fr'])
  qed
  have stack_ok: "\<forall>s\<in>set stack'. parentLoadedLink ts' s \<and> selectable ts' s \<and> w s \<le> N"
  proof
    fix s assume "s \<in> set stack'"
    then consider "s \<in> set cs" | "s \<in> set rest" unfolding stack' by auto
    then show "parentLoadedLink ts' s \<and> selectable ts' s \<and> w s \<le> N"
    proof cases
      case 1
      then have tr: "canTraverse ts (tiles ts t)" and c: "s \<in> set (children (tiles ts t))"
        unfolding setcs by (auto split: if_splits)
      from pkid[OF c] link_t have "parentLoadedLink ts' s" by (simp add: parentLoadedLink_def)
      with kids[OF tr c] wkid[OF c] show ?thesis by simp
    next
      case 2
      then have old: "parentLoadedLink ts s" "selectable ts s" "w s \<le> N" using st[of s] by simp_all
      have "parentLoadedLink ts' s"
        using old(1) link_keep
        by (auto simp add: parentLoadedLink_def frame_parent[OF frt] split: option.splits)
      with old sel_keep show ?thesis by simp
    qed
  qed
  have closed: "visitedClosed fs ts' (insert t D) (set stack')"
    unfolding visitedClosed_def
  proof (intro ballI conjI impI)
    fix x assume "x \<in> insert t D"
    then have "selectable ts x" using st[of t] vc by (auto simp add: visitedClosed_def)
    then show "selectable ts' x" by (rule sel_keep)
  next
    fix x c assume x: "x \<in> insert t D" and tr: "canTraverse ts' (tiles ts' x)"
      and c: "c \<in> set (children (tiles ts' x))"
    from tr c have tr0: "canTraverse ts (tiles ts x)" and c0: "c \<in> set (children (tiles ts x))"
      by (simp_all add: ct ch)
    show "fresh fs ts' c"
    proof (cases "x = t")
      case True
      with kids tr0 c0 show ?thesis by simp
    next
      case False
      with x vc tr0 c0 have "fresh fs ts c" by (auto simp add: visitedClosed_def)
      then show ?thesis by (rule fresh_keep)
    qed
  next
    fix x c assume x: "x \<in> insert t D" and tr: "canTraverse ts' (tiles ts' x)"
      and c: "c \<in> set (children (tiles ts' x))" and sh: "shown fs c"
    from tr c have tr0: "canTraverse ts (tiles ts x)" and c0: "c \<in> set (children (tiles ts x))"
      by (simp_all add: ct ch)
    show "c \<in> insert t D \<union> set stack'"
    proof (cases "x = t")
      case True
      with tr0 c0 sh have "c \<in> set cs" unfolding setcs by simp
      then show ?thesis unfolding stack' by simp
    next
      case False
      with x vc tr0 c0 sh have "c \<in> D \<union> set (t # rest)" by (auto simp add: visitedClosed_def)
      then show ?thesis unfolding stack' by auto
    qed
  qed
  have "selectedLoaded ts'" using sl by (intro whole[OF selectSafe_selectedLoaded]) simp
  moreover have "\<forall>x. flaggedLoaded ts0 ts' x"
    using fl by (intro allI whole[OF selectSafe_flaggedLoaded]) simp
  ultimately have "traversalInv fs w N ts0 (insert t D) ts' stack'"
    unfolding traversalInv_def using fr' stack_ok closed by blast
  then show ?thesis unfolding stack' by simp
qed

lemma executeTraversal_loop_inv:
  assumes b0: "subtreeBound (tiles ts0) w" and pl: "parentLinked ts0"
  shows "executeTraversal_loop n N baseSSE fs stack ts = Some ts' \<Longrightarrow>
         traversalInv fs w N ts0 D ts stack \<Longrightarrow>
         \<exists>D'. D \<union> set stack \<subseteq> D' \<and> traversalInv fs w N ts0 D' ts' []"
proof (induction n arbitrary: stack ts D)
  case 0
  then show ?case by (cases stack) auto
next
  case (Suc n)
  show ?case
  proof (cases stack)
    case Nil
    with Suc.prems show ?thesis by auto
  next
    case (Cons t rest)
    with Suc.prems(1) obtain stack1 ts1 where
      v: "executeTraversal_visit N ts t baseSSE fs rest = Some (stack1, ts1)"
      and l: "executeTraversal_loop n N baseSSE fs stack1 ts1 = Some ts'"
      by (auto split: option.splits)
    from executeTraversal_visit_inv[OF b0 pl Suc.prems(2)[unfolded Cons] v]
    have i1: "traversalInv fs w N ts0 (insert t D) ts1 stack1" and sub: "set rest \<subseteq> set stack1"
      by simp_all
    from Suc.IH[OF l i1] obtain D' where
      "insert t D \<union> set stack1 \<subseteq> D'" "traversalInv fs w N ts0 D' ts' []" by blast
    with sub show ?thesis unfolding Cons by (intro exI[of _ D']) auto
  qed
qed

lemma traverseAndSelect_step_selectSafe:
  assumes "selectSafe fs P" and "P ts"
    and "traverseAndSelect_step fs S A la ts = (S', A', la', ts')"
    and "\<forall>a\<in>set A. contentAvailable (tiles ts a)"
    and "\<forall>s\<in>set S. selectable ts s"
  shows "P ts'"
  using assms(3)
proof (cases rule: traverseAndSelect_step_cases)
  case wait
  let ?X = "if Some (hd A) \<noteq> la then upd (hd A) (\<lambda>x. x\<lparr>finalResolution := False\<rparr>) ts else ts"
  have "P ?X" using selectSafeD(13)[OF assms(1,2)] assms(2) by simp
  moreover have "contentAvailable (tiles ?X (hd A))"
    using wait(1) assms(4) by (simp add: waiting_def)
  ultimately show ?thesis unfolding wait by (rule selectSafeD(9)[OF assms(1)])
next
  case stuck
  with assms(2) show ?thesis by simp
next
  case (add t rest)
  with assms(5) have "contentAvailable (tiles ts t)" by (simp add: selectable_def)
  with assms(2) show ?thesis unfolding add by (rule selectSafeD(9)[OF assms(1)])
next
  case (leaf t rest)
  with assms(5) have "contentAvailable (tiles ts t)" by (simp add: selectable_def)
  then have "contentAvailable (tiles (markDepth ts t (length A)) t)" by simp
  with selectSafeD(14)[OF assms(1,2)] show ?thesis unfolding leaf by (rule selectSafeD(9)[OF assms(1)])
next
  case (push t rest)
  show ?thesis unfolding push by (intro selectSafeD[OF assms(1)] assms(2))
next
  case (skip t rest)
  with assms(2) show ?thesis by simp
qed

lemma pushVisible_closed:
  assumes "visitedClosed fs ts D {}" and "t \<in> D"
  shows "set (pushVisible ts t) \<subseteq> D"
proof
  fix c assume "c \<in> set (pushVisible ts t)"
  then have tr: "canTraverse ts (tiles ts t)" and c: "c \<in> set (children (tiles ts t))"
    and v: "isVisible (tiles ts c)"
    by (auto simp add: pushVisible_def split: if_splits)
  from assms tr c have f: "fresh fs ts c" and cl: "shown fs c \<longrightarrow> c \<in> D"
    by (auto simp add: visitedClosed_def)
  from v f have "shown fs c" by (simp add: fresh_isVisible)
  with cl show "c \<in> D" by simp
qed

lemma traverseAndSelect_step_inv:
  assumes inv: "selectionInv fs ts0 D S A ts"
    and step: "traverseAndSelect_step fs S A la ts = (S', A', la', ts')"
  shows "selectionInv fs ts0 D S' A' ts'"
proof -
  from inv have fr: "frame ts0 ts" and sl: "selectedLoaded ts"
    and fl: "\<And>x. flaggedLoaded ts0 ts x" and S: "set S \<subseteq> D"
    and A: "\<forall>a\<in>set A. contentAvailable (tiles ts a)" and vc: "visitedClosed fs ts D {}"
    unfolding selectionInv_def by blast+
  have sel: "\<forall>s\<in>set S. selectable ts s" using S vc by (auto simp add: visitedClosed_def)
  have safe: "\<And>P. selectSafe fs P \<Longrightarrow> P ts \<Longrightarrow> P ts'"
    using traverseAndSelect_step_selectSafe[OF _ _ step A sel] by blast
  have frt: "frame ts ts'"
    using traverseAndSelect_step_preserved[OF preserved_frame frame_refl,
            where fs=fs and stack=S and anc=A and la=la and ts=ts] step
    by simp
  have ca: "\<And>x. contentAvailable (tiles ts' x) = contentAvailable (tiles ts x)"
    by (rule frame_contentAvailable[OF frt])
  have SA: "set S' \<subseteq> D \<and> (\<forall>a\<in>set A'. contentAvailable (tiles ts a))"
    using step
  proof (cases rule: traverseAndSelect_step_cases)
    case wait
    from wait(1) have "A \<noteq> []" by (simp add: waiting_def)
    then have "set (tl A) \<subseteq> set A" by (cases A) auto
    with A S wait show ?thesis by auto
  next
    case stuck
    with A show ?thesis by simp
  next
    case (add t rest)
    with A S pushVisible_closed[OF vc, of t] show ?thesis by auto
  next
    case (leaf t rest)
    with A S show ?thesis by auto
  next
    case (push t rest)
    with sel have "contentAvailable (tiles ts t)" by (simp add: selectable_def)
    with push A S pushVisible_closed[OF vc, of t] show ?thesis by auto
  next
    case (skip t rest)
    with A S pushVisible_closed[OF vc, of t] show ?thesis by auto
  qed
  have vc': "visitedClosed fs ts' D {}"
    unfolding visitedClosed_def
  proof (intro ballI conjI impI)
    fix x assume "x \<in> D"
    with vc have "selectable ts x" by (simp add: visitedClosed_def)
    then show "selectable ts' x" by (rule safe[OF selectSafe_selectable])
  next
    fix x c assume x: "x \<in> D" and tr: "canTraverse ts' (tiles ts' x)"
      and c: "c \<in> set (children (tiles ts' x))"
    with vc have "fresh fs ts c" by (auto simp add: visitedClosed_def frameD(5,8)[OF frt])
    then show "fresh fs ts' c" by (rule safe[OF selectSafe_fresh])
  next
    fix x c assume x: "x \<in> D" and tr: "canTraverse ts' (tiles ts' x)"
      and c: "c \<in> set (children (tiles ts' x))" and "shown fs c"
    with vc show "c \<in> D \<union> {}" by (auto simp add: visitedClosed_def frameD(5,8)[OF frt])
  qed
  have "selectedLoaded ts'" using sl by (rule safe[OF selectSafe_selectedLoaded])
  moreover have "\<forall>x. flaggedLoaded ts0 ts' x" using fl by (intro allI safe[OF selectSafe_flaggedLoaded])
  moreover have "frame ts0 ts'" using fr frt by (rule frame_trans)
  ultimately show ?thesis unfolding selectionInv_def using SA vc' ca by blast
qed

lemma traverseAndSelect_loop_inv:
  "traverseAndSelect_loop n fs S A la ts = Some ts' \<Longrightarrow> selectionInv fs ts0 D S A ts \<Longrightarrow>
     selectionInv fs ts0 D [] [] ts'"
proof (induction n arbitrary: S A la ts)
  case 0
  then show ?case by (auto split: if_splits)
next
  case (Suc n)
  show ?case
  proof (cases "S = [] \<and> A = []")
    case True
    with Suc.prems show ?thesis by simp
  next
    case False
    obtain s1 a1 l1 ts1 where
      st: "traverseAndSelect_step fs S A la ts = (s1, a1, l1, ts1)"
      by (cases "traverseAndSelect_step fs S A la ts") auto
    have "selectionInv fs ts0 D s1 a1 ts1" using Suc.prems(2) st by (rule traverseAndSelect_step_inv)
    moreover have "traverseAndSelect_loop n fs s1 a1 l1 ts1 = Some ts'"
      using Suc.prems(1) False st by simp
    ultimately show ?thesis using Suc.IH by blast
  qed
qed

lemma executeTraversal_inv:
  assumes "subtreeBound (tiles ts0) w" and "parentLinked ts0"
    and "traversalInv fs w N ts0 {} ts [r]"
    and "executeTraversal N ts r b m fs = Some ts'"
  shows "selectedLoaded ts' \<and> (\<forall>x. flaggedLoaded ts0 ts' x) \<and> (\<exists>D. selectionInv fs ts0 D [r] [] ts')"
proof -
  from executeTraversal_loop_inv[OF assms(1,2) assms(4)[unfolded executeTraversal_def] assms(3)]
  obtain D where "r \<in> D" and "traversalInv fs w N ts0 D ts' []" by auto
  then have "selectionInv fs ts0 D [r] [] ts'"
    by (simp add: traversalInv_def selectionInv_def)
  then show ?thesis unfolding selectionInv_def by blast
qed

lemma traverseAndSelect_inv:
  assumes "selectionInv fs ts0 D [r] [] ts" and "traverseAndSelect N ts r fs = Some ts'"
  shows "selectedLoaded ts' \<and> (\<forall>x. flaggedLoaded ts0 ts' x)"
  using traverseAndSelect_loop_inv[OF assms(2)[unfolded traverseAndSelect_def] assms(1)]
  unfolding selectionInv_def by blast

lemma traversalMode_loaded:
  assumes "subtreeBound (tiles ts0) w" and "parentLinked ts0"
    and "traversalInv fs w N ts0 {} ts [r]"
    and "traversalMode N ts r fs = Some ts'"
  shows "selectedLoaded ts' \<and> (\<forall>x. flaggedLoaded ts0 ts' x)"
proof -
  note e = executeTraversal_inv[OF assms(1,2,3)]
  have base: "\<And>b m. executeTraversal N ts r b m fs = Some ts' \<Longrightarrow> ?thesis"
    using e by blast
  have skip: "\<And>b m ts1. executeTraversal N ts r b m fs = Some ts1 \<Longrightarrow>
                 traverseAndSelect N ts1 r fs = Some ts' \<Longrightarrow> ?thesis"
    using e traverseAndSelect_inv by blast
  from assms(4) show ?thesis
    unfolding traversalMode_def executeBaseTraversal_def executeSkipTraversal_def
      executeBaseAndSkipTraversal_def
    using base skip by (auto split: if_splits option.splits)
qed

text \<open>
  C2. Let the tiles form trees: the child relation is bounded by the weights \<open>w\<close>, every
  child names its parent, and the root has none. Then \<open>selectTiles\<close> returns, in every
  mode; when the frame is not frozen every tile of \<open>selectedTiles\<close> (of any refinement, so
  every REPLACE tile) has \<open>contentAvailable\<close>, and every tile whose \<open>shouldSelect\<close> flag is
  set at the end and was not set before the call has \<open>contentAvailable\<close>. The availability
  of a tile's content does not change during the call.
\<close>

theorem selected_tiles_have_content:
  assumes "subtreeBound (tiles ts) w" and "2 * w (rootTile ts) \<le> N"
    and "parentLinked ts" and "parent (tiles ts (rootTile ts)) = None"
  shows "\<exists>r ts'. selectTiles N ts fs = Some (r, ts')
     \<and> (\<not> debugFreezeFrame ts \<longrightarrow> (\<forall>t\<in>set (selectedTiles ts'). contentAvailable (tiles ts' t)))
     \<and> (\<forall>t. shouldSelect (tiles ts' t) \<and> \<not> shouldSelect (tiles ts t) \<longrightarrow> contentAvailable (tiles ts' t))
     \<and> (\<forall>t. contentAvailable (tiles ts' t) = contentAvailable (tiles ts t))"
proof -
  let ?r = "rootTile ts"
  let ?ts2 = "updateTile (resetLists ts) ?r fs"
  have fr2: "frame ts ?ts2" unfolding resetLists_def by (simp add: frame_def)
  have b2: "subtreeBound (tiles ?ts2) w" using fr2 assms(1) by (rule subtreeBound_frame)
  from traversalMode_terminates[OF b2 assms(2), of fs] obtain ts' where
    t: "traversalMode N ?ts2 ?r fs = Some ts'" by blast
  have i1: "\<forall>x. flaggedLoaded ts ?ts2 x" by (simp add: flaggedLoaded_def resetLists_def)
  have i2: "selectedLoaded ?ts2" by (simp add: selectedLoaded_def resetLists_def)
  have i3: "\<forall>s\<in>set [?r]. parentLoadedLink ?ts2 s \<and> selectable ?ts2 s \<and> w s \<le> N"
    using assms(2,4) by (simp add: parentLoadedLink_def selectable_def resetLists_def)
  have i4: "visitedClosed fs ?ts2 {} (set [?r])" by (simp add: visitedClosed_def)
  have init: "traversalInv fs w N ts {} ?ts2 [?r]"
    unfolding traversalInv_def using fr2 i1 i2 i3 i4 by blast
  from traversalMode_loaded[OF assms(1,3) init t]
  have l: "selectedLoaded ts'" "\<And>x. flaggedLoaded ts ts' x" by blast+
  have fr': "frame ts ts'" by (rule traversalMode_preserved[OF preserved_frame t fr2])
  have run: "\<not> debugFreezeFrame ts \<and> shown fs ?r \<and>
      maximumScreenSpaceError ts < tileScreenSpaceErrorWithParentError fs ?r \<Longrightarrow> ?thesis"
    using t l frame_contentAvailable[OF fr']
    by (simp add: selectTiles_traversal selectedLoaded_def flaggedLoaded_def)
  have stop: "\<not> (\<not> debugFreezeFrame ts \<and> shown fs ?r \<and>
      maximumScreenSpaceError ts < tileScreenSpaceErrorWithParentError fs ?r) \<Longrightarrow> ?thesis"
    by (auto simp add: selectTiles_def Let_def isVisible_def shown_def updateTile_def
        tile_updateVisibility_def tile_updateExpiration_def upd_def)
  from run stop show ?thesis by blast
qed

lemma mixedSkipTileset_bound:
  "subtreeBound (tiles mixedSkipTileset) ((\<lambda>t. 1)(0 := 3))"
  by (simp add: subtreeBound_def mixedSkipTileset_def example_defs)

theorem selected_tiles_have_content_witness:
  "\<exists>r ts'. selectTiles 6 mixedSkipTileset (allVisible (\<lambda>t. 64)) = Some (r, ts')
     \<and> selectedTiles ts' = [1, 0]
     \<and> (\<forall>t\<in>set (selectedTiles ts'). contentAvailable (tiles ts' t))
     \<and> (\<forall>t. shouldSelect (tiles ts' t) \<longrightarrow> contentAvailable (tiles ts' t))"
proof -
  have "2 * ((\<lambda>t. 1)(0 := 3)) (rootTile mixedSkipTileset) \<le> (6::nat)"
    and "parentLinked mixedSkipTileset"
    and "parent (tiles mixedSkipTileset (rootTile mixedSkipTileset)) = None"
    and "\<not> debugFreezeFrame mixedSkipTileset"
    and "\<And>t. \<not> shouldSelect (tiles mixedSkipTileset t)"
    by (simp_all add: mixedSkipTileset_def example_defs parentLinked_def)
  moreover have "map_option (\<lambda>res. selectedTiles (snd res))
                   (selectTiles 6 mixedSkipTileset (allVisible (\<lambda>t. 64))) = Some [1, 0]"
    by (simp add: mixedSkipTileset_def eval_defs)
  ultimately show ?thesis
    using selected_tiles_have_content[OF mixedSkipTileset_bound, of 6 "allVisible (\<lambda>t. 64)"]
    by auto
qed

section \<open>Base traversal below a tile that does not refine\<close>

lemma visitRefine_pushSafe:
  assumes "pushSafe fs P" and "visitRefine N ts t stack fs = Some (r, stack', ts')" and "P ts"
  shows "P ts'"
proof (cases "canTraverse ts (tiles ts t)")
  case True
  with assms(2) have u: "updateAndPushChildren N ts t stack fs = Some (r, stack', ts')"
    by (simp add: visitRefine_def)
  show ?thesis
    by (rule updateAndPushChildren_preserves[where P=P, OF _ _ _ _ _ _ _ u assms(3)])
       (use assms(1) in \<open>simp_all add: pushSafe_def\<close>)
next
  case False
  with assms(2,3) show ?thesis by (simp add: visitRefine_def)
qed

lemma pushSafe_selectedTiles: "pushSafe fs (\<lambda>ts. selectedTiles ts = L)"
  unfolding pushSafe_def by simp

lemma pushSafe_refines: "pushSafe fs (\<lambda>ts. refines (tiles ts x) = b)"
  unfolding pushSafe_def by auto

lemma pushSafe_requested: "pushSafe fs (\<lambda>ts. c \<in> set (requestedTiles ts))"
  unfolding pushSafe_def by simp

lemma visitDispatch_base:
  assumes "\<not> skipLevelOfDetail' ts" and "refine (tiles ts t) = REPLACE"
  shows "visitDispatch N ts t fs False True True s = Some (baseDispatch ts t fs s)"
proof -
  have 1: "\<not> skipLevelOfDetail' (loadTile ts t fs)"
    using assms(1) frameD(10)[OF frame_basic(1), of ts t fs] by simp
  have 2: "\<not> skipLevelOfDetail' (loadTile (addEmptyTile ts t) t fs)"
    using assms(1) frameD(10)[OF frame_trans[OF frame_basic(4) frame_basic(1)], of ts t t fs] by simp
  show ?thesis
    unfolding visitDispatch_def baseDispatch_def Let_def selectDesiredTile_def
    using 1 2 by simp
qed

lemma executeTraversal_visit_base:
  assumes "\<not> skipLevelOfDetail' ts" and "refine (tiles ts t) = REPLACE"
    and "executeTraversal_visit N ts t baseSSE fs stack = Some (stack', ts')"
  shows "\<exists>r ts2. visitRefine N (updateTileAncestorContentLinks ts t fs) t stack fs = Some (r, stack', ts2)
           \<and> ts' = visitFinish (baseDispatch ts2 t fs (\<not> r \<and> parentRefines ts t)) t fs
                     (r \<and> parentRefines ts t)"
proof -
  let ?ts1 = "updateTileAncestorContentLinks ts t fs"
  have fr1: "frame ts ?ts1" by simp
  have pr: "parentRefines ?ts1 t = parentRefines ts t"
    by (auto simp add: parentRefines_def links_tiles split: option.splits)
  have rf: "refine (tiles ?ts1 t) = REPLACE" using assms(2) by (simp add: links_tiles)
  have sk1: "\<not> skipLevelOfDetail' ?ts1" using assms(1) frameD(10)[OF fr1] by simp
  then have bt: "inBaseTraversal ?ts1 (tiles ?ts1 t) baseSSE = Some True"
    by (simp add: inBaseTraversal_def)
  from assms(3) obtain r ts2 ts4 where
    s2: "visitRefine N ?ts1 t stack fs = Some (r, stack', ts2)"
    and s3: "visitDispatch N ts2 t fs (refine (tiles ?ts1 t) = ADD) (refine (tiles ?ts1 t) = REPLACE) True
               (\<not> (r \<and> parentRefines ?ts1 t) \<and> parentRefines ?ts1 t) = Some ts4"
    and s4: "ts' = visitFinish ts4 t fs (r \<and> parentRefines ?ts1 t)"
    unfolding executeTraversal_visit_stages bt by (auto split: option.splits)
  have fr2: "frame ?ts1 ts2" by (rule visitRefine_preserved[OF preserved_frame s2 frame_refl])
  have sk2: "\<not> skipLevelOfDetail' ts2" using sk1 frameD(10)[OF fr2] by simp
  have rf2: "refine (tiles ts2 t) = REPLACE" using rf static_eqD(3)[OF frameD(2)[OF fr2], of t] by simp
  have st: "(\<not> (r \<and> parentRefines ts t) \<and> parentRefines ts t) = (\<not> r \<and> parentRefines ts t)" by blast
  from s3 have "ts4 = baseDispatch ts2 t fs (\<not> r \<and> parentRefines ts t)"
    unfolding rf pr st using visitDispatch_base[OF sk2 rf2, of N fs] by simp
  with s2 s4 pr show ?thesis by simp
qed

lemma baseDispatch_simps:
  "selectedTiles (baseDispatch ts t fs s) =
     (if s \<and> contentAvailable (tiles ts t) \<and> tileContentVisibility fs t \<noteq> OUTSIDE
      then selectedTiles ts @ [t] else selectedTiles ts)"
  "refines (tiles (baseDispatch ts t fs s) x) = refines (tiles ts x)"
  "c \<in> set (requestedTiles ts) \<Longrightarrow> c \<in> set (requestedTiles (baseDispatch ts t fs s))"
  "hasUnloadedContent (tiles ts t) \<or> contentExpired (tiles ts t) \<Longrightarrow>
     t \<in> set (requestedTiles (baseDispatch ts t fs s))"
  by (auto simp add: baseDispatch_def Let_def)

lemma visitFinish_simps:
  "selectedTiles (visitFinish ts t fs b) = selectedTiles ts"
  "requestedTiles (visitFinish ts t fs b) = requestedTiles ts"
  "refines (tiles (visitFinish ts t fs b) x) = (if x = t then b else refines (tiles ts x))"
  by (simp_all add: visitFinish_def)

lemma frame_requestNeeded:
  "frame ts ts' \<Longrightarrow>
     (hasUnloadedContent (tiles ts' t) \<or> contentExpired (tiles ts' t)) =
     (hasUnloadedContent (tiles ts t) \<or> contentExpired (tiles ts t))"
  using frameD(7)[of ts ts' t] static_eqD(8)[OF frameD(2), of ts ts' t] by simp

lemma executeTraversal_visit_base_effect:
  assumes "\<not> skipLevelOfDetail' ts" and "refine (tiles ts t) = REPLACE"
    and "executeTraversal_visit N ts t baseSSE fs stack = Some (stack', ts')"
  shows "\<exists>r ts2. visitRefine N (updateTileAncestorContentLinks ts t fs) t stack fs = Some (r, stack', ts2)
     \<and> selectedTiles ts' =
         (if \<not> r \<and> parentRefines ts t \<and> contentAvailable (tiles ts t)
               \<and> tileContentVisibility fs t \<noteq> OUTSIDE
          then selectedTiles ts @ [t] else selectedTiles ts)
     \<and> (\<forall>x. refines (tiles ts' x) = (if x = t then r \<and> parentRefines ts t else refines (tiles ts x)))
     \<and> (\<forall>c. c \<in> set (requestedTiles ts) \<longrightarrow> c \<in> set (requestedTiles ts'))
     \<and> (hasUnloadedContent (tiles ts t) \<or> contentExpired (tiles ts t) \<longrightarrow>
          t \<in> set (requestedTiles ts'))"
proof -
  let ?ts1 = "updateTileAncestorContentLinks ts t fs"
  from executeTraversal_visit_base[OF assms] obtain r ts2 where
    s2: "visitRefine N ?ts1 t stack fs = Some (r, stack', ts2)"
    and ts': "ts' = visitFinish (baseDispatch ts2 t fs (\<not> r \<and> parentRefines ts t)) t fs
                     (r \<and> parentRefines ts t)"
    by blast
  have fr2: "frame ts ts2"
    by (rule visitRefine_preserved[OF preserved_frame s2]) simp
  have sel2: "selectedTiles ts2 = selectedTiles ts"
    by (rule visitRefine_pushSafe[OF pushSafe_selectedTiles s2]) simp
  have ref2: "\<And>x. refines (tiles ts2 x) = refines (tiles ts x)"
    by (rule visitRefine_pushSafe[OF pushSafe_refines s2]) (simp add: links_tiles)
  have req2: "\<And>c. c \<in> set (requestedTiles ts) \<Longrightarrow> c \<in> set (requestedTiles ts2)"
    by (rule visitRefine_pushSafe[OF pushSafe_requested s2]) simp
  have ca: "contentAvailable (tiles ts2 t) = contentAvailable (tiles ts t)"
    by (rule frame_contentAvailable[OF fr2])
  have "selectedTiles ts' =
         (if \<not> r \<and> parentRefines ts t \<and> contentAvailable (tiles ts t)
               \<and> tileContentVisibility fs t \<noteq> OUTSIDE
          then selectedTiles ts @ [t] else selectedTiles ts)"
    unfolding ts' visitFinish_simps baseDispatch_simps ca sel2 by simp
  moreover have "\<forall>x. refines (tiles ts' x) = (if x = t then r \<and> parentRefines ts t else refines (tiles ts x))"
    unfolding ts' visitFinish_simps baseDispatch_simps ref2 by simp
  moreover have "\<forall>c. c \<in> set (requestedTiles ts) \<longrightarrow> c \<in> set (requestedTiles ts')"
    unfolding ts' visitFinish_simps using req2 baseDispatch_simps(3) by blast
  moreover have "hasUnloadedContent (tiles ts t) \<or> contentExpired (tiles ts t) \<longrightarrow>
          t \<in> set (requestedTiles ts')"
    unfolding ts' visitFinish_simps using baseDispatch_simps(4)[of ts2 t] frame_requestNeeded[OF fr2, of t]
    by blast
  ultimately show ?thesis using s2 by blast
qed

lemma checkRefines_frame: "frame ts ts' \<Longrightarrow> checkRefines ts' t = checkRefines ts t"
  using static_eqD(3)[OF frameD(2), of ts ts' t]
  by (simp add: checkRefines_def frameD(6,10))

lemma frame_refine: "frame ts ts' \<Longrightarrow> refine (tiles ts' t) = refine (tiles ts t)"
  by (rule static_eqD(3)) (rule frameD(2))

lemma executeTraversal_visit_waiting:
  assumes b0: "subtreeBound (tiles ts0) w" and pl: "parentLinked ts0"
    and base: "\<not> skipLevelOfDetail' ts0" and rep: "\<forall>t. refine (tiles ts0 t) = REPLACE"
    and need: "\<forall>c\<in>C. hasUnloadedContent (tiles ts0 c) \<or> contentExpired (tiles ts0 c)"
    and inv: "waitingInv w N ts0 r L C ts (t # rest)"
    and v: "executeTraversal_visit N ts t baseSSE fs rest = Some (stack', ts')"
  shows "waitingInv w N ts0 r L C ts' stack'"
proof -
  let ?ts1 = "updateTileAncestorContentLinks ts t fs"
  from inv have fr: "frame ts0 ts" and sl: "selectedTiles ts = L" and rr: "\<not> refines (tiles ts r)"
    and st: "\<And>s. s \<in> set (t # rest) \<Longrightarrow> w s \<le> N \<and> \<not> parentRefines ts s"
    and cc: "\<And>c. c \<in> C \<Longrightarrow> c \<in> set (t # rest) \<or> c \<in> set (requestedTiles ts)"
    unfolding waitingInv_def by blast+
  have sk: "\<not> skipLevelOfDetail' ts" using base frameD(10)[OF fr] by simp
  have rt: "refine (tiles ts t) = REPLACE" using rep frame_refine[OF fr] by simp
  have wt: "w t \<le> N" and npr: "\<not> parentRefines ts t" using st[of t] by simp_all
  have fr1: "frame ts ?ts1" by simp
  have b: "subtreeBound (tiles ts) w" using fr b0 by (rule subtreeBound_frame)
  have b1: "subtreeBound (tiles ?ts1) w" using fr1 b by (rule subtreeBound_frame)
  from executeTraversal_visit_base_effect[OF sk rt v] npr obtain r2 ts2 where
    s2: "visitRefine N ?ts1 t rest fs = Some (r2, stack', ts2)"
    and sel: "selectedTiles ts' = selectedTiles ts"
    and ref: "\<And>x. refines (tiles ts' x) = (if x = t then False else refines (tiles ts x))"
    and req: "\<And>c. c \<in> set (requestedTiles ts) \<Longrightarrow> c \<in> set (requestedTiles ts')"
    and rqt: "hasUnloadedContent (tiles ts t) \<or> contentExpired (tiles ts t) \<longrightarrow>
          t \<in> set (requestedTiles ts')"
    by auto
  from visitRefine_result[OF b1 wt, of rest fs] s2 obtain cs where
    cs: "if canTraverse ?ts1 (tiles ?ts1 t)
         then mset cs = mset (filter (shown fs) (children (tiles ?ts1 t))) else cs = []"
    and stack': "stack' = cs @ rest"
    by auto
  have frt: "frame ts ts'" by (rule executeTraversal_visit_preserved[OF preserved_frame v frame_refl])
  have fr': "frame ts0 ts'" using fr frt by (rule frame_trans)
  have kid: "\<And>c. c \<in> set cs \<Longrightarrow> c \<in> set (children (tiles ts t))"
  proof -
    fix c assume c: "c \<in> set cs"
    with cs have "mset cs = mset (filter (shown fs) (children (tiles ?ts1 t)))"
      by (auto split: if_splits)
    then have "set cs = set (filter (shown fs) (children (tiles ?ts1 t)))" by (rule mset_eq_setD)
    with c frameD(5)[OF fr1, of t] show "c \<in> set (children (tiles ts t))" by auto
  qed
  have stack_ok: "\<forall>s\<in>set stack'. w s \<le> N \<and> \<not> parentRefines ts' s"
  proof
    fix s assume "s \<in> set stack'"
    then consider "s \<in> set cs" | "s \<in> set rest" unfolding stack' by auto
    then show "w s \<le> N \<and> \<not> parentRefines ts' s"
    proof cases
      case 1
      then have c: "s \<in> set (children (tiles ts t))" by (rule kid)
      then have "w s \<le> sum_list (map w (children (tiles ts t)))" by (simp add: member_le_sum_list)
      with subtreeBound_children[OF b, of t] wt have "w s \<le> N" by simp
      moreover from c have "s \<in> set (children (tiles ts0 t))" using frameD(5)[OF fr] by simp
      with pl have "parent (tiles ts0 s) = Some t" by (simp add: parentLinked_def)
      then have "parent (tiles ts' s) = Some t" by (simp add: frame_parent[OF fr'])
      then have "\<not> parentRefines ts' s" by (simp add: parentRefines_def ref)
      ultimately show ?thesis by simp
    next
      case 2
      with st[of s] have ws: "w s \<le> N" and np: "\<not> parentRefines ts s" by simp_all
      from np obtain p where p: "parent (tiles ts s) = Some p" "\<not> refines (tiles ts p)"
        by (auto simp add: parentRefines_def split: option.splits)
      then have "\<not> parentRefines ts' s"
        by (simp add: parentRefines_def frame_parent[OF frt] ref)
      with ws show ?thesis by simp
    qed
  qed
  have c_ok: "\<forall>c\<in>C. c \<in> set stack' \<or> c \<in> set (requestedTiles ts')"
  proof
    fix c assume c: "c \<in> C"
    show "c \<in> set stack' \<or> c \<in> set (requestedTiles ts')"
    proof (cases "c = t")
      case True
      with c need frame_requestNeeded[OF fr, of t] rqt show ?thesis by auto
    next
      case False
      with cc[OF c] req show ?thesis unfolding stack' by auto
    qed
  qed
  have "\<not> refines (tiles ts' r)" using rr by (simp add: ref)
  then show ?thesis
    unfolding waitingInv_def using fr' sel sl stack_ok c_ok by simp
qed

lemma executeTraversal_loop_waiting:
  assumes b0: "subtreeBound (tiles ts0) w" and pl: "parentLinked ts0"
    and base: "\<not> skipLevelOfDetail' ts0" and rep: "\<forall>t. refine (tiles ts0 t) = REPLACE"
    and need: "\<forall>c\<in>C. hasUnloadedContent (tiles ts0 c) \<or> contentExpired (tiles ts0 c)"
  shows "executeTraversal_loop n N baseSSE fs stack ts = Some ts' \<Longrightarrow>
         waitingInv w N ts0 r L C ts stack \<Longrightarrow> waitingInv w N ts0 r L C ts' []"
proof (induction n arbitrary: stack ts)
  case 0
  then show ?case by (cases stack) auto
next
  case (Suc n)
  show ?case
  proof (cases stack)
    case Nil
    with Suc.prems show ?thesis by auto
  next
    case (Cons t rest)
    with Suc.prems(1) obtain stack1 ts1 where
      v: "executeTraversal_visit N ts t baseSSE fs rest = Some (stack1, ts1)"
      and l: "executeTraversal_loop n N baseSSE fs stack1 ts1 = Some ts'"
      by (auto split: option.splits)
    have "waitingInv w N ts0 r L C ts1 stack1"
      using b0 pl base rep need Suc.prems(2)[unfolded Cons] v by (rule executeTraversal_visit_waiting)
    with l show ?thesis by (rule Suc.IH)
  qed
qed

text \<open>
  C1 as the code has it. Base mode, the frame not frozen, the tiles a well-formed tree
  all of whose tiles refine by REPLACE. The root is visible, has content of its own (it
  is not an empty tile), and its screen-space error, alone and with the parent's
  geometric error, exceeds \<open>maximumScreenSpaceError\<close>; its children are all visible and in
  the request volume, and one of them, \<open>c0\<close>, is not empty and lacks \<open>contentAvailable\<close>.
  Then \<open>selectTiles\<close> returns \<open>true\<close> with the root's \<open>refines\<close> flag false; \<open>selectedTiles\<close>
  is the root alone when the root's content is available and not culled, and empty
  otherwise; and every child whose content is unloaded or expired is in
  \<open>requestedTiles\<close>.
\<close>

theorem base_root_waits_for_children:
  assumes b: "subtreeBound (tiles ts) w" and wr: "w (rootTile ts) \<le> N"
    and pl: "parentLinked ts" and pr: "parent (tiles ts (rootTile ts)) = None"
    and base: "\<not> skipLevelOfDetail ts" and nf: "\<not> debugFreezeFrame ts"
    and rep: "\<forall>t. refine (tiles ts t) = REPLACE"
    and vis: "shown fs (rootTile ts)"
    and psse: "maximumScreenSpaceError ts < tileScreenSpaceErrorWithParentError fs (rootTile ts)"
    and ne: "\<not> hasEmptyContent' (tiles ts (rootTile ts))"
    and sse: "maximumScreenSpaceError ts < screenSpaceError (tiles ts (rootTile ts))"
    and allv: "\<forall>c\<in>set (children (tiles ts (rootTile ts))). shown fs c"
    and c0: "c0 \<in> set (children (tiles ts (rootTile ts)))"
    and c0ne: "\<not> hasEmptyContent' (tiles ts c0)" and c0na: "\<not> contentAvailable (tiles ts c0)"
  shows "\<exists>ts'. selectTiles N ts fs = Some (ReturnTrue, ts')
     \<and> \<not> refines (tiles ts' (rootTile ts))
     \<and> selectedTiles ts' =
         (if contentAvailable (tiles ts (rootTile ts))
              \<and> tileContentVisibility fs (rootTile ts) \<noteq> OUTSIDE
          then [rootTile ts] else [])
     \<and> (\<forall>c\<in>set (children (tiles ts (rootTile ts))).
           hasUnloadedContent (tiles ts c) \<or> contentExpired (tiles ts c) \<longrightarrow>
           c \<in> set (requestedTiles ts'))"
proof -
  let ?r = "rootTile ts"
  let ?tsA = "updateTile (resetLists ts) ?r fs"
  let ?tsL = "updateTileAncestorContentLinks ?tsA ?r fs"
  let ?m = "maximumScreenSpaceError ?tsA"
  let ?L = "if contentAvailable (tiles ts ?r) \<and> tileContentVisibility fs ?r \<noteq> OUTSIDE
            then [?r] else []"
  let ?C = "{c \<in> set (children (tiles ts ?r)).
              hasUnloadedContent (tiles ts c) \<or> contentExpired (tiles ts c)}"
  have frA: "frame ts ?tsA" unfolding resetLists_def by (simp add: frame_def)
  have frL: "frame ts ?tsL" using frA frame_links by (rule frame_trans)
  have bA: "subtreeBound (tiles ?tsA) w" using frA b by (rule subtreeBound_frame)
  have bL: "subtreeBound (tiles ?tsL) w" using frL b by (rule subtreeBound_frame)
  have sk: "\<not> skipLevelOfDetail' ts" using base by (simp add: skipLevelOfDetail'_def)
  have skA: "\<not> skipLevelOfDetail' ?tsA" using sk frameD(10)[OF frA] by simp
  have rtA: "refine (tiles ?tsA ?r) = REPLACE"
    unfolding frame_refine[OF frA] using rep by blast
  have ct: "canTraverse ts (tiles ts ?r)"
    using ne sse c0 by (auto simp add: canTraverse_def hasEmptyContent'_def)
  from executeTraversal_loop_terminates[OF bA, of "[?r]" N N ?m fs] wr
  obtain ts' where loop: "executeTraversal_loop N N ?m fs [?r] ?tsA = Some ts'" by auto
  then obtain n where N: "N = Suc n" by (cases N) auto
  from loop obtain stack1 ts1 where
    v: "executeTraversal_visit N ?tsA ?r ?m fs [] = Some (stack1, ts1)"
    and l: "executeTraversal_loop n N ?m fs stack1 ts1 = Some ts'"
    unfolding N by (auto split: option.splits)
  have prA: "parentRefines ?tsA ?r"
    using pr frame_parent[OF frA, of ?r] by (simp add: parentRefines_def)
  have caA: "contentAvailable (tiles ?tsA ?r) = contentAvailable (tiles ts ?r)"
    by (rule frame_contentAvailable[OF frA])
  have selA: "selectedTiles ?tsA = []" by (simp add: resetLists_def)
  from executeTraversal_visit_base_effect[OF skA rtA v] obtain r2 ts2 where
    s2: "visitRefine N ?tsL ?r [] fs = Some (r2, stack1, ts2)"
    and sel: "selectedTiles ts1 = (if \<not> r2 then ?L else [])"
    and ref: "\<And>x. refines (tiles ts1 x) = (if x = ?r then r2 else refines (tiles ?tsA x))"
    unfolding caA selA using prA by auto
  have chL: "set (children (tiles ?tsL ?r)) = set (children (tiles ts ?r))"
    by (rule frameD(5)[OF frL])
  have ctL: "canTraverse ?tsL (tiles ?tsL ?r)" using ct frameD(8)[OF frL] by simp
  have "checkRefines ts ?r" using sk rep ne by (simp add: checkRefines_def)
  then have chk: "checkRefines ?tsL ?r" by (simp add: checkRefines_frame[OF frL])
  have "\<not> childRefines ts fs c0" using c0ne c0na by (simp add: childRefines_def)
  then have ncr: "\<not> childRefines ?tsL fs c0" by (simp add: childRefines_frame[OF frL])
  have wr': "w ?r \<le> N" by (rule wr)
  from visitRefine_result[OF bL wr', of "[]" fs] s2 ctL obtain cs where
    r2: "r2 = ((\<exists>c\<in>set (children (tiles ?tsL ?r)). shown fs c) \<and>
               (checkRefines ?tsL ?r \<longrightarrow> (\<forall>c\<in>set (children (tiles ?tsL ?r)). childRefines ?tsL fs c)))"
    and cs: "mset cs = mset (filter (shown fs) (children (tiles ?tsL ?r)))"
    and stack1: "stack1 = cs"
    by auto
  have nr2: "\<not> r2" unfolding r2 using chk ncr c0 chL by blast
  from cs have "set cs = set (filter (shown fs) (children (tiles ?tsL ?r)))" by (rule mset_eq_setD)
  then have set1: "set stack1 = set (children (tiles ts ?r))"
    unfolding stack1 using allv chL by auto
  have fr1: "frame ts ts1"
    by (rule executeTraversal_visit_preserved[OF preserved_frame v frA])
  have stack_ok: "\<forall>s\<in>set stack1. w s \<le> N \<and> \<not> parentRefines ts1 s"
  proof
    fix s assume "s \<in> set stack1"
    then have c: "s \<in> set (children (tiles ts ?r))" using set1 by simp
    then have "w s \<le> sum_list (map w (children (tiles ts ?r)))" by (simp add: member_le_sum_list)
    with subtreeBound_children[OF b, of ?r] wr have "w s \<le> N" by simp
    moreover from c pl have "parent (tiles ts s) = Some ?r" by (simp add: parentLinked_def)
    then have "parent (tiles ts1 s) = Some ?r" by (simp add: frame_parent[OF fr1])
    then have "\<not> parentRefines ts1 s" using nr2 by (simp add: parentRefines_def ref)
    ultimately show "w s \<le> N \<and> \<not> parentRefines ts1 s" by simp
  qed
  have "\<not> refines (tiles ts1 ?r)" using nr2 by (simp add: ref)
  then have inv1: "waitingInv w N ts ?r ?L ?C ts1 stack1"
    unfolding waitingInv_def using fr1 sel nr2 stack_ok set1 by auto
  have need: "\<forall>c\<in>?C. hasUnloadedContent (tiles ts c) \<or> contentExpired (tiles ts c)" by simp
  from executeTraversal_loop_waiting[OF b pl sk rep need l inv1]
  have fin: "waitingInv w N ts ?r ?L ?C ts' []" .
  have "traversalMode N ?tsA ?r fs = Some ts'"
    using skA loop by (simp add: traversalMode_def executeBaseTraversal_def executeTraversal_def)
  then have "selectTiles N ts fs = Some (ReturnTrue, ts')"
    using nf vis psse by (simp add: selectTiles_traversal)
  with fin show ?thesis unfolding waitingInv_def by auto
qed

lemma unloadedChildTileset_bound:
  "subtreeBound (tiles unloadedChildTileset) ((\<lambda>t. 1)(0 := 3))"
  by (simp add: subtreeBound_def unloadedChildTileset_def example_defs)

theorem base_root_waits_for_children_witness:
  "\<exists>ts'. selectTiles 3 unloadedChildTileset (allVisible (\<lambda>t. 64)) = Some (ReturnTrue, ts')
     \<and> \<not> refines (tiles ts' 0) \<and> selectedTiles ts' = [0] \<and> 2 \<in> set (requestedTiles ts')"
proof -
  have "((\<lambda>t. 1)(0 := 3)) (rootTile unloadedChildTileset) \<le> (3::nat)"
    and "parentLinked unloadedChildTileset"
    and "parent (tiles unloadedChildTileset (rootTile unloadedChildTileset)) = None"
    and "\<not> skipLevelOfDetail unloadedChildTileset"
    and "\<not> debugFreezeFrame unloadedChildTileset"
    and "\<forall>t. refine (tiles unloadedChildTileset t) = REPLACE"
    and "shown (allVisible (\<lambda>t. 64)) (rootTile unloadedChildTileset)"
    and "maximumScreenSpaceError unloadedChildTileset
           < tileScreenSpaceErrorWithParentError (allVisible (\<lambda>t. 64)) (rootTile unloadedChildTileset)"
    and "\<not> hasEmptyContent' (tiles unloadedChildTileset (rootTile unloadedChildTileset))"
    and "maximumScreenSpaceError unloadedChildTileset
           < screenSpaceError (tiles unloadedChildTileset (rootTile unloadedChildTileset))"
    and "\<forall>c\<in>set (children (tiles unloadedChildTileset (rootTile unloadedChildTileset))).
           shown (allVisible (\<lambda>t. 64)) c"
    and "2 \<in> set (children (tiles unloadedChildTileset (rootTile unloadedChildTileset)))"
    and "\<not> hasEmptyContent' (tiles unloadedChildTileset 2)"
    and "\<not> contentAvailable (tiles unloadedChildTileset 2)"
    by (simp_all add: unloadedChildTileset_def example_defs parentLinked_def shown_def
          hasEmptyContent'_def)
  from base_root_waits_for_children[OF unloadedChildTileset_bound this]
  show ?thesis
    by (simp add: unloadedChildTileset_def example_defs hasUnloadedContent_def hasEmptyContent'_def
          tileOf_def)
qed

text \<open>
  C1 fails for \<open>loadingChildTileset\<close>: base mode, a visible loaded REPLACE root over the
  budget, both children visible, in the request volume and not empty, and child 2
  without \<open>contentAvailable\<close>. The root does not refine, but the ADD child 1 is selected
  beside it, and child 2, whose content is being loaded, is not requested.
\<close>

theorem base_root_not_alone:
  "\<not> skipLevelOfDetail loadingChildTileset
   \<and> refine (tiles loadingChildTileset 0) = REPLACE
   \<and> children (tiles loadingChildTileset 0) = [1, 2]
   \<and> \<not> hasEmptyContent' (tiles loadingChildTileset 1)
   \<and> \<not> hasEmptyContent' (tiles loadingChildTileset 2)
   \<and> \<not> contentAvailable (tiles loadingChildTileset 2)
   \<and> map_option (\<lambda>res. (fst res, refines (tileOf 0 res), selectedTiles (snd res),
                          requestedTiles (snd res)))
       (selectTiles 3 loadingChildTileset (allVisible (\<lambda>t. 64)))
       = Some (ReturnTrue, False, [0, 1], [])"
  by (simp add: loadingChildTileset_def eval_defs)

section \<open>The selection depth\<close>

lemma flaggedAbove_cong:
  assumes "\<And>x. parent (tiles ts' x) = parent (tiles ts x)"
    and "\<And>x. shouldSelect (tiles ts' x) = shouldSelect (tiles ts x)"
    and "\<And>x. refine (tiles ts' x) = refine (tiles ts x)"
  shows "flaggedAbove k ts' t = flaggedAbove k ts t"
  by (induction k arbitrary: t) (simp_all add: assms split: option.splits)

lemma frame_depth: "frame ts ts' \<Longrightarrow> depth (tiles ts' x) = depth (tiles ts x)"
  by (rule static_eqD(2)) (rule frameD(2))

lemma selectedAbove_cong:
  assumes "frame ts ts'" and "\<And>x. shouldSelect (tiles ts' x) = shouldSelect (tiles ts x)"
  shows "selectedAbove ts' t = selectedAbove ts t"
  unfolding selectedAbove_def frame_depth[OF assms(1)]
  by (rule flaggedAbove_cong) (simp_all add: frame_parent[OF assms(1)] frame_refine[OF assms(1)] assms(2))

lemma selectedAbove_child:
  assumes "parent (tiles ts c) = Some t" and "depth (tiles ts c) = depth (tiles ts t) + 1"
    and "0 \<le> depth (tiles ts t)"
  shows "selectedAbove ts c =
           (if shouldSelect (tiles ts t) \<and> refine (tiles ts t) \<noteq> ADD then 1 else 0)
             + selectedAbove ts t"
proof -
  have "nat (depth (tiles ts c)) = Suc (nat (depth (tiles ts t)))" using assms(2,3) by simp
  then show ?thesis unfolding selectedAbove_def using assms(1) by simp
qed

lemma depthsOk_append:
  assumes "depthsOk ts0 ts A rest"
    and "\<forall>c\<in>set cs. 0 \<le> depth (tiles ts0 c) \<and> selectedAbove ts0 c = k"
    and "\<forall>h. length rest < h \<longrightarrow> pending ts A h = k"
  shows "depthsOk ts0 ts A (cs @ rest)"
  using assms(2) by (induction cs) (simp_all add: assms(1,3))

lemma depthsOk_cong:
  assumes "\<forall>h. 0 < h \<and> h \<le> length S \<longrightarrow> pending ts' A' h = pending ts A h"
  shows "depthsOk ts0 ts A S \<Longrightarrow> depthsOk ts0 ts' A' S"
  using assms by (induction S) simp_all

lemma pending_all:
  "\<forall>a\<in>set A. stackLength (tiles ts a) < h \<Longrightarrow> pending ts A h = length A"
  by (simp add: pending_def)

lemma pending_same:
  "\<forall>a\<in>set A. stackLength (tiles ts' a) = stackLength (tiles ts a) \<Longrightarrow> pending ts' A h = pending ts A h"
  unfolding pending_def by (rule arg_cong[where f=length]) (rule filter_cong, simp_all)

lemma pending_Cons:
  "pending ts (a # A) h = (if stackLength (tiles ts a) < h then 1 else 0) + pending ts A h"
  by (simp add: pending_def)

lemma depthsOk_rest:
  assumes "depthsOk ts0 ts A rest"
    and "\<forall>a\<in>set A. stackLength (tiles ts' a) = stackLength (tiles ts a)"
  shows "depthsOk ts0 ts' A rest"
  using assms(1) by (rule depthsOk_cong[rotated]) (simp add: pending_same[OF assms(2)])

lemma traverseAndSelect_step_depthInv:
  assumes pl: "parentLinked ts0" and dl: "depthLinked ts0"
    and sel: "selInv w ts S A"
    and inv: "depthInv ts0 S A ts"
    and step: "traverseAndSelect_step fs S A la ts = (S', A', la', ts')"
  shows "depthInv ts0 S' A' ts'"
proof -
  from inv obtain new where fr: "frame ts0 ts"
    and ss: "\<And>x. shouldSelect (tiles ts x) = shouldSelect (tiles ts0 x)"
    and dok: "depthsOk ts0 ts A S"
    and aok: "\<And>a. a \<in> set A \<Longrightarrow> selectionDepth (tiles ts a) = selectedAbove ts0 a"
    and new: "selectedTiles ts = selectedTiles ts0 @ new"
    and nok: "\<And>t. t \<in> set new \<Longrightarrow> refine (tiles ts0 t) \<noteq> ADD \<Longrightarrow>
                selectionDepth (tiles ts t) = selectedAbove ts0 t"
    unfolding depthInv_def by blast
  have frt: "frame ts ts'"
    using traverseAndSelect_step_preserved[OF preserved_frame frame_refl,
            where fs=fs and stack=S and anc=A and la=la and ts=ts] step
    by simp
  have fr': "frame ts0 ts'" using fr frt by (rule frame_trans)
  have rf: "\<And>x. refine (tiles ts x) = refine (tiles ts0 x)" by (rule frame_refine[OF fr])
  have top: "\<And>t rest. S = t # rest \<Longrightarrow> \<not> waiting ts S A \<Longrightarrow>
      (\<forall>a\<in>set A. stackLength (tiles ts a) \<le> length rest \<and> a \<noteq> t) \<and>
      0 \<le> depth (tiles ts0 t) \<and> length A = selectedAbove ts0 t \<and> depthsOk ts0 ts A rest"
  proof -
    fix t rest assume S: "S = t # rest" and nw: "\<not> waiting ts S A"
    from selInv_popped[OF sel[unfolded S] nw[unfolded S]]
    have le: "\<forall>a\<in>set A. stackLength (tiles ts a) \<le> length rest \<and> a \<noteq> t" by auto
    then have "pending ts A (Suc (length rest)) = length A" by (intro pending_all) auto
    with dok le show "(\<forall>a\<in>set A. stackLength (tiles ts a) \<le> length rest \<and> a \<noteq> t) \<and>
      0 \<le> depth (tiles ts0 t) \<and> length A = selectedAbove ts0 t \<and> depthsOk ts0 ts A rest"
      unfolding S by simp
  qed
  have kids: "\<And>t c. c \<in> set (pushVisible ts t) \<Longrightarrow> 0 \<le> depth (tiles ts0 t) \<Longrightarrow>
      0 \<le> depth (tiles ts0 c) \<and>
      selectedAbove ts0 c =
        (if shouldSelect (tiles ts t) \<and> refine (tiles ts t) \<noteq> ADD then 1 else 0) + selectedAbove ts0 t"
  proof -
    fix t c assume c: "c \<in> set (pushVisible ts t)" and d: "0 \<le> depth (tiles ts0 t)"
    from c have "c \<in> set (children (tiles ts t))" by (auto simp add: pushVisible_def split: if_splits)
    then have c0: "c \<in> set (children (tiles ts0 t))" using frameD(5)[OF fr] by simp
    with pl dl have p: "parent (tiles ts0 c) = Some t"
      and dc: "depth (tiles ts0 c) = depth (tiles ts0 t) + 1"
      by (simp_all add: parentLinked_def depthLinked_def)
    from selectedAbove_child[OF p dc d] dc d
    show "0 \<le> depth (tiles ts0 c) \<and>
      selectedAbove ts0 c =
        (if shouldSelect (tiles ts t) \<and> refine (tiles ts t) \<noteq> ADD then 1 else 0) + selectedAbove ts0 t"
      by (simp add: ss rf)
  qed
  from step show ?thesis
  proof (cases rule: traverseAndSelect_step_cases)
    case wait
    from wait(1) obtain h A1 where A: "A = h # A1" and sh: "stackLength (tiles ts h) = length S"
      by (cases A) (auto simp add: waiting_def)
    have sl: "\<And>a. stackLength (tiles ts' a) = stackLength (tiles ts a)" unfolding wait(5) by simp
    have sd: "\<And>a. selectionDepth (tiles ts' a) = selectionDepth (tiles ts a)" unfolding wait(5) by simp
    have s1: "\<And>x. shouldSelect (tiles ts' x) = shouldSelect (tiles ts0 x)"
      unfolding wait(5) ss[symmetric] by simp
    have "\<forall>k. 0 < k \<and> k \<le> length S \<longrightarrow> pending ts' A1 k = pending ts A k"
      unfolding A pending_Cons using sh pending_same[of A1 ts' ts] sl by simp
    with dok have d1: "depthsOk ts0 ts' A1 S" by (rule depthsOk_cong[rotated])
    have a1: "\<forall>a\<in>set A1. selectionDepth (tiles ts' a) = selectedAbove ts0 a"
      using aok A sd by simp
    have "\<exists>new'. selectedTiles ts' = selectedTiles ts0 @ new' \<and>
        (\<forall>t\<in>set new'. refine (tiles ts0 t) \<noteq> ADD \<longrightarrow>
           selectionDepth (tiles ts' t) = selectedAbove ts0 t)"
    proof (intro exI conjI)
      show "selectedTiles ts' = selectedTiles ts0 @
              (new @ (if tileContentVisibility fs h \<noteq> OUTSIDE then [h] else []))"
        unfolding wait(5) A using new by simp
      show "\<forall>t\<in>set (new @ (if tileContentVisibility fs h \<noteq> OUTSIDE then [h] else [])).
              refine (tiles ts0 t) \<noteq> ADD \<longrightarrow> selectionDepth (tiles ts' t) = selectedAbove ts0 t"
        using nok aok[of h] A sd by (auto split: if_splits)
    qed
    with fr' s1 d1 a1 show ?thesis unfolding depthInv_def wait(2,3) A by simp
  next
    case stuck
    with inv show ?thesis by simp
  next
    case (add t rest)
    from top[OF add(2,1)] have le: "\<forall>a\<in>set A. stackLength (tiles ts a) \<le> length rest"
      and d: "0 \<le> depth (tiles ts0 t)" and la: "length A = selectedAbove ts0 t"
      and dr: "depthsOk ts0 ts A rest" by auto
    have sl: "\<And>a. stackLength (tiles ts' a) = stackLength (tiles ts a)" unfolding add(8) by simp
    have sd: "\<And>a. selectionDepth (tiles ts' a) = selectionDepth (tiles ts a)" unfolding add(8) by simp
    have s1: "\<And>x. shouldSelect (tiles ts' x) = shouldSelect (tiles ts0 x)"
      unfolding add(8) ss[symmetric] by simp
    have d1: "depthsOk ts0 ts' A (pushVisible ts t @ rest)"
    proof (rule depthsOk_append[where k="length A"])
      show "depthsOk ts0 ts' A rest" using dr by (rule depthsOk_rest) (simp add: sl)
      show "\<forall>c\<in>set (pushVisible ts t). 0 \<le> depth (tiles ts0 c) \<and> selectedAbove ts0 c = length A"
        using kids[OF _ d] add(4) la by simp
      show "\<forall>h. length rest < h \<longrightarrow> pending ts' A h = length A"
        using le sl by (auto intro!: pending_all)
    qed
    have "\<exists>new'. selectedTiles ts' = selectedTiles ts0 @ new' \<and>
        (\<forall>x\<in>set new'. refine (tiles ts0 x) \<noteq> ADD \<longrightarrow>
           selectionDepth (tiles ts' x) = selectedAbove ts0 x)"
    proof (intro exI conjI)
      show "selectedTiles ts' = selectedTiles ts0 @
              (new @ (if tileContentVisibility fs t \<noteq> OUTSIDE then [t] else []))"
        unfolding add(8) using new by simp
      show "\<forall>x\<in>set (new @ (if tileContentVisibility fs t \<noteq> OUTSIDE then [t] else [])).
              refine (tiles ts0 x) \<noteq> ADD \<longrightarrow> selectionDepth (tiles ts' x) = selectedAbove ts0 x"
        using nok add(4) rf[of t] sd by (auto split: if_splits)
    qed
    with fr' s1 d1 aok sd show ?thesis unfolding depthInv_def add(5,6) by simp
  next
    case (skip t rest)
    from top[OF skip(2,1)] have le: "\<forall>a\<in>set A. stackLength (tiles ts a) \<le> length rest"
      and d: "0 \<le> depth (tiles ts0 t)" and la: "length A = selectedAbove ts0 t"
      and dr: "depthsOk ts0 ts A rest" by auto
    have d1: "depthsOk ts0 ts A (pushVisible ts t @ rest)"
    proof (rule depthsOk_append[where k="length A"])
      show "depthsOk ts0 ts A rest" by (rule dr)
      show "\<forall>c\<in>set (pushVisible ts t). 0 \<le> depth (tiles ts0 c) \<and> selectedAbove ts0 c = length A"
        using kids[OF _ d] skip(3) la by simp
      show "\<forall>h. length rest < h \<longrightarrow> pending ts A h = length A"
        using le by (auto intro!: pending_all)
    qed
    with inv show ?thesis unfolding depthInv_def skip(4,5,7) by simp
  next
    case (leaf t rest)
    from top[OF leaf(2,1)] have le: "\<forall>a\<in>set A. stackLength (tiles ts a) \<le> length rest"
      and d: "0 \<le> depth (tiles ts0 t)" and la: "length A = selectedAbove ts0 t"
      and dr: "depthsOk ts0 ts A rest" by auto
    have sl: "\<And>a. stackLength (tiles ts' a) = stackLength (tiles ts a)" unfolding leaf(9) by simp
    have sd: "\<And>a. selectionDepth (tiles ts' a) =
                 (if a = t then length A else selectionDepth (tiles ts a))"
      unfolding leaf(9) by simp
    have s1: "\<And>x. shouldSelect (tiles ts' x) = shouldSelect (tiles ts0 x)"
      unfolding leaf(9) ss[symmetric] by simp
    have d1: "depthsOk ts0 ts' A rest" using dr by (rule depthsOk_rest) (simp add: sl)
    have a1: "\<forall>a\<in>set A. selectionDepth (tiles ts' a) = selectedAbove ts0 a"
      using aok la by (simp add: sd)
    have "\<exists>new'. selectedTiles ts' = selectedTiles ts0 @ new' \<and>
        (\<forall>x\<in>set new'. refine (tiles ts0 x) \<noteq> ADD \<longrightarrow>
           selectionDepth (tiles ts' x) = selectedAbove ts0 x)"
    proof (intro exI conjI)
      show "selectedTiles ts' = selectedTiles ts0 @
              (new @ (if tileContentVisibility fs t \<noteq> OUTSIDE then [t] else []))"
        unfolding leaf(9) using new by simp
      show "\<forall>x\<in>set (new @ (if tileContentVisibility fs t \<noteq> OUTSIDE then [t] else [])).
              refine (tiles ts0 x) \<noteq> ADD \<longrightarrow> selectionDepth (tiles ts' x) = selectedAbove ts0 x"
        using nok la by (auto simp add: sd split: if_splits)
    qed
    with fr' s1 d1 a1 show ?thesis unfolding depthInv_def leaf(6,7) by simp
  next
    case (push t rest)
    from top[OF push(2,1)] have le: "\<forall>a\<in>set A. stackLength (tiles ts a) \<le> length rest"
      and nt: "\<forall>a\<in>set A. a \<noteq> t"
      and d: "0 \<le> depth (tiles ts0 t)" and la: "length A = selectedAbove ts0 t"
      and dr: "depthsOk ts0 ts A rest" by auto
    have sl: "\<And>a. stackLength (tiles ts' a) =
                 (if a = t then length rest else stackLength (tiles ts a))"
      unfolding push(9) by simp
    have sd: "\<And>a. selectionDepth (tiles ts' a) =
                 (if a = t then length A else selectionDepth (tiles ts a))"
      unfolding push(9) by simp
    have s1: "\<And>x. shouldSelect (tiles ts' x) = shouldSelect (tiles ts0 x)"
      unfolding push(9) ss[symmetric] by simp
    have slA: "\<forall>a\<in>set A. stackLength (tiles ts' a) = stackLength (tiles ts a)"
      using nt by (simp add: sl)
    have dr1: "depthsOk ts0 ts' (t # A) rest"
      using dr
    proof (rule depthsOk_cong[rotated])
      show "\<forall>h. 0 < h \<and> h \<le> length rest \<longrightarrow> pending ts' (t # A) h = pending ts A h"
        unfolding pending_Cons using pending_same[OF slA] by (simp add: sl)
    qed
    have d1: "depthsOk ts0 ts' (t # A) (pushVisible ts t @ rest)"
    proof (rule depthsOk_append[where k="Suc (length A)"])
      show "depthsOk ts0 ts' (t # A) rest" by (rule dr1)
      show "\<forall>c\<in>set (pushVisible ts t). 0 \<le> depth (tiles ts0 c) \<and> selectedAbove ts0 c = Suc (length A)"
        using kids[OF _ d] push(3,4) la by simp
      show "\<forall>h. length rest < h \<longrightarrow> pending ts' (t # A) h = Suc (length A)"
      proof (intro allI impI)
        fix h assume h: "length rest < h"
        have "pending ts' (t # A) h = length (t # A)"
          using le slA h by (intro pending_all) (auto simp add: sl)
        then show "pending ts' (t # A) h = Suc (length A)" by simp
      qed
    qed
    have a1: "\<forall>a\<in>set (t # A). selectionDepth (tiles ts' a) = selectedAbove ts0 a"
      using aok la by (simp add: sd)
    have "\<exists>new'. selectedTiles ts' = selectedTiles ts0 @ new' \<and>
        (\<forall>x\<in>set new'. refine (tiles ts0 x) \<noteq> ADD \<longrightarrow>
           selectionDepth (tiles ts' x) = selectedAbove ts0 x)"
    proof (intro exI conjI)
      show "selectedTiles ts' = selectedTiles ts0 @ new"
        unfolding push(9) using new by simp
      show "\<forall>x\<in>set new. refine (tiles ts0 x) \<noteq> ADD \<longrightarrow> selectionDepth (tiles ts' x) = selectedAbove ts0 x"
        using nok la by (auto simp add: sd)
    qed
    with fr' s1 d1 a1 show ?thesis unfolding depthInv_def push(6,7) by simp
  qed
qed

lemma depthLinked_frame: "frame ts ts' \<Longrightarrow> depthLinked ts \<Longrightarrow> depthLinked ts'"
  by (simp add: depthLinked_def frameD(5) frame_depth)

lemma traverseAndSelect_depths:
  assumes b: "subtreeBound (tiles ts) w" and n: "2 * w r \<le> N"
    and pl: "parentLinked ts" and dl: "depthLinked ts" and dr: "depth (tiles ts r) = 0"
  shows "\<exists>ts'. traverseAndSelect N ts r fs = Some ts' \<and> depthInv ts [] [] ts'"
proof -
  have init: "subtreeBound (tiles ts) w \<and> selInv w ts [r] [] \<and> depthInv ts [r] [] ts"
    using b dr by (simp add: selInv_def depthInv_def pending_def selectedAbove_def)
  have m: "selMeasure w [r] [] \<le> N" using n by (simp add: selMeasure_def)
  have "\<exists>ts' (la'::tile_ref option). traverseAndSelect_loop N fs [r] [] None ts = Some ts' \<and>
          (subtreeBound (tiles ts') w \<and> selInv w ts' [] [] \<and> depthInv ts [] [] ts')"
  proof (rule traverseAndSelect_loop_rule
         [where Inv="\<lambda>S A la ts1. subtreeBound (tiles ts1) w \<and> selInv w ts1 S A \<and> depthInv ts S A ts1"
            and m="selMeasure w", OF init m])
    fix S A la ts1 S' A' la' ts'
    assume i: "subtreeBound (tiles ts1) w \<and> selInv w ts1 S A \<and> depthInv ts S A ts1"
      and ne: "\<not> (S = [] \<and> A = [])"
      and st: "traverseAndSelect_step fs S A la ts1 = (S', A', la', ts')"
    from i have b1: "subtreeBound (tiles ts1) w" and s1: "selInv w ts1 S A"
      and d1: "depthInv ts S A ts1" by simp_all
    from traverseAndSelect_step_selInv[OF b1 s1 ne st]
      traverseAndSelect_step_depthInv[OF pl dl s1 d1 st]
    show "(subtreeBound (tiles ts') w \<and> selInv w ts' S' A' \<and> depthInv ts S' A' ts') \<and>
            selMeasure w S' A' < selMeasure w S A"
      by simp
  qed
  then show ?thesis by (auto simp: traverseAndSelect_def)
qed

lemma traversalMode_skip:
  assumes "skipLevelOfDetail' ts"
  shows "traversalMode N ts r fs =
           (case executeTraversal N ts r (skipBaseError ts) (maximumScreenSpaceError ts) fs of
              None \<Rightarrow> None
            | Some ts1 \<Rightarrow> traverseAndSelect N ts1 r fs)"
  using assms
  by (simp add: traversalMode_def executeSkipTraversal_def executeBaseAndSkipTraversal_def
      skipBaseError_def)

text \<open>
  C6 as the code has it. In the two skipping modes, with the frame not frozen, the root
  visible and over the budget, on a well-formed tree (the weights \<open>w\<close> bound the subtrees,
  every child names its parent and lies one level below it, the root is at depth 0):
  \<open>selectTiles\<close> returns \<open>true\<close>, and every tile that its second pass, \<open>traverseAndSelect\<close>,
  appends to \<open>selectedTiles\<close> and that is not an ADD tile has a \<open>selectionDepth\<close> equal to
  the number of its proper ancestors that are not ADD tiles and have \<open>shouldSelect\<close> set
  (\<open>selectedAbove\<close>): the tiles that wait on the ancestor stack while it is visited.
\<close>

theorem selectionDepth_counts_flagged_ancestors:
  assumes b: "subtreeBound (tiles ts) w" and n: "2 * w (rootTile ts) \<le> N"
    and pl: "parentLinked ts" and dl: "depthLinked ts" and dr: "depth (tiles ts (rootTile ts)) = 0"
    and skip: "skipLevelOfDetail ts" and nf: "\<not> debugFreezeFrame ts"
    and vis: "shown fs (rootTile ts)"
    and psse: "maximumScreenSpaceError ts < tileScreenSpaceErrorWithParentError fs (rootTile ts)"
  shows "\<exists>ts1 ts' new.
      executeTraversal N (updateTile (resetLists ts) (rootTile ts) fs) (rootTile ts)
        (skipBaseError ts) (maximumScreenSpaceError ts) fs = Some ts1
    \<and> selectTiles N ts fs = Some (ReturnTrue, ts')
    \<and> selectedTiles ts' = selectedTiles ts1 @ new
    \<and> (\<forall>t\<in>set new. refine (tiles ts' t) \<noteq> ADD \<longrightarrow>
          selectionDepth (tiles ts' t) = selectedAbove ts' t)"
proof -
  let ?r = "rootTile ts"
  let ?tsA = "updateTile (resetLists ts) ?r fs"
  have frA: "frame ts ?tsA" unfolding resetLists_def by (simp add: frame_def)
  have bA: "subtreeBound (tiles ?tsA) w" using frA b by (rule subtreeBound_frame)
  have cfg: "skipBaseError ?tsA = skipBaseError ts"
    "maximumScreenSpaceError ?tsA = maximumScreenSpaceError ts"
    using config_eqD[OF frameD(1)[OF frA]] by (simp_all add: skipBaseError_def)
  have skA: "skipLevelOfDetail' ?tsA"
    using skip frameD(10)[OF frA] by (simp add: skipLevelOfDetail'_def)
  have wr: "w ?r \<le> N" using n by simp
  from executeTraversal_terminates[OF bA wr, of "skipBaseError ts" "maximumScreenSpaceError ts" fs]
  obtain ts1 where e: "executeTraversal N ?tsA ?r (skipBaseError ts) (maximumScreenSpaceError ts) fs = Some ts1"
    by blast
  have fr1: "frame ts ts1"
    by (rule executeTraversal_preserved[OF preserved_frame e frA])
  have b1: "subtreeBound (tiles ts1) w" using fr1 b by (rule subtreeBound_frame)
  have pl1: "parentLinked ts1" using fr1 pl by (rule parentLinked_frame)
  have dl1: "depthLinked ts1" using fr1 dl by (rule depthLinked_frame)
  have dr1: "depth (tiles ts1 ?r) = 0" using dr frame_depth[OF fr1] by simp
  from traverseAndSelect_depths[OF b1 n pl1 dl1 dr1, of fs] obtain ts' where
    t: "traverseAndSelect N ts1 ?r fs = Some ts'" and d: "depthInv ts1 [] [] ts'" by blast
  from d obtain new where fr': "frame ts1 ts'"
    and ss: "\<And>x. shouldSelect (tiles ts' x) = shouldSelect (tiles ts1 x)"
    and new: "selectedTiles ts' = selectedTiles ts1 @ new"
    and nok: "\<And>x. x \<in> set new \<Longrightarrow> refine (tiles ts1 x) \<noteq> ADD \<Longrightarrow>
                selectionDepth (tiles ts' x) = selectedAbove ts1 x"
    unfolding depthInv_def by blast
  have sa: "\<And>x. selectedAbove ts' x = selectedAbove ts1 x"
    using fr' ss by (rule selectedAbove_cong)
  have "traversalMode N ?tsA ?r fs = Some ts'"
    unfolding traversalMode_skip[OF skA] cfg e using t by simp
  then have "selectTiles N ts fs = Some (ReturnTrue, ts')"
    using nf vis psse by (simp add: selectTiles_traversal)
  moreover have "\<forall>x\<in>set new. refine (tiles ts' x) \<noteq> ADD \<longrightarrow>
          selectionDepth (tiles ts' x) = selectedAbove ts' x"
    using nok by (simp add: sa frame_refine[OF fr'])
  ultimately show ?thesis using e new by blast
qed

lemma replaceSkipTileset_bound:
  "subtreeBound (tiles replaceSkipTileset) ((\<lambda>t. 1)(0 := 3))"
  by (simp add: subtreeBound_def replaceSkipTileset_def example_defs)

theorem selectionDepth_counts_flagged_ancestors_witness:
  "\<exists>ts'. selectTiles 6 replaceSkipTileset (allVisible (\<lambda>t. 64)) = Some (ReturnTrue, ts')
     \<and> selectedTiles ts' = [1, 0]
     \<and> selectionDepth (tiles ts' 1) = selectedAbove ts' 1
     \<and> selectionDepth (tiles ts' 1) = 1"
proof -
  let ?fs = "allVisible (\<lambda>t. 64)"
  have h: "2 * ((\<lambda>t. 1)(0 := 3)) (rootTile replaceSkipTileset) \<le> (6::nat)"
    "parentLinked replaceSkipTileset" "depthLinked replaceSkipTileset"
    "depth (tiles replaceSkipTileset (rootTile replaceSkipTileset)) = 0"
    "skipLevelOfDetail replaceSkipTileset" "\<not> debugFreezeFrame replaceSkipTileset"
    "shown ?fs (rootTile replaceSkipTileset)"
    "maximumScreenSpaceError replaceSkipTileset
       < tileScreenSpaceErrorWithParentError ?fs (rootTile replaceSkipTileset)"
    by (simp_all add: replaceSkipTileset_def example_defs parentLinked_def depthLinked_def shown_def)
  have first: "map_option selectedTiles
      (executeTraversal 6 (updateTile (resetLists replaceSkipTileset) (rootTile replaceSkipTileset) ?fs)
         (rootTile replaceSkipTileset) (skipBaseError replaceSkipTileset)
         (maximumScreenSpaceError replaceSkipTileset) ?fs) = Some []"
    by (simp add: replaceSkipTileset_def resetLists_def skipBaseError_def eval_defs)
  have last: "map_option (\<lambda>res. (selectedTiles (snd res), refine (tileOf 1 res),
                                   selectionDepth (tileOf 1 res)))
      (selectTiles 6 replaceSkipTileset ?fs) = Some ([1, 0], REPLACE, 1)"
    by (simp add: replaceSkipTileset_def eval_defs)
  from selectionDepth_counts_flagged_ancestors[OF replaceSkipTileset_bound h]
  obtain ts1 ts' new where
    e: "executeTraversal 6 (updateTile (resetLists replaceSkipTileset) (rootTile replaceSkipTileset) ?fs)
         (rootTile replaceSkipTileset) (skipBaseError replaceSkipTileset)
         (maximumScreenSpaceError replaceSkipTileset) ?fs = Some ts1"
    and s: "selectTiles 6 replaceSkipTileset ?fs = Some (ReturnTrue, ts')"
    and n: "selectedTiles ts' = selectedTiles ts1 @ new"
    and d: "\<forall>t\<in>set new. refine (tiles ts' t) \<noteq> ADD \<longrightarrow>
              selectionDepth (tiles ts' t) = selectedAbove ts' t"
    by blast
  from first e have "selectedTiles ts1 = []" by simp
  moreover from last s have l: "selectedTiles ts' = [1, 0]" "refine (tiles ts' 1) = REPLACE"
    "selectionDepth (tiles ts' 1) = 1"
    by (simp_all add: tileOf_def)
  ultimately have "new = [1, 0]" using n by simp
  with d l have "selectionDepth (tiles ts' 1) = selectedAbove ts' 1" by simp
  with s l show ?thesis by simp
qed

text \<open>
  C6 fails for \<open>mixedSkipTileset\<close> (skip-only mode): the ADD tile 1 and its parent, the
  root, are both in \<open>selectedTiles\<close>, so tile 1 has one proper ancestor in
  \<open>selectedTiles\<close>, and its \<open>selectionDepth\<close> is 0: \<open>traverseAndSelect\<close> writes the field
  of a tile that is not an ADD tile only.
\<close>

theorem selectionDepth_of_add_tile:
  "skipLevelOfDetail mixedSkipTileset
   \<and> map_option (\<lambda>res. (selectedTiles (snd res), parent (tileOf 1 res),
                          selectionDepth (tileOf 1 res), selectedAncestors (snd res) 1))
       (selectTiles 6 mixedSkipTileset (allVisible (\<lambda>t. 64))) = Some ([1, 0], Some 0, 0, 1)"
  by (simp add: mixedSkipTileset_def selectedAncestors_def eval_defs)

end
